(* ===== verification/Prelude.thy ===== *)
theory Prelude
  imports Main "HOL-Library.Word" "HOL-Library.AList"
begin

text \<open>
  Shared vocabulary of the development: the machine types of the Rust sources, the saturating
  and wrapping arithmetic they use, ordered maps (\<open>BTreeMap\<close>) as strictly sorted association
  lists, insertion-ordered maps (\<open>HashMap\<close> where it is iterated) as association lists with
  distinct keys, and the generic lemmas the components share.

  Conventions: \<open>u64\<close>, \<open>u128\<close>, \<open>U256\<close>, addresses and hashes are words of the source's width;
  transaction indices, incarnation numbers and vector lengths (\<open>usize\<close>) are natural numbers,
  and an atomic counter that can wrap is updated with \<open>usize_fetch_add\<close> and
  \<open>usize_fetch_sub\<close>, which write the wrap-around of \<open>AtomicUsize\<close> out. A result
  \<open>Result<T, E>\<close> is \<open>E + T\<close> with \<open>Inl\<close> for \<open>Err\<close>.
\<close>

named_theorems sat_simps \<open>exact values of saturating arithmetic\<close>
named_theorems ordmap_simps \<open>lookups and ranges of ordered maps\<close>

type_synonym u8 = "8 word"
type_synonym u64 = "64 word"
type_synonym u128 = "128 word"
type_synonym u256 = "256 word"
type_synonym address = "160 word"
type_synonym b256 = "256 word"

type_synonym ('k, 'v) btree = "('k \<times> 'v) list"
type_synonym ('k, 'v) hashmap = "('k \<times> 'v) list"

subsection \<open>Wrapping and saturating arithmetic\<close>

definition usize_modulus :: nat where
  "usize_modulus = 2 ^ 64"

definition usize_fetch_add :: "nat \<Rightarrow> nat \<Rightarrow> nat" where
  "usize_fetch_add x k = (x + k) mod usize_modulus"

definition usize_fetch_sub :: "nat \<Rightarrow> nat \<Rightarrow> nat" where
  "usize_fetch_sub x k = (x + (usize_modulus - k mod usize_modulus)) mod usize_modulus"

definition saturating_add :: "'a::len word \<Rightarrow> 'a word \<Rightarrow> 'a word" where
  "saturating_add a b = (if unat a + unat b < 2 ^ LENGTH('a) then a + b else - 1)"

definition saturating_sub :: "'a::len word \<Rightarrow> 'a word \<Rightarrow> 'a word" where
  "saturating_sub a b = (if b \<le> a then a - b else 0)"

definition saturating_mul :: "'a::len word \<Rightarrow> 'a word \<Rightarrow> 'a word" where
  "saturating_mul a b = (if unat a * unat b < 2 ^ LENGTH('a) then a * b else - 1)"

lemma usize_fetch_add_small: "x + k < usize_modulus \<Longrightarrow> usize_fetch_add x k = x + k"
  by (simp add: usize_fetch_add_def)

lemma usize_fetch_sub_small:
  assumes "k \<le> x" "x < usize_modulus"
  shows "usize_fetch_sub x k = x - k"
proof -
  have "x + (usize_modulus - k mod usize_modulus) = (x - k) + usize_modulus"
    using assms by simp
  then have "usize_fetch_sub x k = (x - k) mod usize_modulus"
    by (simp only: usize_fetch_sub_def mod_add_self2)
  then show ?thesis
    using assms by simp
qed

lemma unat_max_word: "unat (- 1 :: 'a::len word) = 2 ^ LENGTH('a) - 1"
proof -
  have "(- 1 :: 'a word) = word_of_nat (2 ^ LENGTH('a) - 1)"
    by (simp add: of_nat_diff)
  then show ?thesis
    by (simp only: unat_of_nat) simp
qed

lemma unat_saturating_add [sat_simps]:
  "unat (saturating_add a b) = min (unat a + unat b) (2 ^ LENGTH('a) - 1)"
  for a b :: "'a::len word"
proof (cases "unat a + unat b < 2 ^ LENGTH('a)")
  case True
  then have "unat (a + b) = unat a + unat b"
    by (simp add: unat_word_ariths)
  with True show ?thesis
    by (simp add: saturating_add_def)
next
  case False
  then show ?thesis
    by (simp add: saturating_add_def unat_max_word)
qed

lemma unat_saturating_sub [sat_simps]: "unat (saturating_sub a b) = unat a - unat b"
  for a b :: "'a::len word"
  by (simp add: saturating_sub_def unat_sub word_le_nat_alt)

lemma unat_saturating_mul [sat_simps]:
  "unat (saturating_mul a b) = min (unat a * unat b) (2 ^ LENGTH('a) - 1)"
  for a b :: "'a::len word"
proof (cases "unat a * unat b < 2 ^ LENGTH('a)")
  case True
  then have "unat (a * b) = unat a * unat b"
    by (simp add: unat_word_ariths)
  with True show ?thesis
    by (simp add: saturating_mul_def)
next
  case False
  then show ?thesis
    by (simp add: saturating_mul_def unat_max_word)
qed

lemma saturating_add_0 [simp]: "saturating_add a 0 = a" "saturating_add 0 a = a"
  by (simp_all add: saturating_add_def)

lemma saturating_sub_0 [simp]: "saturating_sub a 0 = a"
  by (simp add: saturating_sub_def)

subsection \<open>Ordered maps\<close>

fun bt_insert :: "'k::linorder \<Rightarrow> 'v \<Rightarrow> ('k, 'v) btree \<Rightarrow> ('k, 'v) btree" where
  "bt_insert k v [] = [(k, v)]"
| "bt_insert k v ((k', v') # m) =
     (if k = k' then (k, v) # m
      else if k < k' then (k, v) # (k', v') # m
      else (k', v') # bt_insert k v m)"

definition bt_remove :: "'k \<Rightarrow> ('k, 'v) btree \<Rightarrow> ('k, 'v) btree" where
  "bt_remove k m = filter (\<lambda>p. fst p \<noteq> k) m"

text \<open>The entries of \<open>m.range(..k)\<close>, in ascending order.\<close>

definition bt_range :: "'k::linorder \<Rightarrow> ('k, 'v) btree \<Rightarrow> ('k, 'v) btree" where
  "bt_range k m = filter (\<lambda>p. fst p < k) m"

text \<open>
  Consuming \<open>m.range(..k)\<close> with \<open>next_back\<close> yields the entries in descending order: the head
  of this list is what the first call returns.
\<close>

definition bt_below :: "'k::linorder \<Rightarrow> ('k, 'v) btree \<Rightarrow> ('k, 'v) btree" where
  "bt_below k m = rev (bt_range k m)"

definition bt_sorted :: "('k::linorder, 'v) btree \<Rightarrow> bool" where
  "bt_sorted m = sorted_wrt (<) (map fst m)"

text \<open>Building a \<open>BTreeMap\<close> from an iterator: later pairs replace earlier ones.\<close>

definition bt_of_list :: "('k::linorder \<times> 'v) list \<Rightarrow> ('k, 'v) btree" where
  "bt_of_list ps = fold (\<lambda>(k, v) m. bt_insert k v m) ps []"

subsection \<open>Association lists\<close>

lemma desc_alist_unique:
  fixes xs ys :: "('k::linorder \<times> 'v) list"
  assumes "sorted_wrt (>) (map fst xs)" "sorted_wrt (>) (map fst ys)" "set xs = set ys"
  shows "xs = ys"
proof -
  have asc: "sorted_wrt (<) (map fst (rev xs))" "sorted_wrt (<) (map fst (rev ys))"
    using assms by (simp_all add: sorted_wrt_rev rev_map[symmetric])
  have "inj_on fst (set (rev xs) \<union> set (rev ys))"
    using asc(1) assms(3) by (simp add: strict_sorted_iff distinct_map)
  then have "rev xs = rev ys"
    using map_sorted_distinct_set_unique[of fst "rev xs" "rev ys"] asc assms(3)
    by (simp add: strict_sorted_iff)
  then show ?thesis by simp
qed

text \<open>
  The contract of a version map: what a client may rely on when it looks up, inserts, removes
  and walks the entries below a key. The laws are those of \<open>BTreeMap\<close>.
\<close>

locale version_map =
  fixes emp :: 'm
    and ins :: "nat \<Rightarrow> 'v \<Rightarrow> 'm \<Rightarrow> 'm"
    and del :: "nat \<Rightarrow> 'm \<Rightarrow> 'm"
    and get :: "'m \<Rightarrow> nat \<Rightarrow> 'v option"
    and below :: "nat \<Rightarrow> 'm \<Rightarrow> (nat \<times> 'v) list"
    and ok :: "'m \<Rightarrow> bool"
  assumes ok_emp: "ok emp"
    and ok_ins: "ok m \<Longrightarrow> ok (ins k v m)"
    and ok_del: "ok m \<Longrightarrow> ok (del k m)"
    and get_emp: "get emp k = None"
    and get_ins: "ok m \<Longrightarrow> get (ins k v m) k' = (if k' = k then Some v else get m k')"
    and get_del: "ok m \<Longrightarrow> get (del k m) k' = (if k' = k then None else get m k')"
    and below_set: "ok m \<Longrightarrow> (i, v) \<in> set (below k m) \<longleftrightarrow> i < k \<and> get m i = Some v"
    and below_desc: "ok m \<Longrightarrow> sorted_wrt (>) (map fst (below k m))"
begin

text \<open>A walk below \<open>k\<close> depends on the entries below \<open>k\<close> only.\<close>

lemma below_cong:
  assumes "ok m" "ok m'" "\<And>i. i < k \<Longrightarrow> get m i = get m' i"
  shows "below k m = below k m'"
  using assms by (intro desc_alist_unique below_desc) (auto simp: below_set)

lemma below_ins_above: "ok m \<Longrightarrow> k \<le> i \<Longrightarrow> below k (ins i v m) = below k m"
  by (rule below_cong) (auto simp: ok_ins get_ins)

lemma below_del_above: "ok m \<Longrightarrow> k \<le> i \<Longrightarrow> below k (del i m) = below k m"
  by (rule below_cong) (auto simp: ok_del get_del)

text \<open>The first entry of a walk is the one with the greatest key below the bound.\<close>

lemma below_Cons:
  assumes "ok m" "below k m = (i, v) # rest"
  shows "i < k" "get m i = Some v" "\<And>j. i < j \<Longrightarrow> j < k \<Longrightarrow> get m j = None"
    and "rest = below i m"
proof -
  show i: "i < k" and v: "get m i = Some v"
    using below_set[OF assms(1), of i v k] assms(2) by simp_all
  have gt: "\<And>j w. (j, w) \<in> set rest \<Longrightarrow> j < i"
    using below_desc[OF assms(1), of k] assms(2) by auto
  show none: "get m j = None" if "i < j" "j < k" for j
  proof (rule ccontr)
    assume "get m j \<noteq> None"
    then obtain w where "get m j = Some w" by auto
    then have "(j, w) \<in> set (below k m)"
      using that below_set[OF assms(1)] by simp
    then show False using gt[of j w] that assms(2) by auto
  qed
  have "set rest = set (below i m)"
  proof -
    have "(j, w) \<in> set rest \<longleftrightarrow> (j, w) \<in> set (below i m)" for j w
    proof
      assume j: "(j, w) \<in> set rest"
      then have "(j, w) \<in> set (below k m)" using assms(2) by simp
      then show "(j, w) \<in> set (below i m)"
        using gt[OF j] below_set[OF assms(1)] by blast
    next
      assume "(j, w) \<in> set (below i m)"
      then have "j < i" "get m j = Some w" using below_set[OF assms(1)] by blast+
      then have "(j, w) \<in> set (below k m)" using i below_set[OF assms(1)] by auto
      then show "(j, w) \<in> set rest" using \<open>j < i\<close> assms(2) by simp
    qed
    then show ?thesis by auto
  qed
  moreover have "sorted_wrt (>) (map fst rest)"
    using below_desc[OF assms(1), of k] assms(2) by simp
  ultimately show "rest = below i m"
    using desc_alist_unique below_desc[OF assms(1)] by blast
qed

lemma below_Nil: "ok m \<Longrightarrow> below k m = [] \<longleftrightarrow> (\<forall>i<k. get m i = None)"
  using below_set[of m _ _ k] by (metis list.set_intros(1) neq_Nil_conv not_None_eq
      prod.exhaust_sel empty_iff list.set(1))

end

lemma map_of_bt_insert [ordmap_simps]:
  "map_of (bt_insert k v m) k' = (if k' = k then Some v else map_of m k')"
  by (induction m) auto

lemma set_fst_bt_insert: "set (map fst (bt_insert k v m)) = insert k (set (map fst m))"
  by (induction k v m rule: bt_insert.induct) (simp_all add: insert_commute)

lemma bt_sorted_Nil [simp]: "bt_sorted []"
  by (simp add: bt_sorted_def)

lemma bt_sorted_insert: "bt_sorted m \<Longrightarrow> bt_sorted (bt_insert k v m)"
  unfolding bt_sorted_def
proof (induction m)
  case (Cons p m)
  obtain k' v' where p: "p = (k', v')" by fastforce
  then show ?case using Cons set_fst_bt_insert[of k v m] by auto
qed simp

lemma map_of_bt_remove [ordmap_simps]:
  "map_of (bt_remove k m) k' = (if k' = k then None else map_of m k')"
  by (induction m) (auto simp: bt_remove_def)

lemma bt_sorted_remove: "bt_sorted m \<Longrightarrow> bt_sorted (bt_remove k m)"
  unfolding bt_sorted_def bt_remove_def by (induction m) auto

lemma bt_sorted_distinct: "bt_sorted m \<Longrightarrow> distinct (map fst m)"
  by (simp add: bt_sorted_def strict_sorted_iff)

lemma set_bt_below:
  "bt_sorted m \<Longrightarrow> (i, v) \<in> set (bt_below k m) \<longleftrightarrow> i < k \<and> map_of m i = Some v"
  by (auto simp: bt_below_def bt_range_def bt_sorted_distinct)

lemma bt_below_desc: "bt_sorted m \<Longrightarrow> sorted_wrt (>) (map fst (bt_below k m))"
  unfolding bt_sorted_def bt_below_def bt_range_def
  by (induction m) (auto simp: sorted_wrt_append)

interpretation bt: version_map "[]" bt_insert bt_remove map_of bt_below bt_sorted
  by unfold_locales
    (auto simp: bt_sorted_insert bt_sorted_remove ordmap_simps set_bt_below bt_below_desc)

lemma bt_below_0 [simp]: "bt_below (0::nat) m = []"
  by (simp add: bt_below_def bt_range_def)

lemma bt_sorted_of_list: "bt_sorted (bt_of_list ps)"
proof -
  have "bt_sorted m \<Longrightarrow> bt_sorted (fold (\<lambda>(k, v) m. bt_insert k v m) ps m)" for m
    by (induction ps arbitrary: m) (auto simp: bt_sorted_insert)
  then show ?thesis by (simp add: bt_of_list_def)
qed

subsection \<open>Lists\<close>

lemma card_filter_update:
  assumes "i < length xs"
  shows "card {j. j < length (xs[i := x]) \<and> P (xs[i := x] ! j)} + (if P (xs ! i) then 1 else 0)
    = card {j. j < length xs \<and> P (xs ! j)} + (if P x then 1 else 0)"
proof -
  let ?R = "{j. j < length xs \<and> j \<noteq> i \<and> P (xs ! j)}"
  have fin: "finite ?R" and notin: "i \<notin> ?R" by auto
  have old: "{j. j < length xs \<and> P (xs ! j)} = (if P (xs ! i) then insert i ?R else ?R)"
    using assms by auto
  have new: "{j. j < length (xs[i := x]) \<and> P (xs[i := x] ! j)} = (if P x then insert i ?R else ?R)"
    using assms by (auto simp: nth_list_update)
  show ?thesis
    unfolding old new using fin notin by simp
qed

section \<open>Lists of lists\<close>

lemma concat_update_split:
  assumes "b < length xs"
  shows "concat (xs[b := ys]) = concat (take b xs) @ ys @ concat (drop (Suc b) xs)"
  using assms by (simp add: upd_conv_take_nth_drop)

lemma concat_split:
  assumes "b < length xs"
  shows "concat xs = concat (take b xs) @ xs ! b @ concat (drop (Suc b) xs)"
  using concat_update_split[OF assms, of "xs ! b"] by simp

end
