(* ===== verification/Primitives.thy ===== *)
theory Primitives
  imports Prelude
begin

text \<open>
  The crate \<open>metis-primitives\<close>: the signed 257-bit accumulator \<open>I257\<close> that lazy balance
  updates are folded into (\<open>i257.rs\<close>), the saturating conversions of \<open>U256\<close> and the two
  hashers of \<open>lib.rs\<close>. \<open>I257\<close> is given its meaning as an integer; addition and subtraction
  are shown to be integer addition and subtraction clamped to the representable magnitudes.
\<close>

section \<open>I257\<close>

record i257 =
  i257_value :: u256
  is_negative :: bool

definition i257_new :: "u256 \<Rightarrow> bool \<Rightarrow> i257" where
  "i257_new v n = \<lparr>i257_value = v, is_negative = n\<rparr>"

definition abs_value :: "i257 \<Rightarrow> u256" where
  "abs_value x = i257_value x"

definition i257_sign :: "i257 \<Rightarrow> int" where
  "i257_sign x = (if is_negative x then - 1 else 1)"

definition i257_ZERO :: i257 where
  "i257_ZERO = \<lparr>i257_value = 0, is_negative = False\<rparr>"

definition i257_NEGATIVE_ZERO :: i257 where
  "i257_NEGATIVE_ZERO = \<lparr>i257_value = 0, is_negative = True\<rparr>"

definition i257_from :: "u256 \<Rightarrow> i257" where
  "i257_from v = \<lparr>i257_value = v, is_negative = False\<rparr>"

definition i257_add :: "i257 \<Rightarrow> i257 \<Rightarrow> i257" where
  "i257_add self other =
     (if is_negative self = is_negative other then
        \<lparr>i257_value = saturating_add (i257_value self) (i257_value other),
         is_negative = is_negative self\<rparr>
      else if abs_value self > abs_value other then
        \<lparr>i257_value = i257_value self - i257_value other, is_negative = is_negative self\<rparr>
      else
        \<lparr>i257_value = i257_value other - i257_value self, is_negative = is_negative other\<rparr>)"

definition i257_sub :: "i257 \<Rightarrow> i257 \<Rightarrow> i257" where
  "i257_sub self other =
     (if is_negative self \<noteq> is_negative other then
        \<lparr>i257_value = saturating_add (i257_value self) (i257_value other),
         is_negative = is_negative self\<rparr>
      else if abs_value self > abs_value other then
        \<lparr>i257_value = i257_value self - i257_value other, is_negative = is_negative self\<rparr>
      else
        \<lparr>i257_value = i257_value other - i257_value self,
         is_negative = (\<not> is_negative self)\<rparr>)"

text \<open>The integer an accumulator stands for, and the clamp of the representable range.\<close>

definition i257_int :: "i257 \<Rightarrow> int" where
  "i257_int x = (if is_negative x then - uint (i257_value x) else uint (i257_value x))"

definition i257_max :: int where
  "i257_max = 2 ^ 256 - 1"

definition i257_clamp :: "int \<Rightarrow> int" where
  "i257_clamp z = max (- i257_max) (min i257_max z)"

lemmas i257_defs = i257_new_def abs_value_def i257_sign_def i257_ZERO_def
  i257_NEGATIVE_ZERO_def i257_from_def

section \<open>Conversions and hashers\<close>

text \<open>
  \<open>U256::as_limbs\<close>: the four 64-bit limbs, least significant first.
\<close>

definition as_limb :: "u256 \<Rightarrow> nat \<Rightarrow> u64" where
  "as_limb v i = ucast (drop_bit (64 * i) v)"

definition as_u64_saturated :: "u256 \<Rightarrow> u64" where
  "as_u64_saturated v =
     (if as_limb v 1 = 0 \<and> as_limb v 2 = 0 \<and> as_limb v 3 = 0 then as_limb v 0 else - 1)"

text \<open>
  On a 64-bit target \<open>usize::try_from\<close> of a \<open>u64\<close> always succeeds and \<open>isize::try_from\<close>
  succeeds up to \<open>isize::MAX\<close>.
\<close>

definition as_usize_saturated :: "u256 \<Rightarrow> nat" where
  "as_usize_saturated v = unat (as_u64_saturated v)"

definition as_isize_saturated :: "u256 \<Rightarrow> int" where
  "as_isize_saturated v =
     (let x = int (unat (as_u64_saturated v)) in if x < 2 ^ 63 then x else 2 ^ 63 - 1)"

definition from_be_bytes :: "u8 list \<Rightarrow> u64" where
  "from_be_bytes bs = fold (\<lambda>b acc. push_bit 8 acc + ucast b) bs 0"

text \<open>
  \<open>SuffixHasher::write\<close> replaces the state by the last eight bytes, most significant first.
  Slicing fewer than eight bytes panics (\<open>None\<close>).
\<close>

definition suffix_hasher_write :: "u64 \<Rightarrow> u8 list \<Rightarrow> u64 option" where
  "suffix_hasher_write st bs =
     (if length bs < 8 then None else Some (from_be_bytes (drop (length bs - 8) bs)))"

definition suffix_hasher_finish :: "u64 \<Rightarrow> u64" where
  "suffix_hasher_finish st = st"

definition identity_hasher_write_u64 :: "u64 \<Rightarrow> u64 \<Rightarrow> u64" where
  "identity_hasher_write_u64 st x = x"

definition identity_hasher_write_usize :: "u64 \<Rightarrow> nat \<Rightarrow> u64" where
  "identity_hasher_write_usize st x = of_nat x"

text \<open>\<open>IdentityHasher::write\<close> is \<open>unreachable!()\<close>: it panics on every input.\<close>

definition identity_hasher_write :: "u64 \<Rightarrow> u8 list \<Rightarrow> u64 option" where
  "identity_hasher_write st bs = None"

definition identity_hasher_finish :: "u64 \<Rightarrow> u64" where
  "identity_hasher_finish st = st"

section \<open>Correctness of I257\<close>

lemma i257_max_pos: "0 < i257_max"
  by (simp add: i257_max_def)

lemma uint_i257_max: "uint v \<le> i257_max" for v :: u256
proof -
  have "uint v < 2 ^ 256"
    using unsigned_less[of v, where ?'a = int] by simp
  then show ?thesis by (simp add: i257_max_def)
qed

lemma i257_int_range: "- i257_max \<le> i257_int x \<and> i257_int x \<le> i257_max"
proof -
  have "0 \<le> uint (i257_value x)" by (rule uint_nonnegative)
  with uint_i257_max[of "i257_value x"] i257_max_pos show ?thesis
    unfolding i257_int_def by (cases "is_negative x"; simp only: if_True if_False; linarith)
qed

lemma clamp_diff:
  assumes "0 \<le> x" "x \<le> i257_max" "0 \<le> y" "y \<le> i257_max"
  shows "i257_clamp (x - y) = x - y"
  using assms i257_max_pos by (simp add: i257_clamp_def)

lemmas uint_clamp_diff =
  clamp_diff[OF uint_nonnegative uint_i257_max uint_nonnegative uint_i257_max]

lemma clamp_sum:
  assumes "0 \<le> x" "0 \<le> y"
  shows "min (x + y) i257_max = i257_clamp (x + y)" "- min (x + y) i257_max = i257_clamp (- x - y)"
  using assms i257_max_pos by (simp_all add: i257_clamp_def)

lemma uint_saturating_add:
  "uint (saturating_add a b) = min (uint a + uint b) i257_max" for a b :: u256
proof -
  have "int (unat (saturating_add a b)) = min (int (unat a) + int (unat b)) i257_max"
    by (simp only: unat_saturating_add of_nat_min of_nat_add) (simp add: i257_max_def)
  then show ?thesis by simp
qed

lemma uint_diff: "b \<le> a \<Longrightarrow> uint (a - b) = uint a - uint b" for a b :: u256
  by (simp add: uint_minus_simple_alt)

lemma i257_clamp_id: "- i257_max \<le> z \<Longrightarrow> z \<le> i257_max \<Longrightarrow> i257_clamp z = z"
  by (simp add: i257_clamp_def)

lemma i257_add_int: "i257_int (i257_add a b) = i257_clamp (i257_int a + i257_int b)"
proof -
  consider (same) "is_negative a = is_negative b"
    | (gt) "is_negative a \<noteq> is_negative b" "i257_value b < i257_value a"
    | (le) "is_negative a \<noteq> is_negative b" "i257_value a \<le> i257_value b"
    by (meson not_le)
  then show ?thesis
  proof cases
    case same
    then show ?thesis
      using clamp_sum[OF uint_nonnegative uint_nonnegative, of "i257_value a" "i257_value b"]
      by (cases "is_negative b") (simp_all add: i257_add_def i257_int_def uint_saturating_add)
  next
    case gt
    then show ?thesis
      by (cases "is_negative b")
        (simp_all add: i257_add_def abs_value_def i257_int_def uint_diff uint_clamp_diff)
  next
    case le
    then show ?thesis
      by (cases "is_negative b")
        (simp_all add: i257_add_def abs_value_def i257_int_def uint_diff uint_clamp_diff)
  qed
qed

lemma i257_sub_as_add:
  "i257_sub a b = i257_add a (b\<lparr>is_negative := \<not> is_negative b\<rparr>)"
  by (auto simp: i257_sub_def i257_add_def abs_value_def)

lemma i257_int_neg: "i257_int (b\<lparr>is_negative := \<not> is_negative b\<rparr>) = - i257_int b"
  by (simp add: i257_int_def)

lemma i257_sub_int: "i257_int (i257_sub a b) = i257_clamp (i257_int a - i257_int b)"
  by (simp add: i257_sub_as_add i257_add_int i257_int_neg)

lemma i257_from_int [simp]: "i257_int (i257_from v) = uint v"
  by (simp add: i257_from_def i257_int_def)

lemma i257_NEGATIVE_ZERO_int [simp]: "i257_int i257_NEGATIVE_ZERO = 0"
  by (simp add: i257_NEGATIVE_ZERO_def i257_int_def)

lemma i257_abs_value_int: "0 \<le> i257_int x \<Longrightarrow> uint (abs_value x) = i257_int x"
  by (auto simp: i257_int_def abs_value_def split: if_splits)

section \<open>Correctness of the conversions\<close>

lemma as_limb_zero: "as_limb v i = 0 \<longleftrightarrow> (\<forall>n < 64. \<not> bit v (64 * i + n))"
proof -
  have "as_limb v i = 0 \<longleftrightarrow> (\<forall>n < 64. \<not> bit (as_limb v i) n)"
    using bit_word_eqI[of "as_limb v i" 0] by auto
  also have "\<dots> \<longleftrightarrow> (\<forall>n < 64. \<not> bit v (64 * i + n))"
    by (auto simp: as_limb_def bit_simps add.commute)
  finally show ?thesis .
qed

lemma high_limbs_zero:
  "as_limb v 1 = 0 \<and> as_limb v 2 = 0 \<and> as_limb v 3 = 0 \<longleftrightarrow> drop_bit 64 v = 0"
proof
  assume z: "as_limb v 1 = 0 \<and> as_limb v 2 = 0 \<and> as_limb v 3 = 0"
  have "\<not> bit v (64 + n)" if hi: "n < 192" for n
  proof -
    consider "n < 64" | "64 \<le> n" "n < 128" | "128 \<le> n" "n < 192" using hi by linarith
    then show ?thesis
    proof cases
      case 1 then show ?thesis using z by (auto simp: as_limb_zero)
    next
      case 2 then show ?thesis using z[unfolded as_limb_zero, THEN conjunct2, THEN conjunct1, rule_format, of "n - 64"] by simp
    next
      case 3 then show ?thesis using z[unfolded as_limb_zero, THEN conjunct2, THEN conjunct2, rule_format, of "n - 128"] by simp
    qed
  qed
  moreover have "\<not> bit v (64 + n)" if "192 \<le> n" for n using that bit_imp_le_length[of v "64 + n"] by fastforce
  ultimately have "\<not> bit v (64 + n)" for n using not_less by blast
  then show "drop_bit 64 v = 0" by (intro bit_word_eqI) (simp add: bit_simps)
next
  assume "drop_bit 64 v = 0"
  then have "\<not> bit (drop_bit 64 v) n" for n by simp
  then have "\<not> bit v (64 + n)" for n by (simp add: bit_simps)
  then have "\<not> bit v n" if "64 \<le> n" for n using that by (metis le_Suc_ex)
  then show "as_limb v 1 = 0 \<and> as_limb v 2 = 0 \<and> as_limb v 3 = 0" by (simp add: as_limb_zero)
qed

lemma drop_bit_64_zero: "drop_bit 64 v = 0 \<longleftrightarrow> unat v < 2 ^ 64" for v :: u256
proof -
  have "drop_bit 64 v = 0 \<longleftrightarrow> unat (drop_bit 64 v) = 0" by (simp add: unat_eq_zero)
  also have "\<dots> \<longleftrightarrow> unat v div 2 ^ 64 = 0" 
    using unat_drop_bit_eq[of 64 v] by (simp add: drop_bit_eq_div[of 64 "unat v"])
  finally show ?thesis by (simp add: div_eq_0_iff)
qed

lemma unat_as_limb_0: "unat (as_limb v 0) = unat v mod 2 ^ 64"
  by (simp add: as_limb_def unsigned_ucast_eq take_bit_eq_mod)

section \<open>Properties\<close>

text \<open>
  C40 (i257_saturating_arithmetic). Addition and subtraction of \<open>I257\<close> are addition and
  subtraction of integers, clamped to the magnitudes of 256 bits, for every pair of operands
  and both signs.
\<close>

theorem i257_saturating_arithmetic:
  "i257_int (i257_add a b) = max (- i257_max) (min i257_max (i257_int a + i257_int b))
   \<and> i257_int (i257_sub a b) = max (- i257_max) (min i257_max (i257_int a - i257_int b))"
  by (simp add: i257_add_int i257_sub_int i257_clamp_def)

text \<open>
  \<open>as_u64_saturated!\<close> returns the value itself when it fits in
  64 bits and \<open>u64::MAX\<close> otherwise.
\<close>

lemma as_u64_saturated_is_min: "unat (as_u64_saturated v) = min (unat v) (2 ^ 64 - 1)"
proof (cases "unat v < 2 ^ 64")
  case True
  then have "as_u64_saturated v = as_limb v 0"
    unfolding as_u64_saturated_def high_limbs_zero drop_bit_64_zero by simp
  then show ?thesis using True by (simp add: unat_as_limb_0)
next
  case False
  then have "as_u64_saturated v = - 1"
    unfolding as_u64_saturated_def high_limbs_zero drop_bit_64_zero by simp
  then show ?thesis using False by (simp add: unat_max_word)
qed

end
