(* ===== verification/Types.thy ===== *)
theory Types
  imports Primitives
begin

text \<open>
  The data model of the parallel executor (\<open>crates/pe/src/types.rs\<close> and the flags of
  \<open>crates/pe/src/lib.rs\<close>): memory locations and the values and entries stored for them,
  transaction versions, incarnation statuses with their packed \<open>usize\<close> encoding, read
  origins, worker tasks, read and write sets, and the generic atomic cell \<open>AtomicWrapper\<close>.

  \<open>AccountInfo\<close> and \<open>Bytecode\<close> are types of revm. The executor reads the four fields of an
  \<open>AccountInfo\<close> and passes a \<open>Bytecode\<close> around unchanged, so a bytecode is its bytes.
\<close>

unbundle bit_operations_syntax

type_synonym bytecode = "u8 list"
type_synonym location_hash = u64

record account_info =
  ai_balance :: u256
  ai_nonce :: u64
  ai_code_hash :: b256
  ai_code :: "bytecode option"

section \<open>Accounts, locations and entries\<close>

datatype account_meta = CA "u256 \<times> u64" | EOA "u256 \<times> u64"

fun meta_balance :: "account_meta \<Rightarrow> u256" where
  "meta_balance (CA a) = fst a"
| "meta_balance (EOA a) = fst a"

fun meta_nonce :: "account_meta \<Rightarrow> u64" where
  "meta_nonce (CA a) = snd a"
| "meta_nonce (EOA a) = snd a"

datatype location = Basic address | CodeHash address | Storage address u256

datatype location_value =
    VBasic account_info
  | VCodeHash b256
  | VStorage u256
  | LazyRecipient u256
  | LazySender u256
  | SelfDestructed

datatype entry = Data nat location_value | Estimate

section \<open>Transaction versions and statuses\<close>

datatype incarnation_status = ReadyToExecute | Executing | Executed | Validated | Aborted

record tx_status =
  incarnation :: nat
  status :: incarnation_status

record tx_version =
  tv_idx :: nat
  tv_incarnation :: nat

datatype read_origin = OriginMvMemory tx_version | OriginStorage

datatype task = Execution tx_version | Validation tx_version

type_synonym read_origins = "read_origin list"
type_synonym read_set = "(location_hash, read_origins) hashmap"
type_synonym write_set = "(location_hash, location_value) hashmap"

record read_write_set =
  rw_read :: read_set
  rw_write :: "location_hash list"

definition read_write_set_default :: read_write_set where
  "read_write_set_default = \<lparr>rw_read = [], rw_write = []\<rparr>"

text \<open>The discriminants of the enum, as the cast \<open>val.status as usize\<close> yields them.\<close>

fun status_code :: "incarnation_status \<Rightarrow> u64" where
  "status_code ReadyToExecute = 0"
| "status_code Executing = 1"
| "status_code Executed = 2"
| "status_code Validated = 3"
| "status_code Aborted = 4"

definition status_of_code :: "u64 \<Rightarrow> incarnation_status" where
  "status_of_code b =
     (if b = 0 then ReadyToExecute
      else if b = 1 then Executing
      else if b = 2 then Executed
      else if b = 3 then Validated
      else Aborted)"

definition tx_status_from_usize :: "u64 \<Rightarrow> tx_status" where
  "tx_status_from_usize v =
     \<lparr>incarnation = unat (drop_bit 8 v), status = status_of_code (v AND 0xFF)\<rparr>"

definition usize_from_tx_status :: "tx_status \<Rightarrow> u64" where
  "usize_from_tx_status t = push_bit 8 (of_nat (incarnation t)) OR status_code (status t)"

section \<open>Atomic cells\<close>

text \<open>
  \<open>AtomicWrapper<T>\<close> stores \<open>T\<close> as a \<open>usize\<close> through \<open>Into\<close> and \<open>From\<close>. The state of a
  cell is the stored word; the conversions are the arguments \<open>into_usize\<close> and \<open>from_usize\<close>.
\<close>

definition aw_new :: "('t \<Rightarrow> u64) \<Rightarrow> 't \<Rightarrow> u64" where
  "aw_new into_usize v = into_usize v"

definition aw_load :: "(u64 \<Rightarrow> 't) \<Rightarrow> u64 \<Rightarrow> 't" where
  "aw_load from_usize cell = from_usize cell"

definition aw_store :: "('t \<Rightarrow> u64) \<Rightarrow> u64 \<Rightarrow> 't \<Rightarrow> u64" where
  "aw_store into_usize cell v = into_usize v"

definition aw_swap :: "('t \<Rightarrow> u64) \<Rightarrow> (u64 \<Rightarrow> 't) \<Rightarrow> u64 \<Rightarrow> 't \<Rightarrow> 't \<times> u64" where
  "aw_swap into_usize from_usize cell v = (from_usize cell, into_usize v)"

definition aw_compare_exchange ::
    "('t \<Rightarrow> u64) \<Rightarrow> (u64 \<Rightarrow> 't) \<Rightarrow> u64 \<Rightarrow> 't \<Rightarrow> 't \<Rightarrow> ('t + 't) \<times> u64" where
  "aw_compare_exchange into_usize from_usize cell current new =
     (if cell = into_usize current then (Inr (from_usize cell), into_usize new)
      else (Inl (from_usize cell), cell))"

section \<open>Flags returned by an execution\<close>

text \<open>
  The \<open>bitflags!\<close> type \<open>FinishExecFlags: u8\<close>. A flag set is its bits; \<open>contains\<close> holds when
  all bits of the argument are set, \<open>|=\<close> is the bitwise or.
\<close>

type_synonym finish_exec_flags = u8

definition NeedValidation :: finish_exec_flags where
  "NeedValidation = 0"

definition WroteNewLocation :: finish_exec_flags where
  "WroteNewLocation = 1"

definition flags_empty :: finish_exec_flags where
  "flags_empty = 0"

definition flags_contains :: "finish_exec_flags \<Rightarrow> finish_exec_flags \<Rightarrow> bool" where
  "flags_contains fl other \<longleftrightarrow> fl AND other = other"

definition flags_or :: "finish_exec_flags \<Rightarrow> finish_exec_flags \<Rightarrow> finish_exec_flags" where
  "flags_or a b = a OR b"

text \<open>
  The macro \<open>index_mutex!\<close> locks the element at an index without a bounds check. Reading past
  the end is undefined behaviour in the source; that every index handed to it is in range is
  an invariant of the scheduler (theory \<open>Scheduler_Steps\<close>).
\<close>

definition index_mutex :: "'a list \<Rightarrow> nat \<Rightarrow> 'a" where
  "index_mutex xs i = xs ! i"

section \<open>Lemmas\<close>

text \<open>
  The contract of a packed cell: a representation that is faithful on the valid values makes
  the cell behave like a variable of the wrapped type.
\<close>

locale usize_repr =
  fixes into_usize :: "'t \<Rightarrow> u64" and from_usize :: "u64 \<Rightarrow> 't" and valid :: "'t \<Rightarrow> bool"
  assumes from_into: "valid v \<Longrightarrow> from_usize (into_usize v) = v"
begin

lemma into_inj: "valid a \<Longrightarrow> valid b \<Longrightarrow> into_usize a = into_usize b \<longleftrightarrow> a = b"
  using from_into by metis

lemma load_store: "valid v \<Longrightarrow> aw_load from_usize (aw_store into_usize cell v) = v"
  by (simp add: aw_load_def aw_store_def from_into)

lemma load_new: "valid v \<Longrightarrow> aw_load from_usize (aw_new into_usize v) = v"
  by (simp add: aw_load_def aw_new_def from_into)

lemma swap_new: "valid v \<Longrightarrow> aw_swap into_usize from_usize (aw_new into_usize v) w = (v, aw_new into_usize w)"
  by (simp add: aw_swap_def aw_new_def from_into)

lemma compare_exchange_spec:
  "valid held \<Longrightarrow> valid current \<Longrightarrow>
   aw_compare_exchange into_usize from_usize (aw_new into_usize held) current new =
     (if held = current then (Inr held, aw_new into_usize new) else (Inl held, aw_new into_usize held))"
  by (auto simp: aw_compare_exchange_def aw_new_def from_into into_inj)

end

lemma status_of_code_code [simp]: "status_of_code (status_code st) = st"
  by (cases st) (simp_all add: status_of_code_def)

lemma take_bit_status_code: "take_bit 8 (status_code st) = status_code st"
  by (cases st) simp_all

lemma not_bit_status_code: "8 \<le> n \<Longrightarrow> \<not> bit (status_code st) n"
  by (metis take_bit_status_code bit_take_bit_iff not_less)

lemma unpack_incarnation:
  fixes w :: u64
  assumes "take_bit 56 w = w"
  shows "drop_bit 8 (push_bit 8 w OR status_code st) = w"
proof (rule bit_word_eqI)
  fix n assume "n < LENGTH(64)"
  have "bit w n \<longleftrightarrow> n < 56 \<and> bit w n"
    by (metis assms bit_take_bit_iff)
  then show "bit (drop_bit 8 (push_bit 8 w OR status_code st)) n = bit w n"
    by (auto simp: bit_simps not_bit_status_code)
qed

lemma unpack_status:
  fixes w :: u64
  shows "(push_bit 8 w OR status_code st) AND 0xFF = status_code st"
proof -
  have "(push_bit 8 w OR status_code st) AND 0xFF = take_bit 8 (push_bit 8 w OR status_code st)"
    by (simp add: take_bit_eq_mask mask_eq_exp_minus_1)
  also have "\<dots> = status_code st"
    by (simp add: take_bit_push_bit take_bit_status_code)
  finally show ?thesis .
qed

text \<open>Unpacking a packed status gives it back as long as the incarnation fits in 56 bits.\<close>

lemma tx_status_pack_unpack:
  assumes "incarnation t < 2 ^ 56"
  shows "tx_status_from_usize (usize_from_tx_status t) = t"
proof -
  have "take_bit 56 (of_nat (incarnation t) :: u64) = of_nat (take_bit 56 (incarnation t))"
    by (simp add: take_bit_of_nat)
  also have "take_bit 56 (incarnation t) = incarnation t"
    using assms by (simp add: take_bit_nat_eq_self)
  finally have fits: "take_bit 56 (of_nat (incarnation t) :: u64) = of_nat (incarnation t)" .
  have "unat (of_nat (incarnation t) :: u64) = incarnation t"
    using assms by (simp add: unat_of_nat)
  then show ?thesis
    by (simp only: tx_status_from_usize_def usize_from_tx_status_def unpack_incarnation[OF fits]
        unpack_status status_of_code_code) simp
qed

interpretation tx_status_cell: usize_repr usize_from_tx_status tx_status_from_usize
  "\<lambda>t. incarnation t < 2 ^ 56"
  by unfold_locales (rule tx_status_pack_unpack)

lemma flags_contains_NeedValidation [simp]: "flags_contains fl NeedValidation"
  by (simp add: flags_contains_def NeedValidation_def)

section \<open>Properties\<close>

text \<open>
  C39 (packed_status_roundtrip). A transaction status stored in an \<open>AtomicWrapper\<close> is read back
  unchanged, and \<open>compare_exchange\<close> on the packed cell succeeds exactly when the stored status
  is the expected one, as long as incarnation numbers stay below \<open>2 ^ 56\<close>.
\<close>

theorem packed_status_roundtrip:
  assumes "incarnation t < 2 ^ 56" "incarnation current < 2 ^ 56"
  shows "aw_load tx_status_from_usize (aw_store usize_from_tx_status cell t) = t
    \<and> aw_compare_exchange usize_from_tx_status tx_status_from_usize (aw_new usize_from_tx_status t) current new =
        (if t = current then (Inr t, aw_new usize_from_tx_status new)
         else (Inl t, aw_new usize_from_tx_status t))"
  using assms tx_status_cell.load_store tx_status_cell.compare_exchange_spec by blast

theorem packed_status_roundtrip_witness:
  "aw_load tx_status_from_usize (aw_store usize_from_tx_status 0 \<lparr>incarnation = 3, status = Validated\<rparr>)
     = \<lparr>incarnation = 3, status = Validated\<rparr>"
  using packed_status_roundtrip[of "\<lparr>incarnation = 3, status = Validated\<rparr>" "\<lparr>incarnation = 0, status = Aborted\<rparr>" 0]
  by simp

end
