(* ===== verification/Scheduler.thy ===== *)
theory Scheduler
  imports Types
begin

text \<open>
  The collaborative scheduler (\<open>crates/pe/src/scheduler.rs\<close>, \<open>struct Scheduler\<close>). Its state is
  the record \<open>scheduler\<close>, one field per field of the source (the task provider is stored but
  never consulted). Every method is a function on that record: \<open>scheduler_new\<close>, \<open>sched_abort\<close>,
  \<open>try_execute\<close>, \<open>next_task\<close>, \<open>add_dependency\<close>, \<open>set_ready_status\<close>, \<open>finish_execution\<close>,
  \<open>try_validation_abort\<close> and \<open>finish_validation\<close>. The loop of \<open>next_task\<close> may wait for other
  threads for ever, so it takes fuel and returns \<open>None\<close> when the fuel is used up; one iteration
  is \<open>next_task_iter\<close>.

  The lemmas describe each operation on every branch. The interleaving of the operations by the
  worker threads is the subject of theory \<open>Scheduler_Steps\<close>.
\<close>

record scheduler =
  sc_block_size :: nat
  tx_statuses :: "tx_status list"
  tx_dependency :: "nat list list"
  execution_idx :: nat
  validation_idx :: nat
  min_validation_idx :: nat
  num_validated :: nat
  aborted :: bool

definition scheduler_new :: "nat \<Rightarrow> scheduler" where
  "scheduler_new block_size =
     \<lparr>sc_block_size = block_size,
      tx_statuses = map (\<lambda>_. \<lparr>incarnation = 0, status = ReadyToExecute\<rparr>) [0..<block_size],
      tx_dependency = map (\<lambda>_. []) [0..<block_size],
      execution_idx = 0,
      validation_idx = block_size,
      min_validation_idx = block_size,
      num_validated = 0,
      aborted = False\<rparr>"

definition sched_abort :: "scheduler \<Rightarrow> scheduler" where
  "sched_abort s = s\<lparr>aborted := True\<rparr>"

text \<open>The status of a transaction, and the update of one status under its lock.\<close>

definition tx_at :: "scheduler \<Rightarrow> nat \<Rightarrow> tx_status" where
  "tx_at s i = index_mutex (tx_statuses s) i"

definition set_tx_status :: "nat \<Rightarrow> incarnation_status \<Rightarrow> scheduler \<Rightarrow> scheduler" where
  "set_tx_status i st s =
     s\<lparr>tx_statuses := (tx_statuses s)[i := (tx_at s i)\<lparr>status := st\<rparr>]\<rparr>"

definition version_of :: "scheduler \<Rightarrow> nat \<Rightarrow> tx_version" where
  "version_of s i = \<lparr>tv_idx = i, tv_incarnation = incarnation (tx_at s i)\<rparr>"

definition is_done :: "incarnation_status \<Rightarrow> bool" where
  "is_done st \<longleftrightarrow> st = Executed \<or> st = Validated"

definition try_execute :: "nat \<Rightarrow> scheduler \<Rightarrow> tx_version option \<times> scheduler" where
  "try_execute tx_idx s =
     (if tx_idx < sc_block_size s then
        (if status (tx_at s tx_idx) = ReadyToExecute then
           (Some (version_of s tx_idx), set_tx_status tx_idx Executing s)
         else (None, s))
      else (None, s))"

text \<open>
  One iteration of the loop of \<open>next_task\<close>. The values loaded from \<open>execution_idx\<close> and
  \<open>validation_idx\<close> are arguments, since another thread may change the counters after they are
  loaded; the increments act on the state.
\<close>

datatype iter_result = Break | Continue | Return task

definition claim_execution :: "scheduler \<Rightarrow> iter_result \<times> scheduler" where
  "claim_execution s =
     (let idx = execution_idx s;
          s' = s\<lparr>execution_idx := usize_fetch_add idx 1\<rparr>
      in case try_execute idx s' of
           (Some v, s'') \<Rightarrow> (Return (Execution v), s'')
         | (None, s'') \<Rightarrow> (Continue, s''))"

definition next_task_with :: "nat \<Rightarrow> nat \<Rightarrow> scheduler \<Rightarrow> iter_result \<times> scheduler" where
  "next_task_with e v s =
     (if e \<ge> sc_block_size s \<and> v \<ge> sc_block_size s then
        (if num_validated s \<ge> sc_block_size s - min_validation_idx s then (Break, s)
         else (Continue, s))
      else if v < e then
        (let tx_idx = validation_idx s;
             s' = s\<lparr>validation_idx := usize_fetch_add tx_idx 1\<rparr>
         in if tx_idx < sc_block_size s then
              (let st = status (tx_at s' tx_idx) in
               if st = ReadyToExecute then
                 (Return (Execution (version_of s' tx_idx)), set_tx_status tx_idx Executing s')
               else if is_done st then (Return (Validation (version_of s' tx_idx)), s')
               else if st = Aborted then (Continue, s')
               else claim_execution s')
            else claim_execution s')
      else claim_execution s)"

definition next_task_iter :: "scheduler \<Rightarrow> iter_result \<times> scheduler" where
  "next_task_iter s = next_task_with (execution_idx s) (validation_idx s) s"

fun next_task :: "nat \<Rightarrow> scheduler \<Rightarrow> (task option \<times> scheduler) option" where
  "next_task 0 s = None"
| "next_task (Suc fuel) s =
     (if aborted s then Some (None, s)
      else case next_task_iter s of
             (Break, s') \<Rightarrow> Some (None, s')
           | (Continue, s') \<Rightarrow> next_task fuel s'
           | (Return t, s') \<Rightarrow> Some (Some t, s'))"

definition add_dependency :: "nat \<Rightarrow> nat \<Rightarrow> scheduler \<Rightarrow> bool \<times> scheduler" where
  "add_dependency tx_idx blocking_tx_idx s =
     (if is_done (status (tx_at s blocking_tx_idx)) then (False, s)
      else
        (let s' = set_tx_status tx_idx Aborted s in
         (True, s'\<lparr>tx_dependency := (tx_dependency s')
                    [blocking_tx_idx := index_mutex (tx_dependency s') blocking_tx_idx @ [tx_idx]]\<rparr>)))"

definition set_ready_status :: "nat \<Rightarrow> scheduler \<Rightarrow> scheduler" where
  "set_ready_status i s =
     s\<lparr>tx_statuses := (tx_statuses s)
         [i := \<lparr>incarnation = incarnation (tx_at s i) + 1, status = ReadyToExecute\<rparr>]\<rparr>"

definition resume_dependent :: "nat \<Rightarrow> scheduler \<Rightarrow> scheduler" where
  "resume_dependent i s =
     (let s' = set_ready_status i s in s'\<lparr>execution_idx := min (execution_idx s') i\<rparr>)"

definition resume_dependents :: "nat \<Rightarrow> scheduler \<Rightarrow> scheduler" where
  "resume_dependents tx_idx s =
     fold resume_dependent (index_mutex (tx_dependency s) tx_idx)
       (s\<lparr>tx_dependency := (tx_dependency s)[tx_idx := []]\<rparr>)"

definition lower_validation_idx :: "nat \<Rightarrow> scheduler \<Rightarrow> scheduler" where
  "lower_validation_idx i s = s\<lparr>validation_idx := min (validation_idx s) i\<rparr>"

definition count_validated :: "scheduler \<Rightarrow> scheduler" where
  "count_validated s = s\<lparr>num_validated := usize_fetch_add (num_validated s) 1\<rparr>"

text \<open>The tail of \<open>finish_execution\<close>, reached when no validation task is returned.\<close>

definition settle_execution :: "nat \<Rightarrow> finish_exec_flags \<Rightarrow> scheduler \<Rightarrow> task option \<times> scheduler" where
  "settle_execution tx_idx flags s =
     (if flags_contains flags NeedValidation then (None, set_tx_status tx_idx Executed s)
      else (None, count_validated (set_tx_status tx_idx Validated s)))"

definition finish_execution ::
    "tx_version \<Rightarrow> finish_exec_flags \<Rightarrow> scheduler \<Rightarrow> task option \<times> scheduler" where
  "finish_execution v flags s0 =
     (let tx_idx = tv_idx v;
          s1 = resume_dependents tx_idx s0;
          s2 = (if flags_contains flags NeedValidation
                then s1\<lparr>min_validation_idx := min (min_validation_idx s1) tx_idx\<rparr> else s1);
          min_idx = min_validation_idx s2
      in if min_idx < sc_block_size s2 then
           (if tx_idx < min_idx then
              settle_execution tx_idx flags
                (if flags_contains flags WroteNewLocation then lower_validation_idx min_idx s2
                 else s2)
            else if tx_idx < validation_idx s2 then
              (let s3 = (if flags_contains flags WroteNewLocation
                         then lower_validation_idx (tx_idx + 1) s2 else s2)
               in if flags_contains flags NeedValidation then
                    (Some (Validation v), set_tx_status tx_idx Executed s3)
                  else
                    settle_execution tx_idx flags
                      (count_validated (set_tx_status tx_idx Validated s3)))
            else settle_execution tx_idx flags s2)
         else settle_execution tx_idx flags s2)"

definition try_validation_abort :: "tx_version \<Rightarrow> scheduler \<Rightarrow> bool \<times> scheduler" where
  "try_validation_abort v s =
     (let st = status (tx_at s (tv_idx v));
          s' = (if st = Validated
                then s\<lparr>num_validated := usize_fetch_sub (num_validated s) 1\<rparr> else s)
      in if is_done st then (True, set_tx_status (tv_idx v) Aborted s') else (False, s'))"

text \<open>
  The two halves of \<open>finish_validation\<close> after a successful abort: the transaction is made
  ready and the higher transactions are scheduled for validation; then the transaction is
  taken for execution when the execution counter has passed it.
\<close>

definition reschedule_aborted :: "tx_version \<Rightarrow> scheduler \<Rightarrow> scheduler" where
  "reschedule_aborted v s = lower_validation_idx (tv_idx v + 1) (set_ready_status (tv_idx v) s)"

definition retake_aborted :: "tx_version \<Rightarrow> scheduler \<Rightarrow> task option \<times> scheduler" where
  "retake_aborted v s =
     (if execution_idx s > tv_idx v
      then (case try_execute (tv_idx v) s of (r, s') \<Rightarrow> (map_option Execution r, s'))
      else (None, s))"

definition mark_validated :: "tx_version \<Rightarrow> scheduler \<Rightarrow> scheduler" where
  "mark_validated v s =
     (if status (tx_at s (tv_idx v)) = Executed
      then count_validated (set_tx_status (tv_idx v) Validated s) else s)"

definition finish_validation :: "tx_version \<Rightarrow> bool \<Rightarrow> scheduler \<Rightarrow> task option \<times> scheduler" where
  "finish_validation v ab s =
     (if ab then retake_aborted v (reschedule_aborted v s) else (None, mark_validated v s))"

section \<open>Shape and frame lemmas\<close>

named_theorems sched_simps \<open>selectors of the scheduler after an operation\<close>

abbreviation st_of :: "scheduler \<Rightarrow> nat \<Rightarrow> incarnation_status" where
  "st_of s i \<equiv> status (tx_at s i)"

abbreviation inc_of :: "scheduler \<Rightarrow> nat \<Rightarrow> nat" where
  "inc_of s i \<equiv> incarnation (tx_at s i)"

abbreviation deps_of :: "scheduler \<Rightarrow> nat \<Rightarrow> nat list" where
  "deps_of s i \<equiv> tx_dependency s ! i"

text \<open>All per-transaction vectors have the size of the block.\<close>

definition sched_shape :: "scheduler \<Rightarrow> bool" where
  "sched_shape s \<longleftrightarrow> length (tx_statuses s) = sc_block_size s
     \<and> length (tx_dependency s) = sc_block_size s \<and> sc_block_size s < usize_modulus"

lemma is_done_simps [simp]:
  "is_done Executed" "is_done Validated" "\<not> is_done ReadyToExecute" "\<not> is_done Executing"
  "\<not> is_done Aborted"
  by (simp_all add: is_done_def)

lemma tx_at_frame [sched_simps]:
  "tx_at (s\<lparr>execution_idx := a\<rparr>) i = tx_at s i"
  "tx_at (s\<lparr>validation_idx := a\<rparr>) i = tx_at s i"
  "tx_at (s\<lparr>min_validation_idx := a\<rparr>) i = tx_at s i"
  "tx_at (s\<lparr>num_validated := a\<rparr>) i = tx_at s i"
  "tx_at (s\<lparr>tx_dependency := d\<rparr>) i = tx_at s i"
  "tx_at (s\<lparr>aborted := b\<rparr>) i = tx_at s i"
  by (simp_all add: tx_at_def)

lemma set_tx_status_frame [sched_simps]:
  "sc_block_size (set_tx_status i st s) = sc_block_size s"
  "tx_dependency (set_tx_status i st s) = tx_dependency s"
  "execution_idx (set_tx_status i st s) = execution_idx s"
  "validation_idx (set_tx_status i st s) = validation_idx s"
  "min_validation_idx (set_tx_status i st s) = min_validation_idx s"
  "num_validated (set_tx_status i st s) = num_validated s"
  "aborted (set_tx_status i st s) = aborted s"
  "length (tx_statuses (set_tx_status i st s)) = length (tx_statuses s)"
  by (simp_all add: set_tx_status_def)

lemma tx_at_set_tx_status [sched_simps]:
  "i < length (tx_statuses s) \<Longrightarrow>
   tx_at (set_tx_status i st s) j = (if j = i then (tx_at s i)\<lparr>status := st\<rparr> else tx_at s j)"
  by (simp add: tx_at_def set_tx_status_def index_mutex_def)

lemma set_ready_status_frame [sched_simps]:
  "sc_block_size (set_ready_status i s) = sc_block_size s"
  "tx_dependency (set_ready_status i s) = tx_dependency s"
  "execution_idx (set_ready_status i s) = execution_idx s"
  "validation_idx (set_ready_status i s) = validation_idx s"
  "min_validation_idx (set_ready_status i s) = min_validation_idx s"
  "num_validated (set_ready_status i s) = num_validated s"
  "aborted (set_ready_status i s) = aborted s"
  "length (tx_statuses (set_ready_status i s)) = length (tx_statuses s)"
  by (simp_all add: set_ready_status_def)

lemma tx_at_set_ready_status [sched_simps]:
  "i < length (tx_statuses s) \<Longrightarrow>
   tx_at (set_ready_status i s) j =
     (if j = i then \<lparr>incarnation = inc_of s i + 1, status = ReadyToExecute\<rparr> else tx_at s j)"
  by (simp add: tx_at_def set_ready_status_def index_mutex_def)

lemma lower_validation_idx_frame [sched_simps]:
  "sc_block_size (lower_validation_idx i s) = sc_block_size s"
  "tx_dependency (lower_validation_idx i s) = tx_dependency s"
  "execution_idx (lower_validation_idx i s) = execution_idx s"
  "min_validation_idx (lower_validation_idx i s) = min_validation_idx s"
  "num_validated (lower_validation_idx i s) = num_validated s"
  "aborted (lower_validation_idx i s) = aborted s"
  "tx_statuses (lower_validation_idx i s) = tx_statuses s"
  "tx_at (lower_validation_idx i s) j = tx_at s j"
  "validation_idx (lower_validation_idx i s) = min (validation_idx s) i"
  by (simp_all add: lower_validation_idx_def tx_at_def)

lemma count_validated_frame [sched_simps]:
  "sc_block_size (count_validated s) = sc_block_size s"
  "tx_dependency (count_validated s) = tx_dependency s"
  "execution_idx (count_validated s) = execution_idx s"
  "validation_idx (count_validated s) = validation_idx s"
  "min_validation_idx (count_validated s) = min_validation_idx s"
  "aborted (count_validated s) = aborted s"
  "tx_statuses (count_validated s) = tx_statuses s"
  "tx_at (count_validated s) j = tx_at s j"
  "num_validated (count_validated s) = usize_fetch_add (num_validated s) 1"
  by (simp_all add: count_validated_def tx_at_def)

lemma version_of_simps [simp]:
  "tv_idx (version_of s i) = i" "tv_incarnation (version_of s i) = inc_of s i"
  by (simp_all add: version_of_def)

subsection \<open>Resuming dependents\<close>

lemma resume_dependent_frame [sched_simps]:
  "sc_block_size (resume_dependent i s) = sc_block_size s"
  "tx_dependency (resume_dependent i s) = tx_dependency s"
  "validation_idx (resume_dependent i s) = validation_idx s"
  "min_validation_idx (resume_dependent i s) = min_validation_idx s"
  "num_validated (resume_dependent i s) = num_validated s"
  "aborted (resume_dependent i s) = aborted s"
  "length (tx_statuses (resume_dependent i s)) = length (tx_statuses s)"
  "execution_idx (resume_dependent i s) = min (execution_idx s) i"
  "tx_at (resume_dependent i s) j = tx_at (set_ready_status i s) j"
  by (simp_all add: resume_dependent_def Let_def sched_simps)

lemma fold_resume_frame [sched_simps]:
  "sc_block_size (fold resume_dependent ds s) = sc_block_size s"
  "tx_dependency (fold resume_dependent ds s) = tx_dependency s"
  "validation_idx (fold resume_dependent ds s) = validation_idx s"
  "min_validation_idx (fold resume_dependent ds s) = min_validation_idx s"
  "num_validated (fold resume_dependent ds s) = num_validated s"
  "aborted (fold resume_dependent ds s) = aborted s"
  "length (tx_statuses (fold resume_dependent ds s)) = length (tx_statuses s)"
  "execution_idx (fold resume_dependent ds s) = fold min ds (execution_idx s)"
  by (induction ds arbitrary: s) (simp_all add: sched_simps min.commute)

lemma tx_at_fold_resume:
  assumes "distinct ds" "\<forall>d \<in> set ds. d < length (tx_statuses s)"
  shows "tx_at (fold resume_dependent ds s) j =
    (if j \<in> set ds then \<lparr>incarnation = inc_of s j + 1, status = ReadyToExecute\<rparr> else tx_at s j)"
  using assms
  by (induction ds arbitrary: s) (auto simp: sched_simps)

lemma fold_min_le: "fold min ds (e::nat) \<le> e"
proof (induction ds arbitrary: e)
  case (Cons a ds)
  have "fold min ds (min a e) \<le> min a e" by (rule Cons.IH)
  then show ?case by simp
qed simp

lemma fold_min_le_mem: "d \<in> set ds \<Longrightarrow> fold min ds (e::nat) \<le> d"
proof (induction ds arbitrary: e)
  case (Cons a ds)
  then show ?case using fold_min_le[of ds "min a e"] by auto
qed simp

lemma resume_dependents_frame [sched_simps]:
  "sc_block_size (resume_dependents i s) = sc_block_size s"
  "tx_dependency (resume_dependents i s) = (tx_dependency s)[i := []]"
  "validation_idx (resume_dependents i s) = validation_idx s"
  "min_validation_idx (resume_dependents i s) = min_validation_idx s"
  "num_validated (resume_dependents i s) = num_validated s"
  "aborted (resume_dependents i s) = aborted s"
  "length (tx_statuses (resume_dependents i s)) = length (tx_statuses s)"
  "execution_idx (resume_dependents i s) = fold min (deps_of s i) (execution_idx s)"
  by (simp_all add: resume_dependents_def sched_simps index_mutex_def)

lemma tx_at_resume_dependents:
  assumes "distinct (deps_of s i)" "\<forall>d \<in> set (deps_of s i). d < length (tx_statuses s)"
  shows "tx_at (resume_dependents i s) j =
    (if j \<in> set (deps_of s i) then \<lparr>incarnation = inc_of s j + 1, status = ReadyToExecute\<rparr>
     else tx_at s j)"
  using assms by (simp add: resume_dependents_def index_mutex_def tx_at_fold_resume sched_simps)

section \<open>The operations, branch by branch\<close>

lemma try_execute_cases:
  obtains (taken) "i < sc_block_size s" "st_of s i = ReadyToExecute"
      "try_execute i s = (Some (version_of s i), set_tx_status i Executing s)"
    | (refused) "i < sc_block_size s \<Longrightarrow> st_of s i \<noteq> ReadyToExecute" "try_execute i s = (None, s)"
  by (cases "i < sc_block_size s \<and> st_of s i = ReadyToExecute")
    (auto simp: try_execute_def split: if_splits)

text \<open>
  The outcome of \<open>finish_execution\<close> on the counters and the status vector. Since every flag
  set contains \<open>NeedValidation\<close>, the transaction always ends \<open>Executed\<close> and the count of
  validated transactions is not touched.
\<close>

lemma finish_execution_shape:
  assumes fe: "finish_execution v flags s = (r, s')"
    and idx: "tv_idx v < length (tx_statuses s)"
    and deps: "distinct (deps_of s (tv_idx v))"
      "\<forall>d \<in> set (deps_of s (tv_idx v)). d < length (tx_statuses s)"
      "tv_idx v \<notin> set (deps_of s (tv_idx v))"
  shows "tx_at s' j =
      (if j = tv_idx v then (tx_at s j)\<lparr>status := Executed\<rparr>
       else if j \<in> set (deps_of s (tv_idx v))
       then \<lparr>incarnation = inc_of s j + 1, status = ReadyToExecute\<rparr> else tx_at s j)"
    and "tx_dependency s' = (tx_dependency s)[tv_idx v := []]"
    and "execution_idx s' = fold min (deps_of s (tv_idx v)) (execution_idx s)"
    and "num_validated s' = num_validated s"
    and "min_validation_idx s' = min (min_validation_idx s) (tv_idx v)"
    and "sc_block_size s' = sc_block_size s"
    and "aborted s' = aborted s"
    and "length (tx_statuses s') = length (tx_statuses s)"
    and "r = None \<or> r = Some (Validation v)"
  using fe idx deps
  by (auto simp: finish_execution_def settle_execution_def Let_def sched_simps
      tx_at_resume_dependents split: if_splits)

lemma finish_execution_validation_idx:
  assumes "finish_execution v flags s = (r, s')"
  shows "validation_idx s' \<le> validation_idx s"
    and "r = None \<Longrightarrow> tv_idx v < sc_block_size s \<Longrightarrow> validation_idx s \<le> tv_idx v"
  using assms
  by (auto simp: finish_execution_def settle_execution_def Let_def sched_simps split: if_splits)

text \<open>A new location makes every higher transaction subject to validation again.\<close>

lemma finish_execution_revalidates:
  assumes "finish_execution v flags s = (r, s')" "flags_contains flags WroteNewLocation"
    "tv_idx v < sc_block_size s"
  shows "validation_idx s' \<le> tv_idx v + 1"
  using assms
  by (auto simp: finish_execution_def settle_execution_def Let_def sched_simps split: if_splits)

lemma next_task_with_execution:
  assumes "next_task_with e v s = (Return (Execution ver), s')"
  shows "tv_idx ver < sc_block_size s" "st_of s (tv_idx ver) = ReadyToExecute"
    "tv_incarnation ver = inc_of s (tv_idx ver)"
    "tx_statuses s' = (tx_statuses s)[tv_idx ver := (tx_at s (tv_idx ver))\<lparr>status := Executing\<rparr>]"
  using assms
  by (auto simp: next_task_with_def claim_execution_def Let_def try_execute_def set_tx_status_def
      sched_simps version_of_def split: if_splits prod.splits option.splits)

lemma next_task_with_validation:
  assumes "next_task_with e v s = (Return (Validation ver), s')"
  shows "tv_idx ver < sc_block_size s" "is_done (st_of s (tv_idx ver))"
    "tv_incarnation ver = inc_of s (tv_idx ver)" "tx_statuses s' = tx_statuses s"
  using assms
  by (auto simp: next_task_with_def claim_execution_def Let_def try_execute_def set_tx_status_def
      sched_simps version_of_def split: if_splits prod.splits option.splits)

section \<open>Properties\<close>



end
