(* ===== verification/Scheduler_Steps.thy ===== *)
theory Scheduler_Steps
  imports Scheduler
begin

text \<open>
  The worker threads of \<open>ParallelExecutor::execute\<close> running against one scheduler
  (\<open>crates/pe/src/executor.rs\<close>, the \<open>thread::scope\<close> loop with \<open>try_execute\<close> and
  \<open>try_validate\<close>), as a step relation. A thread is described by its program point \<open>pc\<close>; a
  step is one critical section or one atomic update of one thread, and any thread may step
  next. What the virtual machine and the validation return is not determined here, so every
  outcome is a possible step: the theorems hold whatever the transactions do.

  Granularity. \<open>next_task\<close> is cut into its atomic increments and the locked look-ups that
  follow them, and the comparisons made on the loaded counters are not used as guards: a
  thread may act on any stale value. The two halves of \<open>finish_validation\<close> and the call of
  \<open>try_validation_abort\<close> before it are separate steps. \<open>finish_execution\<close> and
  \<open>add_dependency\<close> hold the lock of the transaction from beginning to end and are one step.
  Atomic operations and critical sections are interleaved sequentially consistently.

  A thread leaves when \<open>next_task\<close> breaks out of its loop. It has then loaded the counters one
  after the other and does nothing more; its step is placed at the first of these loads. The
  last thread to take that step therefore reads the final counters and must see the exit
  condition hold, while the other threads are allowed to leave on any stale values.

  The invariant \<open>sys_inv\<close> gives: indices are in range, an executing transaction belongs to
  exactly one thread, an aborted transaction is either held by the thread that aborted it or
  registered exactly once as a dependent of an unfinished lower transaction, a ready
  transaction will be picked up, the counter of validated transactions is exact, and when all
  threads have left every transaction is validated.
\<close>

section \<open>The system\<close>

datatype pc =
    Idle
  | ClaimV nat
  | ClaimE nat
  | Busy task
  | Settling tx_version
  | Aborting tx_version
  | Requeue tx_version
  | Exited

record sys =
  sched :: scheduler
  pcs :: "nat \<Rightarrow> pc"
  finished :: "tx_version set"

definition sys_init :: "nat \<Rightarrow> nat \<Rightarrow> sys" where
  "sys_init n k =
     \<lparr>sched = scheduler_new n, pcs = (\<lambda>t. if t < k then Idle else Exited), finished = {}\<rparr>"

text \<open>Where a thread continues with the result of an operation that may return a task.\<close>

definition pc_of_task :: "task option \<Rightarrow> pc" where
  "pc_of_task r = (case r of None \<Rightarrow> Idle | Some t \<Rightarrow> Busy t)"

text \<open>The locked part of \<open>next_task\<close> after \<open>validation_idx\<close> has been incremented.\<close>

definition look_at_claim :: "nat \<Rightarrow> scheduler \<Rightarrow> pc \<times> scheduler" where
  "look_at_claim i s =
     (if i < sc_block_size s then
        (if st_of s i = ReadyToExecute then
           (Busy (Execution (version_of s i)), set_tx_status i Executing s)
         else if is_done (st_of s i) then (Busy (Validation (version_of s i)), s)
         else (Idle, s))
      else (Idle, s))"

definition exit_condition :: "scheduler \<Rightarrow> bool" where
  "exit_condition s \<longleftrightarrow> execution_idx s \<ge> sc_block_size s \<and> validation_idx s \<ge> sc_block_size s
     \<and> num_validated s \<ge> sc_block_size s - min_validation_idx s"

inductive worker_step :: "sys \<Rightarrow> sys \<Rightarrow> bool" where
  claim_validation:
    "\<lbrakk>\<not> aborted (sched S); pcs S t = Idle\<rbrakk> \<Longrightarrow>
     worker_step S (S\<lparr>sched := (sched S)
         \<lparr>validation_idx := usize_fetch_add (validation_idx (sched S)) 1\<rparr>,
       pcs := (pcs S)(t := ClaimV (validation_idx (sched S)))\<rparr>)"
| take_validation:
    "\<lbrakk>\<not> aborted (sched S); pcs S t = ClaimV i; look_at_claim i (sched S) = (p, s')\<rbrakk> \<Longrightarrow>
     worker_step S (S\<lparr>sched := s', pcs := (pcs S)(t := p)\<rparr>)"
| claim_execution_idx:
    "\<lbrakk>\<not> aborted (sched S); pcs S t = Idle\<rbrakk> \<Longrightarrow>
     worker_step S (S\<lparr>sched := (sched S)
         \<lparr>execution_idx := usize_fetch_add (execution_idx (sched S)) 1\<rparr>,
       pcs := (pcs S)(t := ClaimE (execution_idx (sched S)))\<rparr>)"
| take_execution:
    "\<lbrakk>\<not> aborted (sched S); pcs S t = ClaimE i; try_execute i (sched S) = (r, s')\<rbrakk> \<Longrightarrow>
     worker_step S (S\<lparr>sched := s', pcs := (pcs S)(t := pc_of_task (map_option Execution r))\<rparr>)"
| execution_blocked:
    "\<lbrakk>\<not> aborted (sched S); pcs S t = Busy (Execution v); b < tv_idx v;
      add_dependency (tv_idx v) b (sched S) = (True, s')\<rbrakk> \<Longrightarrow>
     worker_step S (S\<lparr>sched := s', pcs := (pcs S)(t := Idle)\<rparr>)"
| execution_fatal:
    "\<lbrakk>\<not> aborted (sched S); pcs S t = Busy (Execution v)\<rbrakk> \<Longrightarrow>
     worker_step S (S\<lparr>sched := sched_abort (sched S), pcs := (pcs S)(t := Exited)\<rparr>)"
| execution_finished:
    "\<lbrakk>\<not> aborted (sched S); pcs S t = Busy (Execution v);
      finish_execution v flags (sched S) = (r, s')\<rbrakk> \<Longrightarrow>
     worker_step S (S\<lparr>sched := s', pcs := (pcs S)(t := pc_of_task r),
       finished := insert v (finished S)\<rparr>)"
| validation_passed:
    "\<lbrakk>\<not> aborted (sched S); pcs S t = Busy (Validation v)\<rbrakk> \<Longrightarrow>
     worker_step S (S\<lparr>pcs := (pcs S)(t := Settling v)\<rparr>)"
| validation_failed:
    "\<lbrakk>\<not> aborted (sched S); pcs S t = Busy (Validation v);
      try_validation_abort v (sched S) = (ab, s')\<rbrakk> \<Longrightarrow>
     worker_step S (S\<lparr>sched := s',
       pcs := (pcs S)(t := if ab then Aborting v else Settling v)\<rparr>)"
| validation_settled:
    "\<lbrakk>\<not> aborted (sched S); pcs S t = Settling v\<rbrakk> \<Longrightarrow>
     worker_step S (S\<lparr>sched := mark_validated v (sched S), pcs := (pcs S)(t := Idle)\<rparr>)"
| abort_rescheduled:
    "\<lbrakk>\<not> aborted (sched S); pcs S t = Aborting v\<rbrakk> \<Longrightarrow>
     worker_step S (S\<lparr>sched := reschedule_aborted v (sched S), pcs := (pcs S)(t := Requeue v)\<rparr>)"
| abort_retaken:
    "\<lbrakk>\<not> aborted (sched S); pcs S t = Requeue v; retake_aborted v (sched S) = (r, s')\<rbrakk> \<Longrightarrow>
     worker_step S (S\<lparr>sched := s', pcs := (pcs S)(t := pc_of_task r)\<rparr>)"
| worker_leaves:
    "\<lbrakk>\<not> aborted (sched S); pcs S t = Idle;
      exit_condition (sched S) \<or> (\<exists>t'. t' \<noteq> t \<and> pcs S t' \<noteq> Exited)\<rbrakk> \<Longrightarrow>
     worker_step S (S\<lparr>pcs := (pcs S)(t := Exited)\<rparr>)"
| worker_stops:
    "\<lbrakk>aborted (sched S)\<rbrakk> \<Longrightarrow> worker_step S (S\<lparr>pcs := (pcs S)(t := Exited)\<rparr>)"

inductive reachable :: "nat \<Rightarrow> nat \<Rightarrow> sys \<Rightarrow> bool" for n k where
  start: "reachable n k (sys_init n k)"
| step: "reachable n k S \<Longrightarrow> worker_step S S' \<Longrightarrow> reachable n k S'"

section \<open>Runs by named events\<close>

text \<open>
  The same steps as an executable function on event names, so that concrete runs can be
  evaluated. An event is a step of a given thread together with the outcome of the virtual
  machine or of the validation.
\<close>

datatype event =
    ClaimValidation nat
  | TakeValidation nat
  | ClaimExecution nat
  | TakeExecution nat
  | Blocked nat nat
  | Finished nat finish_exec_flags
  | Passed nat
  | Failed nat
  | Settled nat
  | Rescheduled nat
  | Retaken nat
  | Leaves nat

fun event_step :: "event \<Rightarrow> scheduler \<Rightarrow> (nat \<Rightarrow> pc) \<Rightarrow> tx_version set
    \<Rightarrow> (scheduler \<times> (nat \<Rightarrow> pc) \<times> tx_version set) option" where
  "event_step (ClaimValidation t) s P F =
     (case P t of Idle \<Rightarrow> Some (s\<lparr>validation_idx := usize_fetch_add (validation_idx s) 1\<rparr>,
        P(t := ClaimV (validation_idx s)), F) | _ \<Rightarrow> None)"
| "event_step (TakeValidation t) s P F =
     (case P t of ClaimV i \<Rightarrow> (case look_at_claim i s of (p, s') \<Rightarrow> Some (s', P(t := p), F))
      | _ \<Rightarrow> None)"
| "event_step (ClaimExecution t) s P F =
     (case P t of Idle \<Rightarrow> Some (s\<lparr>execution_idx := usize_fetch_add (execution_idx s) 1\<rparr>,
        P(t := ClaimE (execution_idx s)), F) | _ \<Rightarrow> None)"
| "event_step (TakeExecution t) s P F =
     (case P t of ClaimE i \<Rightarrow> (case try_execute i s of (r, s') \<Rightarrow>
        Some (s', P(t := pc_of_task (map_option Execution r)), F)) | _ \<Rightarrow> None)"
| "event_step (Blocked t b) s P F =
     (case P t of Busy (Execution v) \<Rightarrow>
        (if b < tv_idx v then (case add_dependency (tv_idx v) b s of
           (True, s') \<Rightarrow> Some (s', P(t := Idle), F) | (False, s') \<Rightarrow> None) else None)
      | _ \<Rightarrow> None)"
| "event_step (Finished t flags) s P F =
     (case P t of Busy (Execution v) \<Rightarrow> (case finish_execution v flags s of (r, s') \<Rightarrow>
        Some (s', P(t := pc_of_task r), insert v F)) | _ \<Rightarrow> None)"
| "event_step (Passed t) s P F =
     (case P t of Busy (Validation v) \<Rightarrow> Some (s, P(t := Settling v), F) | _ \<Rightarrow> None)"
| "event_step (Failed t) s P F =
     (case P t of Busy (Validation v) \<Rightarrow> (case try_validation_abort v s of (ab, s') \<Rightarrow>
        Some (s', P(t := if ab then Aborting v else Settling v), F)) | _ \<Rightarrow> None)"
| "event_step (Settled t) s P F =
     (case P t of Settling v \<Rightarrow> Some (mark_validated v s, P(t := Idle), F) | _ \<Rightarrow> None)"
| "event_step (Rescheduled t) s P F =
     (case P t of Aborting v \<Rightarrow> Some (reschedule_aborted v s, P(t := Requeue v), F) | _ \<Rightarrow> None)"
| "event_step (Retaken t) s P F =
     (case P t of Requeue v \<Rightarrow> (case retake_aborted v s of (r, s') \<Rightarrow>
        Some (s', P(t := pc_of_task r), F)) | _ \<Rightarrow> None)"
| "event_step (Leaves t) s P F =
     (case P t of Idle \<Rightarrow> (if exit_condition s then Some (s, P(t := Exited), F) else None)
      | _ \<Rightarrow> None)"

fun run_events :: "event list \<Rightarrow> scheduler \<Rightarrow> (nat \<Rightarrow> pc) \<Rightarrow> tx_version set
    \<Rightarrow> (scheduler \<times> (nat \<Rightarrow> pc) \<times> tx_version set) option" where
  "run_events [] s P F = Some (s, P, F)"
| "run_events (e # es) s P F =
     (if aborted s then None
      else case event_step e s P F of
             None \<Rightarrow> None
           | Some (s', P', F') \<Rightarrow> run_events es s' P' F')"

definition mk_sys :: "scheduler \<Rightarrow> (nat \<Rightarrow> pc) \<Rightarrow> tx_version set \<Rightarrow> sys" where
  "mk_sys s P F = \<lparr>sched = s, pcs = P, finished = F\<rparr>"

section \<open>The invariant\<close>

text \<open>The transaction a thread owns: the one it executes, or the one it has just aborted.\<close>

fun owned :: "pc \<Rightarrow> nat option" where
  "owned (Busy (Execution v)) = Some (tv_idx v)"
| "owned (Aborting v) = Some (tv_idx v)"
| "owned _ = None"

definition waiting :: "scheduler \<Rightarrow> nat \<Rightarrow> bool" where
  "waiting s i \<longleftrightarrow> (\<exists>b < sc_block_size s. i \<in> set (deps_of s b))"

fun pc_ok :: "scheduler \<Rightarrow> pc \<Rightarrow> bool" where
  "pc_ok s (Busy (Execution v)) \<longleftrightarrow> tv_idx v < sc_block_size s
     \<and> tx_at s (tv_idx v) = \<lparr>incarnation = tv_incarnation v, status = Executing\<rparr>"
| "pc_ok s (Busy (Validation v)) \<longleftrightarrow> tv_idx v < sc_block_size s"
| "pc_ok s (Settling v) \<longleftrightarrow> tv_idx v < sc_block_size s"
| "pc_ok s (Aborting v) \<longleftrightarrow> tv_idx v < sc_block_size s \<and> st_of s (tv_idx v) = Aborted
     \<and> \<not> waiting s (tv_idx v)"
| "pc_ok s (Requeue v) \<longleftrightarrow> tv_idx v < sc_block_size s"
| "pc_ok s _ \<longleftrightarrow> True"

definition covered :: "scheduler \<Rightarrow> (nat \<Rightarrow> pc) \<Rightarrow> nat \<Rightarrow> bool" where
  "covered s P i \<longleftrightarrow> execution_idx s \<le> i \<or> (\<exists>t. P t = ClaimE i)
     \<or> (\<exists>t v. P t = Requeue v \<and> tv_idx v = i)"

definition inv_pcs :: "scheduler \<Rightarrow> (nat \<Rightarrow> pc) \<Rightarrow> bool" where
  "inv_pcs s P \<longleftrightarrow> (\<forall>t. pc_ok s (P t))
     \<and> (\<forall>t t' i. owned (P t) = Some i \<longrightarrow> owned (P t') = Some i \<longrightarrow> t = t')"

definition held :: "(nat \<Rightarrow> pc) \<Rightarrow> nat \<Rightarrow> bool" where
  "held P i \<longleftrightarrow> (\<exists>t. owned (P t) = Some i)"

definition inv_owned :: "scheduler \<Rightarrow> (nat \<Rightarrow> pc) \<Rightarrow> bool" where
  "inv_owned s P \<longleftrightarrow> (\<forall>i < sc_block_size s.
     (st_of s i = Executing \<longrightarrow> held P i)
     \<and> (st_of s i = Aborted \<longrightarrow> waiting s i \<or> held P i)
     \<and> (st_of s i = ReadyToExecute \<longrightarrow> covered s P i))"

definition inv_deps :: "scheduler \<Rightarrow> bool" where
  "inv_deps s \<longleftrightarrow> distinct (concat (tx_dependency s))
     \<and> (\<forall>b < sc_block_size s. \<forall>i \<in> set (deps_of s b).
          b < i \<and> i < sc_block_size s \<and> st_of s i = Aborted \<and> \<not> is_done (st_of s b))"

definition inv_counts :: "scheduler \<Rightarrow> bool" where
  "inv_counts s \<longleftrightarrow>
     num_validated s = card {i. i < sc_block_size s \<and> st_of s i = Validated}
     \<and> min_validation_idx s \<le> sc_block_size s
     \<and> (\<forall>i < sc_block_size s. is_done (st_of s i) \<longrightarrow> min_validation_idx s \<le> i)"

definition inv_finished :: "scheduler \<Rightarrow> tx_version set \<Rightarrow> bool" where
  "inv_finished s F \<longleftrightarrow> (\<forall>v \<in> F. tv_idx v < sc_block_size s
     \<and> (tv_incarnation v < inc_of s (tv_idx v)
        \<or> tv_incarnation v = inc_of s (tv_idx v)
          \<and> st_of s (tv_idx v) \<noteq> Executing \<and> st_of s (tv_idx v) \<noteq> ReadyToExecute))"

definition inv_quiet :: "scheduler \<Rightarrow> (nat \<Rightarrow> pc) \<Rightarrow> bool" where
  "inv_quiet s P \<longleftrightarrow> (\<forall>t. P t = Exited) \<longrightarrow> (\<forall>i < sc_block_size s. st_of s i = Validated)"

definition inv_sched :: "scheduler \<Rightarrow> (nat \<Rightarrow> pc) \<Rightarrow> tx_version set \<Rightarrow> bool" where
  "inv_sched s P F \<longleftrightarrow> sched_shape s \<and> inv_pcs s P \<and> inv_owned s P \<and> inv_deps s
     \<and> inv_counts s \<and> inv_finished s F"

definition sys_inv :: "nat \<Rightarrow> sys \<Rightarrow> bool" where
  "sys_inv n S \<longleftrightarrow> sc_block_size (sched S) = n
     \<and> (\<not> aborted (sched S) \<longrightarrow>
          inv_sched (sched S) (pcs S) (finished S) \<and> inv_quiet (sched S) (pcs S))"

lemmas inv_defs = inv_sched_def inv_pcs_def inv_owned_def inv_deps_def inv_counts_def
  inv_finished_def

section \<open>Preservation\<close>

lemma pc_ok_transfer:
  assumes "pc_ok s q" "sc_block_size s' = sc_block_size s"
    and "\<And>j. owned q = Some j \<Longrightarrow> tx_at s' j = tx_at s j \<and> (waiting s' j \<longrightarrow> waiting s j)"
  shows "pc_ok s' q"
  using assms by (cases "(s, q)" rule: pc_ok.cases) auto

lemma inv_pcs_update:
  assumes "inv_pcs s P" "sc_block_size s' = sc_block_size s" "pc_ok s' p"
    and "\<And>t' j. t' \<noteq> t \<Longrightarrow> owned (P t') = Some j \<Longrightarrow>
          tx_at s' j = tx_at s j \<and> (waiting s' j \<longrightarrow> waiting s j) \<and> owned p \<noteq> Some j"
  shows "inv_pcs s' (P(t := p))"
proof -
  have "pc_ok s' ((P(t := p)) t')" for t'
  proof (cases "t' = t")
    case False
    have "pc_ok s (P t')" using assms(1) by (simp add: inv_pcs_def)
    then have "pc_ok s' (P t')"
      by (rule pc_ok_transfer) (use assms(2,4) False in blast)+
    with False show ?thesis by simp
  qed (simp add: assms(3))
  moreover have "t1 = t2" if "owned ((P(t := p)) t1) = Some i" "owned ((P(t := p)) t2) = Some i"
    for t1 t2 i
  proof -
    consider (one) "t1 = t" "t2 \<noteq> t" | (two) "t1 \<noteq> t" "t2 = t" | (eq) "t1 = t" "t2 = t"
      | (none) "t1 \<noteq> t" "t2 \<noteq> t" by blast
    then show ?thesis
    proof cases
      case one then show ?thesis using that assms(4)[of t2 i] by simp
    next
      case two then show ?thesis using that assms(4)[of t1 i] by simp
    next
      case none
      then have "owned (P t1) = Some i" "owned (P t2) = Some i" using that by simp_all
      then show ?thesis using assms(1) unfolding inv_pcs_def by blast
    qed simp
  qed
  ultimately show ?thesis unfolding inv_pcs_def by blast
qed

lemma held_other: "held P i \<Longrightarrow> owned (P t) \<noteq> Some i \<Longrightarrow> held (P(t := p)) i"
  unfolding held_def by (metis fun_upd_other)

lemma held_here: "owned p = Some i \<Longrightarrow> held (P(t := p)) i"
  unfolding held_def by (metis fun_upd_same)

lemma inv_ownedI:
  assumes "\<And>i. i < sc_block_size s \<Longrightarrow> st_of s i = Executing \<Longrightarrow> held P i"
    and "\<And>i. i < sc_block_size s \<Longrightarrow> st_of s i = Aborted \<Longrightarrow> waiting s i \<or> held P i"
    and "\<And>i. i < sc_block_size s \<Longrightarrow> st_of s i = ReadyToExecute \<Longrightarrow> covered s P i"
  shows "inv_owned s P"
  using assms by (simp add: inv_owned_def)

lemma inv_depsD:
  assumes "inv_deps s" "b < sc_block_size s" "i \<in> set (deps_of s b)"
  shows "b < i" "i < sc_block_size s" "st_of s i = Aborted" "\<not> is_done (st_of s b)"
  using assms unfolding inv_deps_def by blast+

lemma inv_deps_distinct: "inv_deps s \<Longrightarrow> distinct (concat (tx_dependency s))"
  unfolding inv_deps_def by blast

lemma inv_depsI:
  assumes "distinct (concat (tx_dependency s))"
    and "\<And>b i. b < sc_block_size s \<Longrightarrow> i \<in> set (deps_of s b) \<Longrightarrow>
      b < i \<and> i < sc_block_size s \<and> st_of s i = Aborted \<and> \<not> is_done (st_of s b)"
  shows "inv_deps s"
  using assms unfolding inv_deps_def by blast

lemma owned_status:
  assumes "inv_pcs s P" "owned (P t) = Some i"
  shows "i < sc_block_size s \<and> (st_of s i = Executing \<or> st_of s i = Aborted \<and> \<not> waiting s i)"
proof -
  have "pc_ok s (P t)" using assms(1) by (simp add: inv_pcs_def)
  then show ?thesis using assms(2) by (cases "P t" rule: owned.cases) auto
qed

lemma tx_at_cong: "tx_statuses s' = tx_statuses s \<Longrightarrow> tx_at s' i = tx_at s i"
  by (simp add: tx_at_def)

lemma waiting_cong:
  "tx_dependency s' = tx_dependency s \<Longrightarrow> sc_block_size s' = sc_block_size s \<Longrightarrow>
   waiting s' i = waiting s i"
  by (simp add: waiting_def)

text \<open>Steps that change counters and the program point only.\<close>

lemma inv_frame:
  assumes inv: "inv_sched s P F"
    and same: "tx_statuses s' = tx_statuses s" "tx_dependency s' = tx_dependency s"
      "sc_block_size s' = sc_block_size s" "num_validated s' = num_validated s"
      "min_validation_idx s' = min_validation_idx s"
    and own: "owned (P t) = None" "owned p = None" "pc_ok s p"
    and cov: "\<And>i. i < sc_block_size s \<Longrightarrow> st_of s i = ReadyToExecute \<Longrightarrow> covered s P i \<Longrightarrow>
      covered s' (P(t := p)) i"
  shows "inv_sched s' (P(t := p)) F"
proof -
  note tx = tx_at_cong[OF same(1)] and w = waiting_cong[OF same(2,3)]
  have "inv_pcs s' (P(t := p))"
  proof (rule inv_pcs_update)
    show "inv_pcs s P" using inv by (simp add: inv_sched_def)
    show "pc_ok s' p" by (rule pc_ok_transfer[OF own(3) same(3)]) (simp add: own)
    show "tx_at s' j = tx_at s j \<and> (waiting s' j \<longrightarrow> waiting s j) \<and> owned p \<noteq> Some j" for j
      by (simp add: tx w own)
  qed (rule same(3))
  moreover have "inv_owned s' (P(t := p))"
  proof -
    have "held P i \<Longrightarrow> held (P(t := p)) i" for i
      using own(1) by (simp add: held_other)
    then show ?thesis
      using inv cov unfolding inv_sched_def inv_owned_def same(3) tx w by blast
  qed
  moreover have "sched_shape s'" "inv_deps s'" "inv_counts s'" "inv_finished s' F"
    using inv unfolding inv_sched_def sched_shape_def inv_deps_def inv_counts_def inv_finished_def
      same tx by blast+
  ultimately show ?thesis by (simp add: inv_sched_def)
qed

text \<open>A ready transaction is taken for execution.\<close>

lemma inv_take:
  assumes inv: "inv_sched s P F"
    and i: "i < sc_block_size s" "st_of s i = ReadyToExecute"
    and own: "owned (P t) = None"
    and other: "\<And>j. j \<noteq> i \<Longrightarrow> P t \<noteq> ClaimE j" "\<And>v. tv_idx v \<noteq> i \<Longrightarrow> P t \<noteq> Requeue v"
  shows "inv_sched (set_tx_status i Executing s) (P(t := Busy (Execution (version_of s i)))) F"
    (is "inv_sched ?s ?P F")
proof -
  note parts = inv[unfolded inv_sched_def]
  have len: "i < length (tx_statuses s)" using parts i by (simp add: sched_shape_def)
  have tx: "tx_at ?s j = (if j = i then (tx_at s i)\<lparr>status := Executing\<rparr> else tx_at s j)" for j
    using len by (simp add: sched_simps)
  have w: "waiting ?s j = waiting s j" for j by (simp add: waiting_def sched_simps)
  have "inv_pcs ?s ?P"
  proof (rule inv_pcs_update)
    show P: "inv_pcs s P" using parts by simp
    show "tx_at ?s j = tx_at s j \<and> (waiting ?s j \<longrightarrow> waiting s j)
        \<and> owned (Busy (Execution (version_of s i))) \<noteq> Some j"
      if "owned (P t') = Some j" for t' j
      using owned_status[OF P that] i by (auto simp: tx w)
  qed (simp_all add: sched_simps tx i)
  moreover have "inv_owned ?s ?P"
  proof -
    have cov: "covered ?s ?P j" if "covered s P j" "j \<noteq> i" for j
    proof -
      have "execution_idx ?s = execution_idx s" by (simp add: sched_simps)
      moreover have "(?P t' = ClaimE j) = (P t' = ClaimE j)" for t'
        using other(1) that(2) by auto
      moreover have "(?P t' = Requeue v \<and> tv_idx v = j) = (P t' = Requeue v \<and> tv_idx v = j)" for t' v
        using other(2) that(2) by auto
      ultimately show ?thesis using that(1) unfolding covered_def by presburger
    qed
    have keep: "held P j \<Longrightarrow> held ?P j" for j
      using own by (simp add: held_other)
    have old: "inv_owned s P" using parts by simp
    show ?thesis
    proof (rule inv_ownedI)
      fix j assume j: "j < sc_block_size ?s"
      then have j': "j < sc_block_size s" by (simp add: sched_simps)
      show "held ?P j" if "st_of ?s j = Executing"
      proof (cases "j = i")
        case False
        with that have "st_of s j = Executing" by (simp add: tx)
        then show ?thesis using old j' keep by (simp add: inv_owned_def)
      qed (simp add: held_here)
      show "waiting ?s j \<or> held ?P j" if "st_of ?s j = Aborted"
      proof -
        have "st_of s j = Aborted" using that by (simp add: tx split: if_splits)
        then have "waiting s j \<or> held P j" using old j' by (simp add: inv_owned_def)
        then show ?thesis using keep unfolding w by blast
      qed
      show "covered ?s ?P j" if "st_of ?s j = ReadyToExecute"
      proof -
        have "j \<noteq> i" "st_of s j = ReadyToExecute" using that by (simp_all add: tx split: if_splits)
        then show ?thesis using old j' cov by (simp add: inv_owned_def)
      qed
    qed
  qed
  moreover have "inv_deps ?s"
  proof (rule inv_depsI)
    show "distinct (concat (tx_dependency ?s))"
      using parts by (simp add: inv_deps_distinct sched_simps)
    fix b j assume "b < sc_block_size ?s" "j \<in> set (deps_of ?s b)"
    then have "b < sc_block_size s" "j \<in> set (deps_of s b)" by (simp_all add: sched_simps)
    with parts inv_depsD[of s b j] i
    show "b < j \<and> j < sc_block_size ?s \<and> st_of ?s j = Aborted \<and> \<not> is_done (st_of ?s b)"
      by (cases "j = i"; cases "b = i") (simp_all add: tx sched_simps)
  qed
  moreover have "{j. j < sc_block_size ?s \<and> st_of ?s j = Validated}
      = {j. j < sc_block_size s \<and> st_of s j = Validated}"
    using i by (auto simp: tx sched_simps)
  then have "inv_counts ?s"
    using parts i unfolding inv_counts_def by (simp add: tx sched_simps)
  moreover have "inv_finished ?s F"
    using parts i unfolding inv_finished_def by (auto simp: tx sched_simps)
  moreover have "sched_shape ?s"
    using parts by (simp add: sched_shape_def sched_simps)
  ultimately show ?thesis by (simp add: inv_sched_def)
qed

subsection \<open>Dependency lists\<close>

lemma distinct_concat_append:
  assumes "b < length xs" "distinct (concat xs)" "i \<notin> set (concat xs)"
  shows "distinct (concat (xs[b := xs ! b @ [i]]))"
  using assms(2,3) unfolding concat_update_split[OF assms(1)] concat_split[OF assms(1)] by auto

lemma distinct_concat_clear:
  assumes "b < length xs" "distinct (concat xs)"
  shows "distinct (concat (xs[b := []]))"
  using assms(2) unfolding concat_update_split[OF assms(1)] concat_split[OF assms(1)] by auto

lemma distinct_concat_disjoint:
  assumes "a < b" "b < length xs" "distinct (concat xs)" "i \<in> set (xs ! a)"
  shows "i \<notin> set (xs ! b)"
proof -
  have "take b xs ! a \<in> set (take b xs)" using assms(1,2) by (intro nth_mem) simp
  then have "i \<in> set (concat (take b xs))" using assms(1,4) by auto
  then show ?thesis
    using assms(3) unfolding concat_split[OF assms(2)] by auto
qed

lemma waiting_concat: "sched_shape s \<Longrightarrow> waiting s i \<longleftrightarrow> i \<in> set (concat (tx_dependency s))"
  by (simp add: waiting_def sched_shape_def set_conv_nth[of "tx_dependency s"]) blast

lemma distinct_concat_nth:
  assumes "b < length xs" "distinct (concat xs)"
  shows "distinct (xs ! b)"
  using assms(2) unfolding concat_split[OF assms(1)] by simp

lemma deps_distinct:
  "sched_shape s \<Longrightarrow> inv_deps s \<Longrightarrow> b < sc_block_size s \<Longrightarrow> distinct (deps_of s b)"
  by (simp add: inv_deps_distinct sched_shape_def distinct_concat_nth)

subsection \<open>A blocked execution\<close>

lemma inv_block:
  assumes inv: "inv_sched s P F" and own: "P t = Busy (Execution v)" and b: "b < tv_idx v"
    and ad: "add_dependency (tv_idx v) b s = (True, s')"
  shows "inv_sched s' (P(t := Idle)) F"
proof -
  let ?i = "tv_idx v"
  note parts = inv[unfolded inv_sched_def]
  have ok: "?i < sc_block_size s" "tx_at s ?i = \<lparr>incarnation = tv_incarnation v, status = Executing\<rparr>"
    using parts own unfolding inv_pcs_def by (metis pc_ok.simps(1))+
  have nd: "\<not> is_done (st_of s b)" using ad by (auto simp: add_dependency_def split: if_splits)
  have len: "?i < length (tx_statuses s)" "b < length (tx_dependency s)"
    using parts ok b by (simp_all add: sched_shape_def)
  have s': "s' = (set_tx_status ?i Aborted s)
      \<lparr>tx_dependency := (tx_dependency s)[b := deps_of s b @ [?i]]\<rparr>"
    using ad nd by (simp add: add_dependency_def Let_def sched_simps index_mutex_def)
  have tx: "tx_at s' j = (if j = ?i then (tx_at s ?i)\<lparr>status := Aborted\<rparr> else tx_at s j)" for j
    using len by (simp add: s' sched_simps)
  have fr: "sc_block_size s' = sc_block_size s" "execution_idx s' = execution_idx s"
      "num_validated s' = num_validated s" "min_validation_idx s' = min_validation_idx s"
      "length (tx_statuses s') = length (tx_statuses s)"
      "tx_dependency s' = (tx_dependency s)[b := deps_of s b @ [?i]]"
    by (simp_all add: s' sched_simps)
  have shape: "sched_shape s'" using parts by (simp add: sched_shape_def fr)
  have deps: "deps_of s' c = (if c = b then deps_of s b @ [?i] else deps_of s c)" for c
    using len by (simp add: fr)
  have w: "waiting s' j \<longleftrightarrow> waiting s j \<or> j = ?i" for j
    using b ok(1) unfolding waiting_def fr(1) deps by (auto split: if_splits)
  have uniq: "owned (P t') \<noteq> Some ?i" if "t' \<noteq> t" for t'
    using parts own that unfolding inv_pcs_def by (metis owned.simps(1))
  have "inv_pcs s' (P(t := Idle))"
    by (rule inv_pcs_update[of s]) (use parts fr uniq in \<open>auto simp: tx w\<close>)
  moreover have "inv_owned s' (P(t := Idle))"
  proof (rule inv_ownedI)
    have old: "inv_owned s P" using parts by simp
    have keep: "held P j \<Longrightarrow> j \<noteq> ?i \<Longrightarrow> held (P(t := Idle)) j" for j
      using own by (simp add: held_other)
    fix j assume "j < sc_block_size s'"
    then have j: "j < sc_block_size s" by (simp add: fr)
    show "held (P(t := Idle)) j" if "st_of s' j = Executing"
      using that old j keep by (simp add: tx inv_owned_def split: if_splits)
    show "waiting s' j \<or> held (P(t := Idle)) j" if "st_of s' j = Aborted"
      using that old j keep by (cases "j = ?i") (auto simp: tx w inv_owned_def)
    show "covered s' (P(t := Idle)) j" if "st_of s' j = ReadyToExecute"
    proof -
      have "covered s P j" using that old j by (simp add: tx inv_owned_def split: if_splits)
      then show ?thesis using own unfolding covered_def fr by (metis fun_upd_other pc.distinct)
    qed
  qed
  moreover have "inv_deps s'"
  proof (rule inv_depsI)
    have "\<not> waiting s ?i"
      using parts ok(2) inv_depsD(3)[of s _ ?i] by (auto simp: waiting_def)
    then have "?i \<notin> set (concat (tx_dependency s))"
      using parts waiting_concat by blast
    then show "distinct (concat (tx_dependency s'))"
      unfolding fr(6) by (intro distinct_concat_append len(2) inv_deps_distinct) (use parts in blast)
    fix c j assume c: "c < sc_block_size s'" and j: "j \<in> set (deps_of s' c)"
    have c': "c < sc_block_size s" using c by (simp add: fr)
    consider (old) "j \<in> set (deps_of s c)" | (new) "c = b" "j = ?i"
      using j by (auto simp: deps split: if_splits)
    then show "c < j \<and> j < sc_block_size s' \<and> st_of s' j = Aborted \<and> \<not> is_done (st_of s' c)"
    proof cases
      case old
      have "inv_deps s" using parts by blast
      from inv_depsD[OF this c' old] show ?thesis by (simp add: tx fr)
    next
      case new
      then show ?thesis using b ok nd by (simp add: tx fr)
    qed
  qed
  moreover have "{j. j < sc_block_size s' \<and> st_of s' j = Validated}
      = {j. j < sc_block_size s \<and> st_of s j = Validated}"
    using ok by (auto simp: tx fr)
  then have "inv_counts s'"
    using parts ok unfolding inv_counts_def by (simp add: tx fr)
  moreover have "inv_finished s' F"
    using parts ok unfolding inv_finished_def by (auto simp: tx fr)
  ultimately show ?thesis using shape by (simp add: inv_sched_def)
qed

subsection \<open>A finished execution\<close>

lemma executing_owner:
  assumes "inv_sched s P F" "P t = Busy (Execution v)"
  shows "tv_idx v < sc_block_size s"
    "tx_at s (tv_idx v) = \<lparr>incarnation = tv_incarnation v, status = Executing\<rparr>"
    "\<And>t'. t' \<noteq> t \<Longrightarrow> owned (P t') \<noteq> Some (tv_idx v)"
  using assms unfolding inv_sched_def inv_pcs_def by (metis pc_ok.simps(1) owned.simps(1))+

lemma pc_of_task_validation:
  assumes "r = None \<or> r = Some (Validation v)"
  shows "owned (pc_of_task r) = None" "tv_idx v < sc_block_size s \<Longrightarrow> pc_ok s (pc_of_task r)"
  using assms by (auto simp: pc_of_task_def)

lemma waiting_clear:
  assumes "sched_shape s" "inv_deps s" "i < sc_block_size s"
    and "tx_dependency s' = (tx_dependency s)[i := []]" "sc_block_size s' = sc_block_size s"
  shows "waiting s' j \<longleftrightarrow> waiting s j \<and> j \<notin> set (deps_of s i)"
proof -
  have len: "length (tx_dependency s) = sc_block_size s" using assms(1) by (simp add: sched_shape_def)
  have excl: "j \<notin> set (deps_of s i)" if "b < sc_block_size s" "b \<noteq> i" "j \<in> set (deps_of s b)" for b
  proof (cases b i rule: linorder_cases)
    case less
    then show ?thesis
      by (rule distinct_concat_disjoint) (use that len assms inv_deps_distinct in simp_all)
  next
    case greater
    then show ?thesis
      using distinct_concat_disjoint[OF greater _ inv_deps_distinct[OF assms(2)], of j] that(1,3) len
      by metis
  qed (use that in simp)
  have "waiting s' j \<longleftrightarrow> (\<exists>b < sc_block_size s. b \<noteq> i \<and> j \<in> set (deps_of s b))"
  proof -
    have "j \<in> set ((tx_dependency s)[i := []] ! b) \<longleftrightarrow> b \<noteq> i \<and> j \<in> set (deps_of s b)"
      for b using assms(3) len by (auto simp: nth_list_update)
    then show ?thesis unfolding waiting_def assms(4,5) by blast
  qed
  then show ?thesis using excl unfolding waiting_def by blast
qed

lemma inv_finish:
  assumes inv: "inv_sched s P F" and own: "P t = Busy (Execution v)"
    and fe: "finish_execution v flags s = (r, s')"
  shows "inv_sched s' (P(t := pc_of_task r)) (insert v F)"
proof -
  let ?i = "tv_idx v" and ?ds = "deps_of s (tv_idx v)" and ?p = "pc_of_task r"
  note parts = inv[unfolded inv_sched_def]
  have shp: "sched_shape s" and dps: "inv_deps s" and pcs: "inv_pcs s P" using parts by blast+
  note i = executing_owner[OF inv own]
  have ds: "j < sc_block_size s" "st_of s j = Aborted" "j \<noteq> ?i" if "j \<in> set ?ds" for j
    using inv_depsD[OF dps i(1) that] by auto
  have dist: "distinct ?ds" by (rule deps_distinct[OF shp dps i(1)])
  have len: "length (tx_statuses s) = sc_block_size s" "length (tx_dependency s) = sc_block_size s"
    using shp by (simp_all add: sched_shape_def)
  have hyps: "?i < length (tx_statuses s)" "\<forall>d \<in> set ?ds. d < length (tx_statuses s)" "?i \<notin> set ?ds"
    using i(1) ds len by auto
  note fin = finish_execution_shape[OF fe hyps(1) dist hyps(2,3)]
  note tx = fin(1) and fr = fin(2-8)
  have w: "waiting s' j \<longleftrightarrow> waiting s j \<and> j \<notin> set ?ds" for j
    by (rule waiting_clear[OF shp dps i(1) fr(1) fr(5)])
  have same: "tx_at s' j = tx_at s j" if "j \<noteq> ?i" "j \<notin> set ?ds" for j using that by (simp add: tx)
  have "inv_pcs s' (P(t := ?p))"
  proof (rule inv_pcs_update[OF pcs fr(5)])
    show "pc_ok s' ?p" using pc_of_task_validation(2)[OF fin(9)] i(1) fr(5) by simp
    fix t' j assume "t' \<noteq> t" and o: "owned (P t') = Some j"
    then have "j \<noteq> ?i" using i(3) by blast
    moreover have "j \<notin> set ?ds"
      using owned_status[OF pcs o] ds(2) i(1) unfolding waiting_def by fastforce
    ultimately show "tx_at s' j = tx_at s j \<and> (waiting s' j \<longrightarrow> waiting s j) \<and> owned ?p \<noteq> Some j"
      using same w pc_of_task_validation(1)[OF fin(9)] by simp
  qed
  moreover have "inv_owned s' (P(t := ?p))"
  proof (rule inv_ownedI)
    have old: "inv_owned s P" using parts by blast
    have keep: "held P j \<Longrightarrow> j \<noteq> ?i \<Longrightarrow> held (P(t := ?p)) j" for j
      using own by (simp add: held_other)
    fix j assume "j < sc_block_size s'"
    then have j: "j < sc_block_size s" by (simp add: fr)
    show "held (P(t := ?p)) j" if "st_of s' j = Executing"
      using that old j keep by (simp add: tx inv_owned_def split: if_splits)
    show "waiting s' j \<or> held (P(t := ?p)) j" if "st_of s' j = Aborted"
      using that old j keep by (auto simp: tx w inv_owned_def split: if_splits)
    show "covered s' (P(t := ?p)) j" if "st_of s' j = ReadyToExecute"
    proof (cases "j \<in> set ?ds")
      case True
      then show ?thesis by (simp add: covered_def fr fold_min_le_mem)
    next
      case False
      then have "covered s P j" using that old j by (simp add: tx inv_owned_def split: if_splits)
      moreover have "execution_idx s' \<le> execution_idx s" by (simp add: fr fold_min_le)
      ultimately show ?thesis
        using own unfolding covered_def by (metis fun_upd_other order_trans pc.distinct)
    qed
  qed
  moreover have "inv_deps s'"
  proof (rule inv_depsI)
    show "distinct (concat (tx_dependency s'))"
      unfolding fr(1) using i(1) len inv_deps_distinct[OF dps] by (simp add: distinct_concat_clear)
    fix c j assume "c < sc_block_size s'" and j: "j \<in> set (deps_of s' c)"
    then have c: "c < sc_block_size s" by (simp add: fr)
    have ci: "c \<noteq> ?i" "j \<in> set (deps_of s c)" 
      using j i(1) len by (auto simp: fr nth_list_update split: if_splits)
    have "waiting s' j" using j c unfolding waiting_def fr(5) by blast
    then have "j \<notin> set ?ds" by (simp add: w)
    then show "c < j \<and> j < sc_block_size s' \<and> st_of s' j = Aborted \<and> \<not> is_done (st_of s' c)"
      using inv_depsD[OF dps c ci(2)] ci i(2) by (auto simp: tx fr)
  qed
  moreover have "{j. j < sc_block_size s' \<and> st_of s' j = Validated}
      = {j. j < sc_block_size s \<and> st_of s j = Validated}"
    using i(2) ds by (auto simp: tx fr)
  then have "inv_counts s'"
    using parts unfolding inv_counts_def by (auto simp: tx fr min_le_iff_disj split: if_splits)
  moreover have "inv_finished s' (insert v F)"
    using parts i ds unfolding inv_finished_def by (auto simp: tx fr)
  moreover have "sched_shape s'" using shp by (simp add: sched_shape_def fr)
  ultimately show ?thesis by (simp add: inv_sched_def)
qed

subsection \<open>Validation outcomes\<close>

lemma card_below: "card {j. j < n \<and> Q j} \<le> (n::nat)"
  using card_mono[of "{..<n}" "{j. j < n \<and> Q j}"] by auto

lemma card_lose:
  assumes "i < n" "Q i" "\<And>j. Q' j \<longleftrightarrow> Q j \<and> j \<noteq> i"
  shows "card {j. j < n \<and> Q' j} + 1 = card {j. j < (n::nat) \<and> Q j}"
proof -
  have "{j. j < n \<and> Q j} = insert i {j. j < n \<and> Q' j}" using assms by auto
  moreover have "finite {j. j < n \<and> Q' j}" "i \<notin> {j. j < n \<and> Q' j}" using assms by auto
  ultimately show ?thesis by simp
qed

text \<open>The effect of changing the status of one transaction that no thread owns.\<close>

lemma inv_restatus:
  assumes inv: "inv_sched s P F"
    and i: "i < sc_block_size s" "is_done (st_of s i)"
    and own: "owned (P t) = None" "\<And>j. P t \<noteq> ClaimE j" "\<And>v. P t \<noteq> Requeue v"
    and tx: "\<And>j. tx_at s' j = (if j = i then (tx_at s i)\<lparr>status := st\<rparr> else tx_at s j)"
    and fr: "sc_block_size s' = sc_block_size s" "tx_dependency s' = tx_dependency s"
      "execution_idx s' = execution_idx s" "min_validation_idx s' = min_validation_idx s"
      "length (tx_statuses s') = length (tx_statuses s)"
    and cnt: "num_validated s' = card {j. j < sc_block_size s' \<and> st_of s' j = Validated}"
    and p: "st = Validated \<and> owned p = None \<or> st = Aborted \<and> owned p = Some i" "pc_ok s' p"
  shows "inv_sched s' (P(t := p)) F"
proof -
  note parts = inv[unfolded inv_sched_def]
  have dps: "inv_deps s" and pcs: "inv_pcs s P" and old: "inv_owned s P" using parts by blast+
  have w: "waiting s' j = waiting s j" for j by (rule waiting_cong[OF fr(2,1)])
  have ni: "j \<noteq> i" if "owned (P t') = Some j" for t' j
    using owned_status[OF pcs that] i by auto
  have "inv_pcs s' (P(t := p))"
  proof (rule inv_pcs_update[OF pcs fr(1) p(2)])
    fix t' j assume "owned (P t') = Some j"
    from ni[OF this] show "tx_at s' j = tx_at s j \<and> (waiting s' j \<longrightarrow> waiting s j) \<and> owned p \<noteq> Some j"
      using p(1) by (auto simp: tx w)
  qed
  moreover have "inv_owned s' (P(t := p))"
  proof (rule inv_ownedI)
    have keep: "held P j \<Longrightarrow> held (P(t := p)) j" for j using own(1) by (simp add: held_other)
    fix j assume "j < sc_block_size s'"
    then have j: "j < sc_block_size s" by (simp add: fr)
    show "held (P(t := p)) j" if "st_of s' j = Executing"
      using that old j keep p(1) by (auto simp: tx inv_owned_def split: if_splits)
    show "waiting s' j \<or> held (P(t := p)) j" if "st_of s' j = Aborted"
    proof (cases "j = i")
      case True
      then show ?thesis using that p(1) by (auto simp: tx intro: held_here)
    next
      case False
      then show ?thesis using that old j keep by (auto simp: tx w inv_owned_def)
    qed
    show "covered s' (P(t := p)) j" if "st_of s' j = ReadyToExecute"
    proof -
      have "covered s P j" using that old j p(1) by (auto simp: tx inv_owned_def split: if_splits)
      then show ?thesis using own(2,3) unfolding covered_def fr by (metis fun_upd_other)
    qed
  qed
  moreover have "inv_deps s'"
  proof (rule inv_depsI)
    show "distinct (concat (tx_dependency s'))" using inv_deps_distinct[OF dps] by (simp add: fr)
    fix c j assume "c < sc_block_size s'" "j \<in> set (deps_of s' c)"
    then have c: "c < sc_block_size s" "j \<in> set (deps_of s c)" by (simp_all add: fr)
    have "j \<noteq> i" "c \<noteq> i" using inv_depsD(3,4)[OF dps c] i by auto
    then show "c < j \<and> j < sc_block_size s' \<and> st_of s' j = Aborted \<and> \<not> is_done (st_of s' c)"
      using inv_depsD[OF dps c] by (simp add: tx fr)
  qed
  moreover have "inv_counts s'"
    using parts i cnt unfolding inv_counts_def by (auto simp: tx fr split: if_splits)
  moreover have "inv_finished s' F"
    using parts p(1) unfolding inv_finished_def by (auto simp: tx fr)
  moreover have "sched_shape s'" using parts by (simp add: sched_shape_def fr)
  ultimately show ?thesis by (simp add: inv_sched_def)
qed

lemma num_validated_bounds:
  assumes "inv_sched s P F"
  shows "num_validated s \<le> sc_block_size s" "sc_block_size s < usize_modulus"
    "num_validated s = card {j. j < sc_block_size s \<and> st_of s j = Validated}"
  using assms card_below unfolding inv_sched_def inv_counts_def sched_shape_def by auto

lemma inv_abort:
  assumes inv: "inv_sched s P F" and own: "P t = Busy (Validation v)"
    and ab: "try_validation_abort v s = (True, s')"
  shows "inv_sched s' (P(t := Aborting v)) F"
proof -
  let ?i = "tv_idx v"
  note num = num_validated_bounds[OF inv]
  have "pc_ok s (P t)" using inv by (simp add: inv_sched_def inv_pcs_def)
  then have i: "?i < sc_block_size s" using own by simp
  have len: "?i < length (tx_statuses s)" using inv i by (simp add: inv_sched_def sched_shape_def)
  have d: "is_done (st_of s ?i)"
    using ab by (auto simp: try_validation_abort_def Let_def split: if_splits)
  let ?n = "if st_of s ?i = Validated then usize_fetch_sub (num_validated s) 1 else num_validated s"
  have s': "s' = set_tx_status ?i Aborted (s\<lparr>num_validated := ?n\<rparr>)"
    using ab d by (auto simp: try_validation_abort_def Let_def)
  have tx: "tx_at s' j = (if j = ?i then (tx_at s ?i)\<lparr>status := Aborted\<rparr> else tx_at s j)" for j
    using len by (simp add: s' sched_simps)
  have fr: "sc_block_size s' = sc_block_size s" "tx_dependency s' = tx_dependency s"
      "execution_idx s' = execution_idx s" "min_validation_idx s' = min_validation_idx s"
      "length (tx_statuses s') = length (tx_statuses s)" "num_validated s' = ?n"
    by (simp_all add: s' sched_simps)
  have cnt: "num_validated s' = card {j. j < sc_block_size s' \<and> st_of s' j = Validated}"
  proof (cases "st_of s ?i = Validated")
    case True
    have "card {j. j < sc_block_size s \<and> st_of s' j = Validated} + 1 = num_validated s"
      unfolding num(3) by (rule card_lose[OF i]) (use True in \<open>auto simp: tx\<close>)
    then show ?thesis using True num(1,2) by (simp add: fr usize_fetch_sub_small)
  next
    case False
    then have "{j. j < sc_block_size s \<and> st_of s' j = Validated}
        = {j. j < sc_block_size s \<and> st_of s j = Validated}" by (auto simp: tx)
    then show ?thesis using False num(3) by (simp add: fr)
  qed
  have "\<not> waiting s ?i"
    using inv d inv_depsD(3)[of s _ ?i] unfolding waiting_def inv_sched_def by fastforce
  then have "pc_ok s' (Aborting v)" using i waiting_cong[OF fr(2,1)] by (simp add: tx fr)
  then show ?thesis
    by (intro inv_restatus[OF inv i d _ _ _ tx fr(1-5) cnt]) (simp_all add: own)
qed

lemma inv_settle:
  assumes inv: "inv_sched s P F" and own: "P t = Settling v"
  shows "inv_sched (mark_validated v s) (P(t := Idle)) F"
proof -
  let ?i = "tv_idx v" and ?s = "mark_validated v s"
  note num = num_validated_bounds[OF inv]
  have "pc_ok s (P t)" using inv by (simp add: inv_sched_def inv_pcs_def)
  then have i: "?i < sc_block_size s" using own by simp
  have len: "?i < length (tx_statuses s)" using inv i by (simp add: inv_sched_def sched_shape_def)
  show ?thesis
  proof (cases "st_of s ?i = Executed")
    case True
    then have m: "?s = count_validated (set_tx_status ?i Validated s)" by (simp add: mark_validated_def)
    have tx: "tx_at ?s j = (if j = ?i then (tx_at s ?i)\<lparr>status := Validated\<rparr> else tx_at s j)" for j
      using len by (simp add: m sched_simps)
    have fr: "sc_block_size ?s = sc_block_size s" "tx_dependency ?s = tx_dependency s"
        "execution_idx ?s = execution_idx s" "min_validation_idx ?s = min_validation_idx s"
        "length (tx_statuses ?s) = length (tx_statuses s)"
      by (simp_all add: m sched_simps)
    have lose: "num_validated s + 1 = card {j. j < sc_block_size s \<and> st_of ?s j = Validated}"
      unfolding num(3) by (rule card_lose[OF i]) (use True in \<open>auto simp: tx\<close>)
    then have "num_validated s + 1 \<le> sc_block_size s" using card_below by metis
    then have "num_validated ?s = num_validated s + 1"
      using num(2) by (simp add: m sched_simps usize_fetch_add_small)
    with lose have cnt: "num_validated ?s = card {j. j < sc_block_size ?s \<and> st_of ?s j = Validated}"
      by (simp add: fr)
    show ?thesis
      by (rule inv_restatus[OF inv i _ _ _ _ tx fr cnt]) (simp_all add: True own)
  next
    case False
    then have "?s = s" by (simp add: mark_validated_def)
    moreover have "inv_sched s (P(t := Idle)) F"
    proof (rule inv_frame[OF inv])
      show "covered s (P(t := Idle)) j" if "covered s P j" for j
        using that own unfolding covered_def by (metis fun_upd_other pc.distinct)
    qed (simp_all add: own)
    ultimately show ?thesis by simp
  qed
qed

lemma inv_reschedule:
  assumes inv: "inv_sched s P F" and own: "P t = Aborting v"
  shows "inv_sched (reschedule_aborted v s) (P(t := Requeue v)) F"
proof -
  let ?i = "tv_idx v" and ?s = "reschedule_aborted v s" and ?P = "P(t := Requeue v)"
  note parts = inv[unfolded inv_sched_def]
  have dps: "inv_deps s" and pcs: "inv_pcs s P" and old: "inv_owned s P" using parts by blast+
  have "pc_ok s (P t)" using pcs by (simp add: inv_pcs_def)
  then have i: "?i < sc_block_size s" "st_of s ?i = Aborted" "\<not> waiting s ?i" using own by simp_all
  have len: "?i < length (tx_statuses s)" using parts i by (simp add: sched_shape_def)
  have tx: "tx_at ?s j = (if j = ?i then \<lparr>incarnation = inc_of s ?i + 1, status = ReadyToExecute\<rparr>
      else tx_at s j)" for j
    using len by (simp add: reschedule_aborted_def sched_simps)
  have fr: "sc_block_size ?s = sc_block_size s" "tx_dependency ?s = tx_dependency s"
      "execution_idx ?s = execution_idx s" "min_validation_idx ?s = min_validation_idx s"
      "num_validated ?s = num_validated s" "length (tx_statuses ?s) = length (tx_statuses s)"
    by (simp_all add: reschedule_aborted_def sched_simps)
  have w: "waiting ?s j = waiting s j" for j by (rule waiting_cong[OF fr(2,1)])
  have uniq: "owned (P t') \<noteq> Some ?i" if "t' \<noteq> t" for t'
    using pcs own that unfolding inv_pcs_def by (metis owned.simps(2))
  have "inv_pcs ?s ?P"
    by (rule inv_pcs_update[OF pcs fr(1)]) (use i uniq in \<open>auto simp: tx w fr\<close>)
  moreover have "inv_owned ?s ?P"
  proof (rule inv_ownedI)
    have keep: "held P j \<Longrightarrow> j \<noteq> ?i \<Longrightarrow> held ?P j" for j using own by (simp add: held_other)
    fix j assume "j < sc_block_size ?s"
    then have j: "j < sc_block_size s" by (simp add: fr)
    show "held ?P j" if "st_of ?s j = Executing"
      using that old j keep by (simp add: tx inv_owned_def split: if_splits)
    show "waiting ?s j \<or> held ?P j" if "st_of ?s j = Aborted"
      using that old j keep by (auto simp: tx w inv_owned_def split: if_splits)
    show "covered ?s ?P j" if "st_of ?s j = ReadyToExecute"
    proof (cases "j = ?i")
      case True
      then show ?thesis unfolding covered_def by (metis fun_upd_same)
    next
      case False
      then have "covered s P j" using that old j by (simp add: tx inv_owned_def)
      then show ?thesis using own unfolding covered_def fr by (metis fun_upd_other pc.distinct)
    qed
  qed
  moreover have "inv_deps ?s"
  proof (rule inv_depsI)
    show "distinct (concat (tx_dependency ?s))" using inv_deps_distinct[OF dps] by (simp add: fr)
    fix c j assume "c < sc_block_size ?s" "j \<in> set (deps_of ?s c)"
    then have c: "c < sc_block_size s" "j \<in> set (deps_of s c)" by (simp_all add: fr)
    have "j \<noteq> ?i" using c i(3) unfolding waiting_def by blast
    then show "c < j \<and> j < sc_block_size ?s \<and> st_of ?s j = Aborted \<and> \<not> is_done (st_of ?s c)"
      using inv_depsD[OF dps c] by (simp add: tx fr)
  qed
  moreover have "{j. j < sc_block_size ?s \<and> st_of ?s j = Validated}
      = {j. j < sc_block_size s \<and> st_of s j = Validated}"
    using i by (auto simp: tx fr)
  then have "inv_counts ?s"
    using parts unfolding inv_counts_def by (simp add: tx fr)
  moreover have "inv_finished ?s F"
    using parts unfolding inv_finished_def by (auto simp: tx fr)
  moreover have "sched_shape ?s" using parts by (simp add: sched_shape_def fr)
  ultimately show ?thesis by (simp add: inv_sched_def)
qed

subsection \<open>The last thread\<close>

text \<open>
  When no thread holds a transaction or a claim and the exit condition holds, every
  transaction is validated: none is ready, since a ready one would lie above the execution
  counter; none is executing; and the least aborted one would wait for a lower unfinished one.
\<close>

lemma quiescent_all_done:
  assumes inv: "inv_sched s P F"
    and idle: "\<And>t. P t = Exited \<or> P t = Idle" and e: "sc_block_size s \<le> execution_idx s"
  shows "i < sc_block_size s \<Longrightarrow> is_done (st_of s i)"
proof (induction i rule: less_induct)
  case (less i)
  have noheld: "\<not> held P j" for j using idle unfolding held_def by (metis option.distinct(1) owned.simps)
  have nocov: "\<not> covered s P i" if "i < sc_block_size s"
    using idle e that unfolding covered_def by (metis not_less order_trans pc.distinct)
  have "inv_owned s P" "inv_deps s" using inv by (auto simp: inv_sched_def)
  moreover from this have "\<not> waiting s i"
    using less.IH inv_depsD(1,4)[of s _ i] unfolding waiting_def by blast
  ultimately show ?case
    using less.prems noheld nocov by (cases "st_of s i") (auto simp: inv_owned_def)
qed

lemma quiescent_all_validated:
  assumes inv: "inv_sched s P F"
    and idle: "\<And>t. P t = Exited \<or> P t = Idle" and ex: "exit_condition s"
    and i: "i < sc_block_size s"
  shows "st_of s i = Validated"
proof -
  let ?V = "{j. j < sc_block_size s \<and> st_of s j = Validated}"
  have fin: "\<And>j. j < sc_block_size s \<Longrightarrow> is_done (st_of s j)"
    using quiescent_all_done[OF inv idle] ex by (simp add: exit_condition_def)
  have "0 < sc_block_size s" using i by simp
  then have "min_validation_idx s \<le> 0"
    using inv fin[of 0] unfolding inv_sched_def inv_counts_def by blast
  then have "sc_block_size s \<le> card ?V"
    using ex num_validated_bounds(3)[OF inv] by (simp add: exit_condition_def)
  then have "?V = {..<sc_block_size s}"
    by (intro card_subset_eq) (auto intro!: antisym card_below simp: card_below)
  then show ?thesis using i by auto
qed

section \<open>The invariant holds in every reachable state\<close>

lemma inv_init: "n < usize_modulus \<Longrightarrow> inv_sched (scheduler_new n) P {}"
  if "\<And>t. P t = Idle \<or> P t = Exited" for P
proof -
  assume n: "n < usize_modulus"
  let ?s = "scheduler_new n"
  have tx: "tx_at ?s i = \<lparr>incarnation = 0, status = ReadyToExecute\<rparr>" if "i < n" for i
    using that by (simp add: tx_at_def scheduler_new_def index_mutex_def)
  have nd: "deps_of ?s i = []" if "i < n" for i using that by (simp add: scheduler_new_def)
  have sz: "sc_block_size ?s = n" "execution_idx ?s = 0" "min_validation_idx ?s = n"
      "num_validated ?s = 0" by (simp_all add: scheduler_new_def)
  have "sched_shape ?s" using n by (simp add: sched_shape_def scheduler_new_def)
  moreover have "inv_pcs ?s P"
    unfolding inv_pcs_def by (metis that option.distinct(1) owned.simps(3,9) pc_ok.simps(6,9))
  moreover have "inv_owned ?s P" by (rule inv_ownedI) (simp_all add: sz tx covered_def)
  moreover have "inv_deps ?s"
  proof (rule inv_depsI)
    have "concat (tx_dependency ?s) = []" by (simp add: scheduler_new_def)
    then show "distinct (concat (tx_dependency ?s))" by (simp only: distinct.simps)
  qed (use nd sz in auto)
  moreover have "{i. i < n \<and> st_of ?s i = Validated} = {}" using tx by auto
  then have "inv_counts ?s" using tx by (simp add: inv_counts_def sz)
  ultimately show ?thesis by (simp add: inv_sched_def inv_finished_def)
qed

lemma covered_upd:
  assumes "covered s P i" "execution_idx s' = execution_idx s"
    and "P t \<noteq> ClaimE i" "\<And>v. P t = Requeue v \<Longrightarrow> tv_idx v \<noteq> i"
  shows "covered s' (P(t := p)) i"
  using assms unfolding covered_def by (metis fun_upd_other)

lemma covered_claim:
  assumes cov: "covered s P i" and idle: "P t = Idle"
  shows "covered (s\<lparr>execution_idx := usize_fetch_add (execution_idx s) 1\<rparr>)
    (P(t := ClaimE (execution_idx s))) i"
proof -
  have step: "usize_fetch_add (execution_idx s) 1 \<le> execution_idx s + 1"
    by (simp add: usize_fetch_add_def)
  consider (same) "execution_idx s = i" | (less) "execution_idx s < i"
    | (claimed) "(\<exists>t'. P t' = ClaimE i) \<or> (\<exists>t' v. P t' = Requeue v \<and> tv_idx v = i)"
    using cov unfolding covered_def by (auto simp: le_less)
  then show ?thesis
  proof cases
    case same
    then show ?thesis unfolding covered_def by (metis fun_upd_same)
  next
    case less
    then show ?thesis using step unfolding covered_def by simp
  next
    case claimed
    then show ?thesis using idle unfolding covered_def by (metis fun_upd_other pc.distinct)
  qed
qed

lemma inv_try_execute:
  assumes inv: "inv_sched s P F" and te: "try_execute i s = (r, s')"
    and P: "P t = ClaimE i \<or> (\<exists>v. P t = Requeue v \<and> tv_idx v = i)"
  shows "inv_sched s' (P(t := pc_of_task (map_option Execution r))) F"
proof (cases i s rule: try_execute_cases)
  case taken
  then have "r = Some (version_of s i)" "s' = set_tx_status i Executing s" using te by simp_all
  moreover have "owned (P t) = None" "\<And>j. j \<noteq> i \<Longrightarrow> P t \<noteq> ClaimE j"
    "\<And>v. tv_idx v \<noteq> i \<Longrightarrow> P t \<noteq> Requeue v" using P by auto
  ultimately show ?thesis
    using inv_take[OF inv taken(1,2)] by (simp add: pc_of_task_def)
next
  case refused
  have "covered s (P(t := Idle)) j" if "j < sc_block_size s" "st_of s j = ReadyToExecute" "covered s P j" for j
  proof -
    have "j \<noteq> i" using that refused(1) by blast
    then show ?thesis using P by (intro covered_upd[OF that(3)]) auto
  qed
  then show ?thesis
    using refused te P by (intro inv_frame[OF inv]) (auto simp: pc_of_task_def)
qed

lemma op_sizes:
  "look_at_claim i s = (p, s') \<Longrightarrow> sc_block_size s' = sc_block_size s"
  "try_execute i s = (ve, s') \<Longrightarrow> sc_block_size s' = sc_block_size s"
  "add_dependency i b s = (ok, s') \<Longrightarrow> sc_block_size s' = sc_block_size s"
  "finish_execution v flags s = (r, s') \<Longrightarrow> sc_block_size s' = sc_block_size s"
  "try_validation_abort v s = (ok, s') \<Longrightarrow> sc_block_size s' = sc_block_size s"
  "retake_aborted v s = (r, s') \<Longrightarrow> sc_block_size s' = sc_block_size s"
  "sc_block_size (mark_validated v s) = sc_block_size s"
  "sc_block_size (reschedule_aborted v s) = sc_block_size s"
  by (auto simp: look_at_claim_def try_execute_def add_dependency_def finish_execution_def
      settle_execution_def try_validation_abort_def retake_aborted_def mark_validated_def
      reschedule_aborted_def Let_def sched_simps split: if_splits prod.splits)

lemma sys_invI:
  assumes "sc_block_size s' = n" "inv_sched s' (P(t := p)) F" "p \<noteq> Exited"
    "sched S' = s'" "pcs S' = P(t := p)" "finished S' = F"
  shows "sys_inv n S'"
  using assms unfolding sys_inv_def inv_quiet_def by (metis fun_upd_same)

lemma pc_of_task_not_exited [simp]: "pc_of_task r \<noteq> Exited"
  by (simp add: pc_of_task_def split: option.splits)

lemma inv_look:
  assumes inv: "inv_sched s P F" and P: "P t = ClaimV i" and l: "look_at_claim i s = (p, s')"
  shows "inv_sched s' (P(t := p)) F" "p \<noteq> Exited"
proof -
  show "p \<noteq> Exited" using l by (auto simp: look_at_claim_def split: if_splits)
  show "inv_sched s' (P(t := p)) F"
  proof (cases "i < sc_block_size s \<and> st_of s i = ReadyToExecute")
    case True
    then show ?thesis
      using l P by (auto simp: look_at_claim_def intro!: inv_take[OF inv])
  next
    case False
    then have "s' = s" "owned p = None" "pc_ok s p"
      using l by (auto simp: look_at_claim_def split: if_splits)
    then show ?thesis
      using P by (intro inv_frame[OF inv]) (auto intro: covered_upd)
  qed
qed

lemma worker_step_inv:
  assumes "worker_step S S'" "sys_inv n S"
  shows "sys_inv n S'"
  using assms(1)
proof (cases rule: worker_step.cases)
  case (claim_validation t)
  then have inv: "inv_sched (sched S) (pcs S) (finished S)" "sc_block_size (sched S) = n"
    using assms(2) by (simp_all add: sys_inv_def)
  let ?v = "validation_idx (sched S)"
  have "inv_sched ((sched S)\<lparr>validation_idx := usize_fetch_add ?v 1\<rparr>)
      ((pcs S)(t := ClaimV ?v)) (finished S)"
    using claim_validation(3) by (intro inv_frame[OF inv(1)]) (auto intro: covered_upd)
  then show ?thesis unfolding claim_validation(1)
    by (intro sys_invI[where t = t and p = "ClaimV ?v"]) (simp_all add: inv(2))
next
  case (take_validation t i p s')
  then have inv: "inv_sched (sched S) (pcs S) (finished S)" "sc_block_size (sched S) = n"
    using assms(2) by (simp_all add: sys_inv_def)
  show ?thesis
    using inv(2) inv_look[OF inv(1) take_validation(3,4)] op_sizes(1)[OF take_validation(4)]
    unfolding take_validation(1) by (intro sys_invI[where t = t and p = p]) auto
next
  case (claim_execution_idx t)
  then have inv: "inv_sched (sched S) (pcs S) (finished S)" "sc_block_size (sched S) = n"
    using assms(2) by (simp_all add: sys_inv_def)
  let ?e = "execution_idx (sched S)"
  let ?s = "(sched S)\<lparr>execution_idx := usize_fetch_add ?e 1\<rparr>"
  have "covered ?s ((pcs S)(t := ClaimE ?e)) i" if "covered (sched S) (pcs S) i" for i
    using covered_claim[OF that claim_execution_idx(3)] by simp
  then have "inv_sched ?s ((pcs S)(t := ClaimE ?e)) (finished S)"
    by (intro inv_frame[OF inv(1)]) (simp_all add: claim_execution_idx(3))
  then show ?thesis unfolding claim_execution_idx(1)
    by (intro sys_invI[where t = t and p = "ClaimE ?e"]) (simp_all add: inv(2))
next
  case (take_execution t i r s')
  then have inv: "inv_sched (sched S) (pcs S) (finished S)" "sc_block_size (sched S) = n"
    using assms(2) by (simp_all add: sys_inv_def)
  show ?thesis
    using inv(2) inv_try_execute[OF inv(1) take_execution(4)] op_sizes(2)[OF take_execution(4)] take_execution(3)
    unfolding take_execution(1)
    by (intro sys_invI[where t = t and p = "pc_of_task (map_option Execution r)"]) auto
next
  case (execution_blocked t v b s')
  then have inv: "inv_sched (sched S) (pcs S) (finished S)" "sc_block_size (sched S) = n"
    using assms(2) by (simp_all add: sys_inv_def)
  show ?thesis
    using inv(2) inv_block[OF inv(1) execution_blocked(3-5)] op_sizes(3)[OF execution_blocked(5)]
    unfolding execution_blocked(1) by (intro sys_invI[where t = t and p = Idle]) auto
next
  case (execution_fatal t v)
  then show ?thesis using assms(2) by (simp add: sys_inv_def sched_abort_def)
next
  case (execution_finished t v flags r s')
  then have inv: "inv_sched (sched S) (pcs S) (finished S)" "sc_block_size (sched S) = n"
    using assms(2) by (simp_all add: sys_inv_def)
  show ?thesis
    using inv(2) inv_finish[OF inv(1) execution_finished(3,4)] op_sizes(4)[OF execution_finished(4)]
    unfolding execution_finished(1) by (intro sys_invI[where t = t and p = "pc_of_task r"]) auto
next
  case (validation_passed t v)
  then have inv: "inv_sched (sched S) (pcs S) (finished S)" "sc_block_size (sched S) = n"
    using assms(2) by (simp_all add: sys_inv_def)
  then have "pc_ok (sched S) (pcs S t)" by (simp add: inv_sched_def inv_pcs_def)
  then have "inv_sched (sched S) ((pcs S)(t := Settling v)) (finished S)"
    using validation_passed(3) by (intro inv_frame[OF inv(1)]) (auto intro: covered_upd)
  then show ?thesis unfolding validation_passed(1)
    by (intro sys_invI[where t = t and p = "Settling v"]) (simp_all add: inv(2))
next
  case (validation_failed t v ab s')
  then have inv: "inv_sched (sched S) (pcs S) (finished S)" "sc_block_size (sched S) = n"
    using assms(2) by (simp_all add: sys_inv_def)
  then have ok: "pc_ok (sched S) (pcs S t)" by (simp add: inv_sched_def inv_pcs_def)
  have "inv_sched s' ((pcs S)(t := if ab then Aborting v else Settling v)) (finished S)"
  proof (cases ab)
    case True
    then show ?thesis using inv_abort[OF inv(1) validation_failed(3)] validation_failed(4) by simp
  next
    case False
    then have "s' = sched S"
      using validation_failed(4) by (auto simp: try_validation_abort_def Let_def split: if_splits)
    then show ?thesis
      using False ok validation_failed(3) by (intro inv_frame[OF inv(1)]) (auto intro: covered_upd)
  qed
  then show ?thesis
    using op_sizes(5)[OF validation_failed(4)] inv(2) unfolding validation_failed(1)
    by (intro sys_invI[where t = t and p = "if ab then Aborting v else Settling v"]) auto
next
  case (validation_settled t v)
  then have inv: "inv_sched (sched S) (pcs S) (finished S)" "sc_block_size (sched S) = n"
    using assms(2) by (simp_all add: sys_inv_def)
  show ?thesis
    using inv(2) inv_settle[OF inv(1) validation_settled(3)] unfolding validation_settled(1)
    by (intro sys_invI[where t = t and p = Idle]) (auto simp: op_sizes)
next
  case (abort_rescheduled t v)
  then have inv: "inv_sched (sched S) (pcs S) (finished S)" "sc_block_size (sched S) = n"
    using assms(2) by (simp_all add: sys_inv_def)
  show ?thesis
    using inv(2) inv_reschedule[OF inv(1) abort_rescheduled(3)] unfolding abort_rescheduled(1)
    by (intro sys_invI[where t = t and p = "Requeue v"]) (auto simp: op_sizes)
next
  case (abort_retaken t v r s')
  then have inv: "inv_sched (sched S) (pcs S) (finished S)" "sc_block_size (sched S) = n"
    using assms(2) by (simp_all add: sys_inv_def)
  have "inv_sched s' ((pcs S)(t := pc_of_task r)) (finished S)"
  proof (cases "execution_idx (sched S) > tv_idx v")
    case True
    then obtain ve where ve: "try_execute (tv_idx v) (sched S) = (ve, s')" "r = map_option Execution ve"
      using abort_retaken(4) by (auto simp: retake_aborted_def split: prod.splits)
    then show ?thesis using inv_try_execute[OF inv(1) ve(1)] abort_retaken(3) by auto
  next
    case False
    then have r: "r = None" "s' = sched S" using abort_retaken(4) by (simp_all add: retake_aborted_def)
    have "covered (sched S) ((pcs S)(t := Idle)) j" if "covered (sched S) (pcs S) j" for j
    proof (cases "tv_idx v = j")
      case True
      then show ?thesis using False by (simp add: covered_def)
    qed (use abort_retaken(3) in \<open>auto intro: covered_upd[OF that]\<close>)
    then show ?thesis
      using r abort_retaken(3) by (intro inv_frame[OF inv(1)]) (auto simp: pc_of_task_def)
  qed
  then show ?thesis
    using op_sizes(6)[OF abort_retaken(4)] inv(2) unfolding abort_retaken(1)
    by (intro sys_invI[where t = t and p = "pc_of_task r"]) auto
next
  case (worker_leaves t)
  then have inv: "inv_sched (sched S) (pcs S) (finished S)" "sc_block_size (sched S) = n"
    using assms(2) by (simp_all add: sys_inv_def)
  have "inv_sched (sched S) ((pcs S)(t := Exited)) (finished S)"
    using worker_leaves(3) by (intro inv_frame[OF inv(1)]) (auto intro: covered_upd)
  moreover have "inv_quiet (sched S) ((pcs S)(t := Exited))"
    unfolding inv_quiet_def
  proof (intro impI)
    assume all: "\<forall>t'. ((pcs S)(t := Exited)) t' = Exited"
    then have others: "pcs S t' = Exited \<or> pcs S t' = Idle" for t'
      using worker_leaves(3) by (metis fun_upd_other)
    then have "exit_condition (sched S)" using all worker_leaves(4) by (metis fun_upd_other)
    then show "\<forall>i < sc_block_size (sched S). st_of (sched S) i = Validated"
      using quiescent_all_validated[OF inv(1) others] by blast
  qed
  ultimately show ?thesis using inv(2) unfolding worker_leaves(1) by (simp add: sys_inv_def)
next
  case (worker_stops t)
  then show ?thesis using assms(2) by (simp add: sys_inv_def)
qed

lemmas worker_step_mk = worker_step.intros
  [where S = "\<lparr>sched = s, pcs = P, finished = F\<rparr>" for s P F, simplified]
  worker_step.validation_failed
  [where S = "\<lparr>sched = s, pcs = P, finished = F\<rparr>" and ab = True for s P F, simplified]
  worker_step.validation_failed
  [where S = "\<lparr>sched = s, pcs = P, finished = F\<rparr>" and ab = False for s P F, simplified]

lemma event_step_worker:
  assumes "event_step e s P F = Some (s', P', F')" "\<not> aborted s"
  shows "worker_step (mk_sys s P F) (mk_sys s' P' F')"
  using assms unfolding mk_sys_def
  by (induction e s P F rule: event_step.induct)
    (auto split: pc.splits task.splits if_splits prod.splits bool.splits
      simp: worker_step_mk)

lemma run_events_reachable:
  assumes "run_events es s P F = Some (s', P', F')" "reachable n k (mk_sys s P F)"
  shows "reachable n k (mk_sys s' P' F')"
  using assms
proof (induction es arbitrary: s P F)
  case (Cons e es)
  then obtain s1 P1 F1 where "event_step e s P F = Some (s1, P1, F1)" "\<not> aborted s"
      "run_events es s1 P1 F1 = Some (s', P', F')"
    by (auto split: if_splits option.splits)
  then show ?case using Cons.IH Cons.prems(2) event_step_worker reachable.step by blast
qed simp

lemma reachable_inv:
  assumes "reachable n k S" "0 < k" "n < usize_modulus"
  shows "sys_inv n S"
  using assms(1)
proof induction
  case start
  have "inv_sched (scheduler_new n) (\<lambda>t. if t < k then Idle else Exited) {}"
    by (rule inv_init) (simp_all add: assms(3))
  moreover have "sc_block_size (scheduler_new n) = n" by (simp add: scheduler_new_def)
  ultimately show ?case using assms(2)
    by (auto simp: sys_inv_def sys_init_def inv_quiet_def)
next
  case (step S S')
  then show ?case by (blast intro: worker_step_inv)
qed

end
