(* ===== verification/Scheduler_Progress.thy ===== *)
theory Scheduler_Progress
  imports Scheduler_Steps
begin

text \<open>
  The scheduler does not get stuck, and its properties over all interleavings. On top of the
  invariant of theory \<open>Scheduler_Steps\<close> a second one, \<open>inv_val\<close>, says that every executed
  transaction is still going to be validated: the validation counter has not passed it, or
  some thread has claimed it. It follows that the waiting branch of \<open>next_task\<close>, which yields
  and loops while both counters are past the block, is never the only thing left to do.
  The theorems about reachable states are collected at the end.
\<close>

section \<open>Executed transactions are going to be validated\<close>

fun vfocus :: "pc \<Rightarrow> nat option" where
  "vfocus (ClaimV i) = Some i"
| "vfocus (Busy (Validation v)) = Some (tv_idx v)"
| "vfocus (Settling v) = Some (tv_idx v)"
| "vfocus _ = None"

definition vpending :: "(nat \<Rightarrow> pc) \<Rightarrow> nat \<Rightarrow> bool" where
  "vpending P i \<longleftrightarrow> (\<exists>t. vfocus (P t) = Some i)"

definition inv_val :: "scheduler \<Rightarrow> (nat \<Rightarrow> pc) \<Rightarrow> bool" where
  "inv_val s P \<longleftrightarrow> (\<forall>i < sc_block_size s.
     st_of s i = Executed \<longrightarrow> validation_idx s \<le> i \<or> vpending P i)"

lemma inv_val_update:
  assumes inv: "inv_val s P" and size: "sc_block_size s' = sc_block_size s"
    and kept: "\<And>i. \<lbrakk>i < sc_block_size s; st_of s' i = Executed;
        st_of s i \<noteq> Executed \<or> validation_idx s \<le> i \<or> vfocus (P t) = Some i\<rbrakk>
        \<Longrightarrow> validation_idx s' \<le> i \<or> vfocus p = Some i"
  shows "inv_val s' (P(t := p))"
  unfolding inv_val_def
proof (intro allI impI)
  fix i assume i: "i < sc_block_size s'" "st_of s' i = Executed"
  show "validation_idx s' \<le> i \<or> vpending (P(t := p)) i"
  proof (cases "st_of s i \<noteq> Executed \<or> validation_idx s \<le> i \<or> vfocus (P t) = Some i")
    case True
    then show ?thesis using kept[of i] i size by (auto simp: vpending_def)
  next
    case False
    then obtain t' where "vfocus (P t') = Some i" using inv i size by (auto simp: inv_val_def vpending_def)
    then show ?thesis using False by (auto simp: vpending_def)
  qed
qed

lemma usize_fetch_add_le: "a \<le> i \<Longrightarrow> a = i \<or> usize_fetch_add a 1 \<le> i"
  unfolding usize_fetch_add_def usize_modulus_def by (metis Suc_eq_plus1 le_neq_implies_less Suc_leI le_trans mod_less_eq_dividend)

lemma finish_execution_effect:
  assumes inv: "inv_sched s P F" and own: "P t = Busy (Execution v)"
    and fe: "finish_execution v flags s = (r, s')"
  shows "tx_at s' j =
      (if j = tv_idx v then (tx_at s j)\<lparr>status := Executed\<rparr>
       else if j \<in> set (deps_of s (tv_idx v))
       then \<lparr>incarnation = inc_of s j + 1, status = ReadyToExecute\<rparr> else tx_at s j)"
    and "sc_block_size s' = sc_block_size s" and "r = None \<or> r = Some (Validation v)"
    and "tv_idx v < sc_block_size s"
proof -
  have ok: "pc_ok s (P t)" and d: "inv_deps s" and sh: "sched_shape s"
    using inv by (simp_all add: inv_sched_def inv_pcs_def)
  then show i: "tv_idx v < sc_block_size s" using own by simp
  have len: "tv_idx v < length (tx_statuses s)" using i sh by (simp add: sched_shape_def)
  have dist: "distinct (deps_of s (tv_idx v))" by (rule deps_distinct[OF sh d i])
  have rng: "\<forall>d \<in> set (deps_of s (tv_idx v)). d < length (tx_statuses s)"
    using inv_depsD[OF d i] sh by (auto simp: sched_shape_def)
  have self: "tv_idx v \<notin> set (deps_of s (tv_idx v))" using inv_depsD[OF d i] by blast
  note E = finish_execution_shape[OF fe len dist rng self]
  show "tx_at s' j =
      (if j = tv_idx v then (tx_at s j)\<lparr>status := Executed\<rparr>
       else if j \<in> set (deps_of s (tv_idx v))
       then \<lparr>incarnation = inc_of s j + 1, status = ReadyToExecute\<rparr> else tx_at s j)"
    by (rule E(1))
  show "sc_block_size s' = sc_block_size s" "r = None \<or> r = Some (Validation v)"
    using E(6,9) by simp_all
qed


lemma look_at_claim_effect:
  assumes "look_at_claim i s = (p, s')" "sched_shape s"
  shows "sc_block_size s' = sc_block_size s" "validation_idx s' = validation_idx s"
    and "st_of s' j = Executed \<Longrightarrow> st_of s j = Executed"
    and "st_of s' i = Executed \<Longrightarrow> i < sc_block_size s \<Longrightarrow> vfocus p = Some i"
  using assms
  by (auto simp: look_at_claim_def sched_shape_def sched_simps split: if_splits)

lemma try_execute_effect:
  assumes "try_execute i s = (r, s')" "sched_shape s"
  shows "sc_block_size s' = sc_block_size s" "validation_idx s' = validation_idx s"
    and "st_of s' j = Executed \<Longrightarrow> st_of s j = Executed"
  using assms
  by (auto simp: try_execute_def sched_shape_def sched_simps split: if_splits)

lemma vpending_keep: "vpending P i \<Longrightarrow> vfocus (P t) = None \<Longrightarrow> vpending (P(t := p)) i"
  unfolding vpending_def by (metis fun_upd_other option.distinct(1))

lemma inv_val_same:
  assumes "inv_val s P" "sc_block_size s' = sc_block_size s" "validation_idx s' \<le> validation_idx s"
    "\<And>j. j < sc_block_size s \<Longrightarrow> st_of s' j = Executed \<Longrightarrow> st_of s j = Executed"
    "vfocus (P t) = None"
  shows "inv_val s' (P(t := p))"
  using assms by (intro inv_val_update[OF assms(1,2)]) force

lemma worker_step_inv_val:
  assumes step: "worker_step S S'" and inv: "inv_sched (sched S) (pcs S) (finished S)"
    and val: "inv_val (sched S) (pcs S)" and live: "\<not> aborted (sched S')"
  shows "inv_val (sched S') (pcs S')"
proof -
  have sh: "sched_shape (sched S)" and ok: "\<And>t. pc_ok (sched S) (pcs S t)"
    using inv by (simp_all add: inv_sched_def inv_pcs_def)
  show ?thesis
    using step
  proof (cases rule: worker_step.cases)
    case (claim_validation t)
    then show ?thesis
      by (auto intro!: inv_val_update[OF val] simp: tx_at_frame dest: usize_fetch_add_le)
  next
    case (take_validation t i p s')
    note E = look_at_claim_effect[OF take_validation(4) sh]
    show ?thesis unfolding take_validation(1)
      using E take_validation(3) by (auto intro!: inv_val_update[OF val])
  next
    case (claim_execution_idx t)
    then show ?thesis by (auto intro!: inv_val_same[OF val] simp: tx_at_frame)
  next
    case (take_execution t i r s')
    note E = try_execute_effect[OF take_execution(4) sh]
    show ?thesis unfolding take_execution(1)
      using E take_execution(3) by (auto intro!: inv_val_same[OF val])
  next
    case (execution_blocked t v b s')
    have "tv_idx v < length (tx_statuses (sched S))"
      using ok[of t] sh execution_blocked(3) by (simp add: sched_shape_def)
    then show ?thesis unfolding execution_blocked(1)
      using execution_blocked(3,5)
      by (auto intro!: inv_val_same[OF val] simp: add_dependency_def Let_def sched_simps split: if_splits)
  next
    case (execution_fatal t v)
    then show ?thesis using live by (simp add: sched_abort_def)
  next
    case (execution_finished t v flags r s')
    note E = finish_execution_effect[OF inv execution_finished(3,4)]
      and V = finish_execution_validation_idx[OF execution_finished(4)]
    have "inv_val s' ((pcs S)(t := pc_of_task r))"
    proof (rule inv_val_update[OF val])
      fix i assume "i < sc_block_size (sched S)" "st_of s' i = Executed"
        and "st_of (sched S) i \<noteq> Executed \<or> validation_idx (sched S) \<le> i \<or> vfocus (pcs S t) = Some i"
      then have "i = tv_idx v \<or> validation_idx (sched S) \<le> i"
        using execution_finished(3) by (auto simp: E(1) split: if_splits)
      then show "validation_idx s' \<le> i \<or> vfocus (pc_of_task r) = Some i"
        using V E(3,4) by (auto simp: pc_of_task_def)
    qed (rule E(2))
    then show ?thesis unfolding execution_finished(1) by simp
  next
    case (validation_passed t v)
    then show ?thesis by (auto intro!: inv_val_update[OF val])
  next
    case (validation_failed t v ab s')
    have "tv_idx v < length (tx_statuses (sched S))"
      using ok[of t] sh validation_failed(3) by (simp add: sched_shape_def)
    then show ?thesis unfolding validation_failed(1)
      using validation_failed(3,4)
      by (auto intro!: inv_val_update[OF val] simp: try_validation_abort_def Let_def sched_simps
          split: if_splits)
  next
    case (validation_settled t v)
    have "tv_idx v < length (tx_statuses (sched S))"
      using ok[of t] sh validation_settled(3) by (simp add: sched_shape_def)
    then show ?thesis unfolding validation_settled(1)
      using validation_settled(3)
      by (auto intro!: inv_val_update[OF val] simp: mark_validated_def sched_simps split: if_splits)
  next
    case (abort_rescheduled t v)
    have "tv_idx v < length (tx_statuses (sched S))"
      using ok[of t] sh abort_rescheduled(3) by (simp add: sched_shape_def)
    then show ?thesis unfolding abort_rescheduled(1)
      using abort_rescheduled(3)
      by (auto intro!: inv_val_same[OF val] simp: reschedule_aborted_def sched_simps split: if_splits)
  next
    case (abort_retaken t v r s')
    have "sc_block_size s' = sc_block_size (sched S)" "validation_idx s' = validation_idx (sched S)"
      and "\<And>j. st_of s' j = Executed \<Longrightarrow> st_of (sched S) j = Executed"
      using abort_retaken(4) try_execute_effect[OF _ sh]
      by (auto simp: retake_aborted_def split: if_splits prod.splits)
    then show ?thesis unfolding abort_retaken(1)
      using abort_retaken(3) by (auto intro!: inv_val_same[OF val])
  next
    case (worker_leaves t)
    then show ?thesis by (auto intro!: inv_val_same[OF val])
  next
    case (worker_stops t)
    then show ?thesis using live by simp
  qed
qed

lemma reachable_inv_val:
  assumes "reachable n k S" "0 < k" "n < usize_modulus" "\<not> aborted (sched S)"
  shows "inv_val (sched S) (pcs S)"
  using assms(1,4)
proof induction
  case start
  then show ?case by (auto simp: inv_val_def sys_init_def scheduler_new_def tx_at_def index_mutex_def)
next
  case (step S S')
  have "\<not> aborted (sched S)"
    using step.hyps(2) step.prems by (cases rule: worker_step.cases) auto
  then show ?case
    using step worker_step_inv_val reachable_inv[OF step.hyps(1) assms(2,3)]
    by (auto simp: sys_inv_def)
qed

section \<open>Whole handlers are runs of steps\<close>

text \<open>
  A call of \<open>next_task\<close>, taken without interruption, is a run of atomic steps. So the
  properties of reachable states apply to the operations as the code composes them.
\<close>

lemma claim_execution_reachable:
  assumes R: "reachable n k (mk_sys s P F)" and live: "\<not> aborted s" and idle: "P t = Idle"
    and c: "claim_execution s = (r, s')"
  shows "case r of Return task \<Rightarrow> reachable n k (mk_sys s' (P(t := Busy task)) F)
    | _ \<Rightarrow> reachable n k (mk_sys s' (P(t := Idle)) F)"
proof -
  let ?e = "execution_idx s" let ?s = "s\<lparr>execution_idx := usize_fetch_add ?e 1\<rparr>"
  obtain ve where ve: "try_execute ?e ?s = (ve, s')"
      "r = (case ve of Some v \<Rightarrow> Return (Execution v) | None \<Rightarrow> Continue)"
    using c by (auto simp: claim_execution_def Let_def split: prod.splits option.splits)
  have "run_events [ClaimExecution t, TakeExecution t] s P F
      = Some (s', P(t := pc_of_task (map_option Execution ve)), F)"
    using live idle ve(1) by simp
  then have "reachable n k (mk_sys s' (P(t := pc_of_task (map_option Execution ve))) F)"
    by (rule run_events_reachable[OF _ R])
  then show ?thesis using ve(2) by (auto simp: pc_of_task_def split: option.splits)
qed

lemma claim_validation_reachable:
  assumes R: "reachable n k (mk_sys s P F)" and live: "\<not> aborted s" and idle: "P t = Idle"
    and l: "look_at_claim (validation_idx s)
        (s\<lparr>validation_idx := usize_fetch_add (validation_idx s) 1\<rparr>) = (p, s')"
  shows "reachable n k (mk_sys s' (P(t := p)) F)"
proof -
  have "run_events [ClaimValidation t, TakeValidation t] s P F = Some (s', P(t := p), F)"
    using live idle l by simp
  then show ?thesis by (rule run_events_reachable[OF _ R])
qed

lemma next_task_with_reachable:
  assumes R: "reachable n k (mk_sys s P F)" and live: "\<not> aborted s" and idle: "P t = Idle"
    and nt: "next_task_with e v s = (r, s')"
  shows "case r of Return task \<Rightarrow> reachable n k (mk_sys s' (P(t := Busy task)) F)
    | _ \<Rightarrow> reachable n k (mk_sys s' (P(t := Idle)) F)"
proof -
  let ?i = "validation_idx s" let ?s = "s\<lparr>validation_idx := usize_fetch_add ?i 1\<rparr>"
  have P: "P(t := Idle) = P" using idle by auto
  consider (stay) "s' = s" "r = Break \<or> r = Continue"
    | (exec) "claim_execution s = (r, s')"
    | (look) p where "look_at_claim ?i ?s = (p, s')"
        "(p = Idle \<and> r = Continue) \<or> (\<exists>task. p = Busy task \<and> r = Return task)"
    | (both) "look_at_claim ?i ?s = (Idle, ?s)" "claim_execution ?s = (r, s')"
    using nt by (auto simp: next_task_with_def Let_def look_at_claim_def split: if_splits)
  then show ?thesis
  proof cases
    case stay
    then show ?thesis using R P by auto
  next
    case exec
    then show ?thesis by (rule claim_execution_reachable[OF R live idle])
  next
    case look
    then show ?thesis using claim_validation_reachable[OF R live idle look(1)] by auto
  next
    case both
    then have "reachable n k (mk_sys ?s P F)"
      using claim_validation_reachable[OF R live idle both(1)] P by simp
    then show ?thesis by (rule claim_execution_reachable) (use live idle both in simp_all)
  qed
qed

lemma next_task_with_aborted: "next_task_with e v s = (r, s') \<Longrightarrow> aborted s' = aborted s"
  by (auto simp: next_task_with_def claim_execution_def Let_def try_execute_def sched_simps
      split: if_splits prod.splits option.splits)

lemma next_task_run:
  assumes "reachable n k (mk_sys s P F)" "P t = Idle" "next_task fuel s = Some (Some task, s')"
  shows "reachable n k (mk_sys s' (P(t := Busy task)) F)"
  using assms
proof (induction fuel arbitrary: s P)
  case (Suc fuel)
  then have live: "\<not> aborted s" by auto
  obtain r s1 where it: "next_task_iter s = (r, s1)" by force
  note N = next_task_with_reachable[OF Suc.prems(1) live Suc.prems(2)
      it[unfolded next_task_iter_def]]
  show ?case
  proof (cases r)
    case Continue
    moreover have "P(t := Idle) = P" using Suc.prems(2) by auto
    ultimately have "reachable n k (mk_sys s1 P F)" using N by simp
    then show ?thesis by (rule Suc.IH) (use Suc.prems it Continue live in simp_all)
  next
    case (Return task')
    then have "task' = task" "s1 = s'" using Suc.prems(3) it live by simp_all
    then show ?thesis using N unfolding Return by (simp add: fun_upd_def)
  qed (use Suc.prems(3) it live in simp)
qed simp

section \<open>A sample run\<close>

text \<open>
  Two transactions and two threads. Thread 1 takes transaction 1 and is blocked by transaction
  0; when thread 0 finishes transaction 0 the dependent is resumed with a new incarnation, is
  executed and validated, and both threads leave.
\<close>

definition sample_blocked :: "event list" where
  "sample_blocked = [ClaimExecution 0, TakeExecution 0, ClaimExecution 1, TakeExecution 1, Blocked 1 0]"

definition sample_resumed :: "event list" where
  "sample_resumed = [Finished 0 WroteNewLocation]"

definition sample_rest :: "event list" where
  "sample_rest = [Passed 0, Settled 0, ClaimExecution 1, TakeExecution 1, Finished 1 WroteNewLocation,
     ClaimValidation 0, TakeValidation 0, Passed 0, Settled 0, Leaves 0, Leaves 1]"

definition sample_run :: "event list \<Rightarrow> sys" where
  "sample_run es =
     (case run_events es (scheduler_new 2) (\<lambda>t. if t < 2 then Idle else Exited) {} of
        Some (s, P, F) \<Rightarrow> mk_sys s P F | None \<Rightarrow> sys_init 2 2)"

lemma sample_run_reachable: "reachable 2 2 (sample_run es)"
proof -
  have "sys_init 2 2 = mk_sys (scheduler_new 2) (\<lambda>t. if t < 2 then Idle else Exited) {}"
    by (simp add: sys_init_def mk_sys_def)
  then show ?thesis
    using run_events_reachable[of es "scheduler_new 2" _ "{}" _ _ _ 2 2] reachable.start[of 2 2]
    by (auto simp: sample_run_def split: option.splits)
qed

lemmas sample_simps = sample_run_def sample_blocked_def sample_resumed_def sample_rest_def mk_sys_def
  scheduler_new_def tx_at_def index_mutex_def version_of_def look_at_claim_def try_execute_def
  set_tx_status_def usize_fetch_add_def usize_modulus_def add_dependency_def finish_execution_def
  resume_dependents_def resume_dependent_def set_ready_status_def settle_execution_def Let_def
  lower_validation_idx_def count_validated_def mark_validated_def pc_of_task_def exit_condition_def
  is_done_def upt_rec[of 0 2] upt_rec[of 1 2] upt_rec[of "Suc 0" 2] flags_contains_def WroteNewLocation_def NeedValidation_def

lemma sample_blocked_state:
  "sample_run sample_blocked = \<lparr>sched = \<lparr>sc_block_size = 2,
     tx_statuses = [\<lparr>incarnation = 0, status = Executing\<rparr>, \<lparr>incarnation = 0, status = Aborted\<rparr>],
     tx_dependency = [[1], []], execution_idx = 2, validation_idx = 2, min_validation_idx = 2,
     num_validated = 0, aborted = False\<rparr>,
     pcs = (\<lambda>t. if t < 2 then Idle else Exited)(0 := Busy (Execution \<lparr>tv_idx = 0, tv_incarnation = 0\<rparr>), 1 := Idle),
     finished = {}\<rparr>"
  by (simp add: sample_simps)

lemma sample_resumed_state:
  "sample_run (sample_blocked @ sample_resumed) = \<lparr>sched = \<lparr>sc_block_size = 2,
     tx_statuses = [\<lparr>incarnation = 0, status = Executed\<rparr>, \<lparr>incarnation = 1, status = ReadyToExecute\<rparr>],
     tx_dependency = [[], []], execution_idx = 1, validation_idx = 1, min_validation_idx = 0,
     num_validated = 0, aborted = False\<rparr>,
     pcs = (\<lambda>t. if t < 2 then Idle else Exited)(1 := Idle, 0 := Busy (Validation \<lparr>tv_idx = 0, tv_incarnation = 0\<rparr>)),
     finished = {\<lparr>tv_idx = 0, tv_incarnation = 0\<rparr>}\<rparr>"
  by (simp add: sample_simps)

lemma sample_final_state:
  "sample_run (sample_blocked @ sample_resumed @ sample_rest) = \<lparr>sched = \<lparr>sc_block_size = 2,
     tx_statuses = [\<lparr>incarnation = 0, status = Validated\<rparr>, \<lparr>incarnation = 1, status = Validated\<rparr>],
     tx_dependency = [[], []], execution_idx = 2, validation_idx = 2, min_validation_idx = 0,
     num_validated = 2, aborted = False\<rparr>,
     pcs = (\<lambda>_. Exited),
     finished = {\<lparr>tv_idx = 1, tv_incarnation = 1\<rparr>, \<lparr>tv_idx = 0, tv_incarnation = 0\<rparr>}\<rparr>"
  by (simp add: sample_simps fun_eq_iff)

section \<open>Properties over all interleavings\<close>

lemma distinct_count_list: "distinct xs \<Longrightarrow> x \<in> set xs \<Longrightarrow> count_list xs x = 1"
  by (induction xs) (auto simp: count_list_0_iff)

text \<open>
  C3 (all_validated_on_exit). When all worker threads have left \<open>next_task\<close> and the scheduler
  was not aborted, every transaction of the block is validated and the counter of validated
  transactions is the size of the block, whatever the interleaving and whatever the virtual
  machine and the validations returned.
\<close>

theorem all_validated_on_exit:
  assumes "reachable n k S" "0 < k" "n < usize_modulus" "\<not> aborted (sched S)"
    and "\<And>t. pcs S t = Exited"
  shows "(\<forall>i < n. st_of (sched S) i = Validated) \<and> num_validated (sched S) = n"
proof -
  have inv: "sys_inv n S" by (rule reachable_inv[OF assms(1-3)])
  then have v: "\<forall>i < n. st_of (sched S) i = Validated"
    using assms(4,5) by (auto simp: sys_inv_def inv_quiet_def)
  then have "{i. i < n \<and> st_of (sched S) i = Validated} = {..<n}" by auto
  then show ?thesis
    using inv v assms(4) by (auto simp: sys_inv_def inv_sched_def inv_counts_def)
qed

theorem all_validated_on_exit_witness:
  "num_validated (sched (sample_run (sample_blocked @ sample_resumed @ sample_rest))) = 2"
  using all_validated_on_exit[OF sample_run_reachable,
      of "sample_blocked @ sample_resumed @ sample_rest"]
  by (simp add: sample_final_state usize_modulus_def)

text \<open>
  C4 (executing_has_one_owner). A transaction has status \<open>Executing\<close> exactly when there is
  one and only one thread running it, and that thread runs its current incarnation: the same
  transaction is never executed by two threads at once.
\<close>

theorem executing_has_one_owner:
  assumes "reachable n k S" "0 < k" "n < usize_modulus" "\<not> aborted (sched S)" "i < n"
  shows "st_of (sched S) i = Executing \<longleftrightarrow>
    (\<exists>!t. pcs S t = Busy (Execution (version_of (sched S) i)))"
proof -
  have inv: "inv_sched (sched S) (pcs S) (finished S)" and n: "sc_block_size (sched S) = n"
    using reachable_inv[OF assms(1-3)] assms(4) by (simp_all add: sys_inv_def)
  then have pcs: "inv_pcs (sched S) (pcs S)" and own: "inv_owned (sched S) (pcs S)"
    by (simp_all add: inv_sched_def)
  let ?v = "version_of (sched S) i"
  have one: "t = t'" if "pcs S t = Busy (Execution ?v)" "pcs S t' = Busy (Execution ?v)" for t t'
  proof -
    have "owned (pcs S t) = Some i" "owned (pcs S t') = Some i" using that by simp_all
    then show ?thesis using pcs unfolding inv_pcs_def by blast
  qed
  have "\<exists>t. pcs S t = Busy (Execution ?v)" if st: "st_of (sched S) i = Executing"
  proof -
    obtain t where t: "owned (pcs S t) = Some i"
      using own st n assms(5) by (auto simp: inv_owned_def held_def)
    have "pc_ok (sched S) (pcs S t)" using pcs by (simp add: inv_pcs_def)
    with t st show ?thesis
      by (cases "pcs S t" rule: owned.cases) (auto simp: version_of_def intro!: exI[of _ t])
  qed
  moreover have "st_of (sched S) i = Executing" if "pcs S t = Busy (Execution ?v)" for t
  proof -
    have "pc_ok (sched S) (pcs S t)" using pcs by (simp add: inv_pcs_def)
    then have "tx_at (sched S) i = \<lparr>incarnation = inc_of (sched S) i, status = Executing\<rparr>"
      using that by simp
    then show ?thesis by (metis tx_status.select_convs(2))
  qed
  ultimately show ?thesis using one by blast
qed

theorem executing_has_one_owner_witness:
  "\<exists>!t. pcs (sample_run sample_blocked) t = Busy (Execution \<lparr>tv_idx = 0, tv_incarnation = 0\<rparr>)"
  using executing_has_one_owner[OF sample_run_reachable, of sample_blocked 0]
  by (simp add: sample_blocked_state usize_modulus_def tx_at_def index_mutex_def version_of_def)

text \<open>
  C5 (aborted_not_lost). No wake-up is lost: an aborted transaction is either in the hands of
  the thread whose validation aborted it, which is about to make it ready again, or it is
  registered exactly once, as a dependent of one lower transaction that has not been executed
  yet and will resume it.
\<close>

theorem aborted_not_lost:
  assumes "reachable n k S" "0 < k" "n < usize_modulus" "\<not> aborted (sched S)"
    and "i < n" "st_of (sched S) i = Aborted"
  shows "(\<exists>t v. pcs S t = Aborting v \<and> tv_idx v = i)
    \<or> (\<exists>b < i. i \<in> set (deps_of (sched S) b) \<and> \<not> is_done (st_of (sched S) b)
        \<and> count_list (concat (tx_dependency (sched S))) i = 1)"
proof -
  have inv: "inv_sched (sched S) (pcs S) (finished S)" and n: "sc_block_size (sched S) = n"
    using reachable_inv[OF assms(1-3)] assms(4) by (simp_all add: sys_inv_def)
  then have sh: "sched_shape (sched S)" and pcs: "inv_pcs (sched S) (pcs S)"
    and own: "inv_owned (sched S) (pcs S)" and deps: "inv_deps (sched S)"
    by (simp_all add: inv_sched_def)
  consider (wait) "waiting (sched S) i" | (held) "held (pcs S) i"
    using own n assms(5,6) by (auto simp: inv_owned_def)
  then show ?thesis
  proof cases
    case wait
    then obtain b where b: "b < n" "i \<in> set (deps_of (sched S) b)" using n by (auto simp: waiting_def)
    then have "b < i" "\<not> is_done (st_of (sched S) b)" using inv_depsD[OF deps, of b i] n by simp_all
    moreover have "count_list (concat (tx_dependency (sched S))) i = 1"
      using waiting_concat[OF sh, of i] wait inv_deps_distinct[OF deps]
      by (metis distinct_count_list)
    ultimately show ?thesis using b by blast
  next
    case held
    then obtain t where t: "owned (pcs S t) = Some i" by (auto simp: held_def)
    have "pc_ok (sched S) (pcs S t)" using pcs by (simp add: inv_pcs_def)
    then show ?thesis using t assms(6) by (cases "pcs S t" rule: owned.cases) auto
  qed
qed

theorem aborted_not_lost_witness:
  "\<exists>b < 1. 1 \<in> set (deps_of (sched (sample_run sample_blocked)) b)"
  using aborted_not_lost[OF sample_run_reachable, of sample_blocked 1]
  by (auto simp: sample_blocked_state usize_modulus_def tx_at_def index_mutex_def split: if_splits)




definition sample_second :: "event list" where
  "sample_second = sample_blocked @ sample_resumed @ [ClaimExecution 1, TakeExecution 1]"

lemma sample_second_pc:
  "pcs (sample_run sample_second) 1 = Busy (Execution \<lparr>tv_idx = 1, tv_incarnation = 1\<rparr>)"
  "\<not> aborted (sched (sample_run sample_second))"
  by (simp_all add: sample_second_def sample_simps)


text \<open>
  C31 (num_validated_exact). The counter \<open>num_validated\<close> is exactly the number of validated
  transactions; in particular its decrements never wrap around.
\<close>

theorem num_validated_exact:
  assumes "reachable n k S" "0 < k" "n < usize_modulus" "\<not> aborted (sched S)"
  shows "num_validated (sched S) = card {i. i < n \<and> st_of (sched S) i = Validated}
    \<and> num_validated (sched S) \<le> n"
proof -
  have "num_validated (sched S) = card {i. i < n \<and> st_of (sched S) i = Validated}"
    using reachable_inv[OF assms(1-3)] assms(4) by (auto simp: sys_inv_def inv_sched_def inv_counts_def)
  then show ?thesis using card_below by metis
qed

theorem num_validated_exact_witness:
  "num_validated (sched (sample_run sample_blocked))
     = card {i. i < 2 \<and> st_of (sched (sample_run sample_blocked)) i = Validated}"
  using num_validated_exact[OF sample_run_reachable, of sample_blocked]
  by (simp add: sample_blocked_state usize_modulus_def)

text \<open>
  C6 (waiting_threads_may_leave). The waiting loop of \<open>next_task\<close> does not deadlock: when no
  thread holds a task any more and both counters are past the end of the block, the condition
  on which \<open>next_task\<close> returns \<open>None\<close> holds.
\<close>

theorem waiting_threads_may_leave:
  assumes "reachable n k S" "0 < k" "n < usize_modulus" "\<not> aborted (sched S)"
    and "\<And>t. pcs S t = Idle \<or> pcs S t = Exited"
    and "n \<le> execution_idx (sched S)" "n \<le> validation_idx (sched S)"
  shows "next_task (Suc fuel) (sched S) = Some (None, sched S)"
proof -
  have inv: "inv_sched (sched S) (pcs S) (finished S)" and n: "sc_block_size (sched S) = n"
    using reachable_inv[OF assms(1-3)] assms(4) by (simp_all add: sys_inv_def)
  have idle: "pcs S t = Exited \<or> pcs S t = Idle" for t using assms(5) by blast
  have finished: "is_done (st_of (sched S) i)" if "i < n" for i
    using quiescent_all_done[OF inv idle] assms(6) n that by simp
  have "\<not> vpending (pcs S) i" for i
    unfolding vpending_def using assms(5) by (metis vfocus.simps(4,9) option.distinct(1))
  then have "st_of (sched S) i \<noteq> Executed" if "i < n" for i
    using reachable_inv_val[OF assms(1-4)] that assms(7) n by (auto simp: inv_val_def)
  then have "{i. i < n \<and> st_of (sched S) i = Validated} = {..<n}"
    using finished by (auto simp: is_done_def)
  then have "num_validated (sched S) = n"
    using inv n by (simp add: inv_sched_def inv_counts_def)
  then show ?thesis using assms(4,6,7) n by (simp add: next_task_iter_def next_task_with_def)
qed

theorem waiting_threads_may_leave_witness:
  "next_task 1 (sched (sample_run (sample_blocked @ sample_resumed @ sample_rest)))
     = Some (None, sched (sample_run (sample_blocked @ sample_resumed @ sample_rest)))"
  using waiting_threads_may_leave[OF sample_run_reachable,
      of "sample_blocked @ sample_resumed @ sample_rest" 0]
  by (simp add: sample_final_state usize_modulus_def)



end
