(* ===== verification/Task_Graph.thy ===== *)
theory Task_Graph
  imports Types
begin

text \<open>
  The task providers of \<open>crates/pe/src/scheduler.rs\<close>: \<open>TransactionsGraph\<close>, the trait
  \<open>TaskProvider\<close> (locale \<open>task_provider\<close>) and its two implementations \<open>DAGProvider\<close> and
  \<open>NormalProvider\<close>. A panic of the source is the value \<open>None\<close>.

  The bounded queue \<open>crossbeam::queue::ArrayQueue\<close> is not part of the repository. It is a
  record of operations \<open>queue_ops\<close>, and \<open>array_queue\<close> states its documented behaviour: creation
  panics for capacity 0, \<open>push\<close> gives the element back when the queue is full, \<open>pop\<close> takes the
  oldest element.
\<close>

section \<open>The bounded queue\<close>

record 'q queue_ops =
  aq_new :: "nat \<Rightarrow> 'q option"
  aq_push :: "nat \<Rightarrow> 'q \<Rightarrow> nat + 'q"
  aq_pop :: "'q \<Rightarrow> nat option \<times> 'q"

definition array_queue :: "'q queue_ops \<Rightarrow> ('q \<Rightarrow> nat list) \<Rightarrow> ('q \<Rightarrow> nat) \<Rightarrow> bool" where
  "array_queue ops items cap \<longleftrightarrow>
     aq_new ops 0 = None
     \<and> (\<forall>c > 0. \<exists>q. aq_new ops c = Some q \<and> items q = [] \<and> cap q = c)
     \<and> (\<forall>q x. if length (items q) < cap q
              then \<exists>q'. aq_push ops x q = Inr q' \<and> items q' = items q @ [x] \<and> cap q' = cap q
              else aq_push ops x q = Inl x)
     \<and> (\<forall>q. items q = [] \<longrightarrow> aq_pop ops q = (None, q))
     \<and> (\<forall>q x xs. items q = x # xs \<longrightarrow>
          (\<exists>q'. aq_pop ops q = (Some x, q') \<and> items q' = xs \<and> cap q' = cap q))"

section \<open>The transaction graph\<close>

record 'q transactions_graph =
  tg_block_size :: nat
  num_done :: nat
  tg_queue :: 'q
  degree :: "nat list"
  dependency :: "nat list list"

text \<open>\<open>queue.push(i).unwrap()\<close>: panics when the queue is full.\<close>

definition tg_enqueue :: "'q queue_ops \<Rightarrow> nat \<Rightarrow> 'q transactions_graph \<Rightarrow> 'q transactions_graph option" where
  "tg_enqueue ops i g =
     (case aq_push ops i (tg_queue g) of Inl _ \<Rightarrow> None | Inr q \<Rightarrow> Some (g\<lparr>tg_queue := q\<rparr>))"

definition tg_add_dependency ::
    "nat \<Rightarrow> nat \<Rightarrow> 'q transactions_graph \<Rightarrow> 'q transactions_graph option" where
  "tg_add_dependency tx_idx blocking_tx_idx g =
     (let g' = g\<lparr>dependency := (dependency g)
                   [blocking_tx_idx := index_mutex (dependency g) blocking_tx_idx @ [tx_idx]]\<rparr>
      in if tx_idx < length (degree g')
         then Some (g'\<lparr>degree := (degree g')[tx_idx := usize_fetch_add (degree g' ! tx_idx) 1]\<rparr>)
         else None)"

fun tg_add_all :: "(nat \<times> nat) list \<Rightarrow> 'q transactions_graph \<Rightarrow> 'q transactions_graph option" where
  "tg_add_all [] g = Some g"
| "tg_add_all ((tx_idx, blocking_tx_idx) # ds) g =
     (case tg_add_dependency tx_idx blocking_tx_idx g of None \<Rightarrow> None | Some g' \<Rightarrow> tg_add_all ds g')"

definition tg_new :: "'q queue_ops \<Rightarrow> nat \<Rightarrow> (nat \<times> nat) list \<Rightarrow> 'q transactions_graph option" where
  "tg_new ops block_size dependencies =
     (case aq_new ops block_size of
        None \<Rightarrow> None
      | Some q \<Rightarrow> tg_add_all dependencies
          \<lparr>tg_block_size = block_size, num_done = 0, tg_queue = q,
           degree = map (\<lambda>_. 0) [0..<block_size], dependency = map (\<lambda>_. []) [0..<block_size]\<rparr>)"

fun tg_init_loop :: "'q queue_ops \<Rightarrow> nat list \<Rightarrow> 'q transactions_graph \<Rightarrow> 'q transactions_graph option" where
  "tg_init_loop ops [] g = Some g"
| "tg_init_loop ops (i # is) g =
     (if degree g ! i = 0
      then (case tg_enqueue ops i g of None \<Rightarrow> None | Some g' \<Rightarrow> tg_init_loop ops is g')
      else tg_init_loop ops is g)"

definition tg_init :: "'q queue_ops \<Rightarrow> 'q transactions_graph \<Rightarrow> 'q transactions_graph option" where
  "tg_init ops g = tg_init_loop ops [0..<tg_block_size g] g"

text \<open>
  The loop of \<open>remove_dependency\<close>: \<open>fetch_sub\<close> returns the previous degree, which is compared
  with 0.
\<close>

fun tg_release :: "'q queue_ops \<Rightarrow> nat list \<Rightarrow> 'q transactions_graph \<Rightarrow> 'q transactions_graph option" where
  "tg_release ops [] g = Some g"
| "tg_release ops (txid # ts) g =
     (if txid < length (degree g) then
        (let d = degree g ! txid;
             g' = g\<lparr>degree := (degree g)[txid := usize_fetch_sub d 1]\<rparr>
         in if d = 0
            then (case tg_enqueue ops txid g' of None \<Rightarrow> None | Some g'' \<Rightarrow> tg_release ops ts g'')
            else tg_release ops ts g')
      else None)"

definition tg_remove_dependency ::
    "'q queue_ops \<Rightarrow> nat \<Rightarrow> 'q transactions_graph \<Rightarrow> 'q transactions_graph option" where
  "tg_remove_dependency ops blocking_tx_idx g =
     (case tg_release ops (index_mutex (dependency g) blocking_tx_idx) g of
        None \<Rightarrow> None
      | Some g' \<Rightarrow> Some (g'\<lparr>dependency := (dependency g')[blocking_tx_idx := []]\<rparr>))"

definition tg_pop :: "'q queue_ops \<Rightarrow> 'q transactions_graph \<Rightarrow> nat option \<times> 'q transactions_graph" where
  "tg_pop ops g =
     (case aq_pop ops (tg_queue g) of
        (Some txid, q) \<Rightarrow>
          (Some txid, g\<lparr>tg_queue := q, num_done := usize_fetch_sub (num_done g) 1\<rparr>)
      | (None, q) \<Rightarrow> (None, g\<lparr>tg_queue := q\<rparr>))"

section \<open>The providers\<close>

definition dag_provider_new :: "'q queue_ops \<Rightarrow> nat \<Rightarrow> 'q transactions_graph option" where
  "dag_provider_new ops block_size =
     (case tg_new ops block_size [] of None \<Rightarrow> None | Some g \<Rightarrow> tg_init ops g)"

definition dag_next_task :: "'q queue_ops \<Rightarrow> 'q transactions_graph \<Rightarrow> nat option \<times> 'q transactions_graph" where
  "dag_next_task ops g = tg_pop ops g"

definition dag_finish_task :: "'q queue_ops \<Rightarrow> nat \<Rightarrow> 'q transactions_graph \<Rightarrow> 'q transactions_graph option" where
  "dag_finish_task ops i g = tg_remove_dependency ops i g"

definition dag_num_tasks :: "'q transactions_graph \<Rightarrow> nat" where
  "dag_num_tasks g = tg_block_size g"

record normal_provider =
  np_block_size :: nat
  np_execution_idx :: nat

definition normal_provider_new :: "nat \<Rightarrow> normal_provider" where
  "normal_provider_new block_size = \<lparr>np_block_size = block_size, np_execution_idx = 0\<rparr>"

definition normal_next_task :: "normal_provider \<Rightarrow> nat option \<times> normal_provider" where
  "normal_next_task p =
     (let idx = np_execution_idx p;
          p' = p\<lparr>np_execution_idx := usize_fetch_add idx 1\<rparr>
      in if idx < np_block_size p then (Some idx, p') else (None, p'))"

definition normal_finish_task :: "nat \<Rightarrow> normal_provider \<Rightarrow> normal_provider option" where
  "normal_finish_task i p = Some p"

definition normal_num_tasks :: "normal_provider \<Rightarrow> nat" where
  "normal_num_tasks p = np_block_size p"

text \<open>
  A client that takes a task, finishes it, and takes the next one, \<open>m\<close> times, and the list of
  what it was given.
\<close>

fun drain :: "('s \<Rightarrow> nat option \<times> 's) \<Rightarrow> (nat \<Rightarrow> 's \<Rightarrow> 's option) \<Rightarrow> nat \<Rightarrow> 's \<Rightarrow> nat option list option" where
  "drain nxt fin 0 s = Some []"
| "drain nxt fin (Suc m) s =
     (case nxt s of
        (None, s') \<Rightarrow> map_option (Cons None) (drain nxt fin m s')
      | (Some i, s') \<Rightarrow> (case fin i s' of
                          None \<Rightarrow> None
                        | Some s'' \<Rightarrow> map_option (Cons (Some i)) (drain nxt fin m s'')))"

section \<open>The contract of a provider\<close>

text \<open>
  \<open>pending s\<close> is the list of tasks the provider is still going to hand out, and \<open>calls s k\<close>
  says that at least \<open>k\<close> more calls of \<open>next_task\<close> are covered by the contract (an atomic
  counter wraps around after \<open>2 ^ 64\<close> of them).
\<close>

locale task_provider =
  fixes next_tsk :: "'s \<Rightarrow> nat option \<times> 's"
    and finish_tsk :: "nat \<Rightarrow> 's \<Rightarrow> 's option"
    and num_tsks :: "'s \<Rightarrow> nat"
    and pending :: "'s \<Rightarrow> nat list"
    and calls :: "'s \<Rightarrow> nat \<Rightarrow> bool"
  assumes next_none: "calls s (Suc k) \<Longrightarrow> pending s = [] \<Longrightarrow>
        fst (next_tsk s) = None \<and> pending (snd (next_tsk s)) = []"
    and next_some: "calls s (Suc k) \<Longrightarrow> pending s = x # xs \<Longrightarrow>
        fst (next_tsk s) = Some x \<and> pending (snd (next_tsk s)) = xs"
    and next_calls: "calls s (Suc k) \<Longrightarrow> calls (snd (next_tsk s)) k"
    and next_num: "calls s (Suc k) \<Longrightarrow> num_tsks (snd (next_tsk s)) = num_tsks s"
    and finish_ok: "calls s k \<Longrightarrow> i < num_tsks s \<Longrightarrow>
        \<exists>s'. finish_tsk i s = Some s' \<and> pending s' = pending s \<and> calls s' k \<and> num_tsks s' = num_tsks s"
begin

lemma drain_pending:
  "calls s m \<Longrightarrow> \<forall>i \<in> set (pending s). i < num_tsks s \<Longrightarrow>
   drain next_tsk finish_tsk m s = Some (map Some (take m (pending s)) @ replicate (m - length (pending s)) None)"
proof (induction m arbitrary: s)
  case (Suc m)
  obtain r s' where n: "next_tsk s = (r, s')" by force
  show ?case
  proof (cases "pending s")
    case Nil
    then show ?thesis
      using next_none[OF Suc.prems(1) Nil] next_calls[OF Suc.prems(1)] Suc.IH[of s'] n by simp
  next
    case (Cons x xs)
    have s': "r = Some x" "pending s' = xs" "calls s' m" "num_tsks s' = num_tsks s"
      using next_some[OF Suc.prems(1) Cons] next_calls[OF Suc.prems(1)] next_num[OF Suc.prems(1)] n
      by simp_all
    then obtain s'' where f: "finish_tsk x s' = Some s''" "pending s'' = xs" "calls s'' m"
        "num_tsks s'' = num_tsks s"
      using finish_ok[of s' m x] Suc.prems(2) Cons by auto
    have "drain next_tsk finish_tsk m s'' = Some (map Some (take m xs) @ replicate (m - length xs) None)"
      using Suc.IH[of s''] f Suc.prems(2) Cons by simp
    then show ?thesis using n s'(1) f(1) Cons by simp
  qed
qed simp

end

section \<open>The normal provider\<close>

definition np_pending :: "normal_provider \<Rightarrow> nat list" where
  "np_pending p = [np_execution_idx p..<np_block_size p]"

definition np_calls :: "normal_provider \<Rightarrow> nat \<Rightarrow> bool" where
  "np_calls p k \<longleftrightarrow> np_execution_idx p + k < usize_modulus"

interpretation np: task_provider normal_next_task normal_finish_task normal_num_tasks
  np_pending np_calls
proof unfold_locales
  fix s :: normal_provider and k x :: nat and xs :: "nat list"
  assume c: "np_calls s (Suc k)"
  then have [simp]: "usize_fetch_add (np_execution_idx s) (Suc 0) = Suc (np_execution_idx s)"
    by (simp add: np_calls_def usize_fetch_add_small)
  show "fst (normal_next_task s) = None \<and> np_pending (snd (normal_next_task s)) = []"
    if "np_pending s = []"
    using that by (auto simp: np_pending_def normal_next_task_def Let_def)
  show "fst (normal_next_task s) = Some x \<and> np_pending (snd (normal_next_task s)) = xs"
    if "np_pending s = x # xs"
    using that by (auto simp: np_pending_def normal_next_task_def Let_def upt_eq_Cons_conv)
  show "np_calls (snd (normal_next_task s)) k"
    using c by (auto simp: np_calls_def normal_next_task_def Let_def)
  show "normal_num_tasks (snd (normal_next_task s)) = normal_num_tasks s"
    by (simp add: normal_num_tasks_def normal_next_task_def Let_def)
qed (auto simp: normal_finish_task_def)

section \<open>The graph provider\<close>

definition tg_pending :: "('q \<Rightarrow> nat list) \<Rightarrow> 'q transactions_graph \<Rightarrow> nat list" where
  "tg_pending items g = items (tg_queue g)"

text \<open>A graph without dependencies, the only kind \<open>DAGProvider::new\<close> builds.\<close>

definition tg_flat :: "'q transactions_graph \<Rightarrow> bool" where
  "tg_flat g \<longleftrightarrow> length (dependency g) = tg_block_size g
     \<and> (\<forall>i < tg_block_size g. dependency g ! i = [])"

lemma array_queueD:
  assumes "array_queue ops items cap"
  shows "aq_new ops 0 = None"
    and "0 < c \<Longrightarrow> \<exists>q. aq_new ops c = Some q \<and> items q = [] \<and> cap q = c"
    and "length (items q) < cap q \<Longrightarrow>
      \<exists>q'. aq_push ops x q = Inr q' \<and> items q' = items q @ [x] \<and> cap q' = cap q"
    and "items q = [] \<Longrightarrow> aq_pop ops q = (None, q)"
    and "items q = x # xs \<Longrightarrow> \<exists>q'. aq_pop ops q = (Some x, q') \<and> items q' = xs \<and> cap q' = cap q"
  using assms unfolding array_queue_def by (simp_all split: if_splits)

lemma dag_task_provider:
  assumes aq: "array_queue ops items cap"
  shows "task_provider (dag_next_task ops) (dag_finish_task ops) dag_num_tasks (tg_pending items)
    (\<lambda>g k. tg_flat g)"
proof
  fix s and x :: nat and xs
  show "fst (dag_next_task ops s) = None \<and> tg_pending items (snd (dag_next_task ops s)) = []"
    if "tg_pending items s = []"
    using that array_queueD(4)[OF aq] by (auto simp: dag_next_task_def tg_pop_def tg_pending_def)
  show "fst (dag_next_task ops s) = Some x \<and> tg_pending items (snd (dag_next_task ops s)) = xs"
    if "tg_pending items s = x # xs"
    using that array_queueD(5)[OF aq] by (force simp: dag_next_task_def tg_pop_def tg_pending_def)
  show "tg_flat (snd (dag_next_task ops s))" if "tg_flat s"
    using that by (auto simp: dag_next_task_def tg_pop_def tg_flat_def split: prod.splits option.splits)
  show "dag_num_tasks (snd (dag_next_task ops s)) = dag_num_tasks s"
    by (auto simp: dag_next_task_def tg_pop_def dag_num_tasks_def split: prod.splits option.splits)
  show "\<exists>s'. dag_finish_task ops i s = Some s' \<and> tg_pending items s' = tg_pending items s
      \<and> tg_flat s' \<and> dag_num_tasks s' = dag_num_tasks s"
    if "tg_flat s" "i < dag_num_tasks s" for i
    using that
    by (auto simp: dag_finish_task_def tg_remove_dependency_def tg_flat_def dag_num_tasks_def
        index_mutex_def tg_pending_def nth_list_update)
qed

lemma tg_init_all:
  assumes aq: "array_queue ops items cap"
    and "length (items (tg_queue g)) + length is \<le> cap (tg_queue g)"
    and "\<forall>i \<in> set is. degree g ! i = 0"
  shows "\<exists>q. tg_init_loop ops is g = Some (g\<lparr>tg_queue := q\<rparr>) \<and> items q = items (tg_queue g) @ is"
  using assms(2-)
proof (induction "is" arbitrary: g)
  case Nil
  show ?case by (intro exI[of _ "tg_queue g"]) simp
next
  case (Cons i "is")
  then obtain q where q: "aq_push ops i (tg_queue g) = Inr q" "items q = items (tg_queue g) @ [i]"
      "cap q = cap (tg_queue g)"
    using array_queueD(3)[OF aq, of "tg_queue g" i] by auto
  then obtain q' where "tg_init_loop ops is (g\<lparr>tg_queue := q\<rparr>) = Some (g\<lparr>tg_queue := q'\<rparr>)"
      "items q' = items q @ is"
    using Cons.IH[of "g\<lparr>tg_queue := q\<rparr>"] Cons.prems by auto
  then show ?case using q Cons.prems by (auto simp: tg_enqueue_def)
qed

lemma dag_provider_new_state:
  assumes aq: "array_queue ops items cap" and n: "0 < n"
  shows "\<exists>g. dag_provider_new ops n = Some g \<and> tg_flat g \<and> tg_block_size g = n
    \<and> tg_pending items g = [0..<n] \<and> num_done g = 0"
proof -
  obtain q where q: "aq_new ops n = Some q" "items q = []" "cap q = n"
    using array_queueD(2)[OF aq n] by blast
  let ?g = "\<lparr>tg_block_size = n, num_done = 0, tg_queue = q, degree = map (\<lambda>_. 0) [0..<n],
    dependency = map (\<lambda>_. []) [0..<n]\<rparr>"
  have "\<exists>q'. tg_init_loop ops [0..<n] ?g = Some (?g\<lparr>tg_queue := q'\<rparr>) \<and> items q' = [] @ [0..<n]"
    using tg_init_all[OF aq, of ?g "[0..<n]"] q by simp
  then show ?thesis
    using q by (auto simp: dag_provider_new_def tg_new_def tg_init_def tg_flat_def tg_pending_def)
qed

text \<open>The releases of \<open>remove_dependency\<close>, when the degrees count the registered dependencies.\<close>

lemma tg_release_counted:
  assumes "\<forall>i. count_list ts i \<le> degree g ! i" "\<forall>i \<in> set ts. i < length (degree g)"
    "\<forall>d \<in> set (degree g). d < usize_modulus"
  shows "\<exists>g'. tg_release ops ts g = Some g' \<and> tg_queue g' = tg_queue g"
  using assms
proof (induction ts arbitrary: g)
  case (Cons t ts)
  have t: "t < length (degree g)" "0 < degree g ! t" "degree g ! t < usize_modulus"
    using Cons.prems(1)[rule_format, of t] Cons.prems(2,3) by auto
  let ?g = "g\<lparr>degree := (degree g)[t := usize_fetch_sub (degree g ! t) 1]\<rparr>"
  have d: "usize_fetch_sub (degree g ! t) 1 = degree g ! t - 1"
    using t by (simp add: usize_fetch_sub_small)
  have "\<forall>i. count_list ts i \<le> degree ?g ! i"
  proof
    fix i show "count_list ts i \<le> degree ?g ! i"
      using Cons.prems(1)[rule_format, of i] t d by (auto simp: nth_list_update split: if_splits)
  qed
  moreover have "\<forall>e \<in> set (degree ?g). e < usize_modulus"
    using Cons.prems(3) t d set_update_subset_insert[of "degree g" t] by fastforce
  ultimately obtain g' where "tg_release ops ts ?g = Some g'" "tg_queue g' = tg_queue g"
    using Cons.IH[of ?g] Cons.prems(2) by auto
  then show ?case using t by (simp add: Let_def)
qed simp

definition tg_counted :: "'q transactions_graph \<Rightarrow> bool" where
  "tg_counted g \<longleftrightarrow> length (degree g) = tg_block_size g \<and> length (dependency g) = tg_block_size g
     \<and> (\<forall>i < tg_block_size g. degree g ! i = count_list (concat (dependency g)) i)
     \<and> (\<forall>i \<in> set (concat (dependency g)). i < tg_block_size g)"

lemma concat_snoc_nth:
  assumes "b < length xss"
  shows "count_list (concat (xss[b := xss ! b @ [x]])) i
      = count_list (concat xss) i + (if x = i then 1 else 0)"
    and "set (concat (xss[b := xss ! b @ [x]])) = insert x (set (concat xss))"
    and "length (concat (xss[b := xss ! b @ [x]])) = length (concat xss) + 1"
  using arg_cong[OF concat_split[OF assms], of "\<lambda>xs. count_list xs i"]
    arg_cong[OF concat_split[OF assms], of set] arg_cong[OF concat_split[OF assms], of length]
  unfolding concat_update_split[OF assms] by (simp_all del: set_concat length_concat)

lemma tg_add_dependency_counted:
  assumes "tg_counted g" "i < tg_block_size g" "b < tg_block_size g"
    "length (concat (dependency g)) + 1 < usize_modulus"
  shows "\<exists>g'. tg_add_dependency i b g = Some g' \<and> tg_counted g' \<and> tg_block_size g' = tg_block_size g
    \<and> length (concat (dependency g')) = length (concat (dependency g)) + 1"
proof -
  let ?d = "(dependency g)[b := dependency g ! b @ [i]]"
  let ?e = "(degree g)[i := degree g ! i + 1]"
  have len: "length (degree g) = tg_block_size g" "length (dependency g) = tg_block_size g"
    using assms(1) by (simp_all add: tg_counted_def)
  have deg: "degree g ! j = count_list (concat (dependency g)) j" if "j < tg_block_size g" for j
    using assms(1) that by (simp add: tg_counted_def)
  have "count_list (concat (dependency g)) i \<le> length (concat (dependency g))" by (rule count_le_length)
  then have f: "usize_fetch_add (degree g ! i) 1 = degree g ! i + 1"
    using assms(4) deg[OF assms(2)] by (intro usize_fetch_add_small) linarith
  note upd = concat_snoc_nth[of b "dependency g" i] assms(3) len
  have "?e ! j = count_list (concat ?d) j" if "j < tg_block_size g" for j
    using upd deg[OF that] that assms(2) by (auto simp: nth_list_update)
  moreover have "\<forall>j \<in> set (concat ?d). j < tg_block_size g"
    using upd(2) assms(1,2,3) len by (simp add: tg_counted_def)
  moreover have "tg_add_dependency i b g = Some (g\<lparr>dependency := ?d, degree := ?e\<rparr>)"
    using f assms(2) len by (simp add: tg_add_dependency_def Let_def index_mutex_def)
  moreover have "length (concat ?d) = length (concat (dependency g)) + 1" using upd by simp
  ultimately show ?thesis using len unfolding tg_counted_def by (intro exI[of _ "g\<lparr>dependency := ?d, degree := ?e\<rparr>"]) (simp del: set_concat length_concat)
qed

lemma tg_add_all_counted:
  assumes "tg_counted g" "\<forall>(i, b) \<in> set ds. i < tg_block_size g \<and> b < tg_block_size g"
    "length (concat (dependency g)) + length ds < usize_modulus"
  shows "\<exists>g'. tg_add_all ds g = Some g' \<and> tg_counted g' \<and> tg_block_size g' = tg_block_size g
    \<and> length (concat (dependency g')) < usize_modulus"
  using assms
proof (induction ds arbitrary: g)
  case (Cons d ds)
  obtain i b where d: "d = (i, b)" by force
  obtain g1 where g1: "tg_add_dependency i b g = Some g1" "tg_counted g1"
      "tg_block_size g1 = tg_block_size g"
      "length (concat (dependency g1)) = length (concat (dependency g)) + 1"
    using tg_add_dependency_counted[of g i b] Cons.prems d by (auto simp del: length_concat)
  then show ?case using Cons.IH[of g1] Cons.prems d by (auto simp del: length_concat)
qed (auto simp del: length_concat)

lemma tg_remove_dependency_queue:
  assumes "tg_counted g" "b < tg_block_size g" "length (concat (dependency g)) < usize_modulus"
  shows "\<exists>g'. tg_remove_dependency ops b g = Some g' \<and> tg_queue g' = tg_queue g"
proof -
  let ?ts = "dependency g ! b"
  have len: "b < length (dependency g)" "length (degree g) = tg_block_size g"
    using assms by (simp_all add: tg_counted_def)
  have deg: "degree g ! j = count_list (concat (dependency g)) j" if "j < tg_block_size g" for j
    using assms(1) that by (simp add: tg_counted_def)
  have ts: "i < tg_block_size g" if "i \<in> set ?ts" for i
    using assms(1) that nth_mem[OF len(1)] by (auto simp: tg_counted_def)
  have "count_list ?ts i \<le> degree g ! i" for i
  proof (cases "i \<in> set ?ts")
    case True
    then show ?thesis using deg[OF ts[OF True]] concat_split[OF len(1)] by simp
  qed (simp add: count_notin)
  moreover have "d < usize_modulus" if "d \<in> set (degree g)" for d
  proof -
    obtain j where "j < tg_block_size g" "d = degree g ! j" using \<open>d \<in> _\<close> len by (auto simp: in_set_conv_nth)
    then show ?thesis using deg assms(3) count_le_length[of "concat (dependency g)" j] by simp
  qed
  ultimately obtain g' where "tg_release ops ?ts g = Some g'" "tg_queue g' = tg_queue g"
    using tg_release_counted[of ?ts g ops] ts len by auto
  then show ?thesis by (simp add: tg_remove_dependency_def index_mutex_def)
qed

section \<open>Properties\<close>

text \<open>A bounded list, an instance of the documented behaviour of the queue.\<close>

definition list_queue :: "(nat list \<times> nat) queue_ops" where
  "list_queue = \<lparr>aq_new = (\<lambda>c. if c = 0 then None else Some ([], c)),
     aq_push = (\<lambda>x (xs, c). if length xs < c then Inr (xs @ [x], c) else Inl x),
     aq_pop = (\<lambda>(xs, c). case xs of [] \<Rightarrow> (None, ([], c)) | y # ys \<Rightarrow> (Some y, (ys, c)))\<rparr>"

lemma list_queue_ok: "array_queue list_queue fst snd"
  by (auto simp: array_queue_def list_queue_def)

text \<open>
  C34 (normal_provider_order). The provider of both parallel executors hands out the
  transactions 0, 1, ..., n - 1 in order, each once, and then nothing, for any number of calls
  below \<open>2 ^ 64\<close>.
\<close>

theorem normal_provider_order:
  assumes "m < usize_modulus"
  shows "drain normal_next_task normal_finish_task m (normal_provider_new n)
    = Some (map Some (take m [0..<n]) @ replicate (m - n) None)"
  using assms np.drain_pending[of "normal_provider_new n" m]
  by (simp add: np_calls_def np_pending_def normal_num_tasks_def normal_provider_new_def)

theorem normal_provider_order_witness:
  "drain normal_next_task normal_finish_task 3 (normal_provider_new 2) = Some [Some 0, Some 1, None]"
  using normal_provider_order[of 3 2] by (simp add: usize_modulus_def upt_rec)

text \<open>
  C35 (dag_provider_order). The graph provider gives the same order for a block that is not
  empty, whatever queue with the documented behaviour it uses; for the empty block its
  constructor panics.
\<close>

theorem dag_provider_order:
  assumes "array_queue ops items cap"
  shows "(dag_provider_new ops n = None \<longleftrightarrow> n = 0)
    \<and> (0 < n \<longrightarrow> drain (dag_next_task ops) (dag_finish_task ops) m (the (dag_provider_new ops n))
        = Some (map Some (take m [0..<n]) @ replicate (m - n) None))"
proof (cases "n = 0")
  case True
  then show ?thesis using array_queueD(1)[OF assms] by (simp add: dag_provider_new_def tg_new_def)
next
  case False
  then obtain g where g: "dag_provider_new ops n = Some g" "tg_flat g" "tg_block_size g = n"
      "tg_pending items g = [0..<n]"
    using dag_provider_new_state[OF assms, of n] by auto
  then show ?thesis
    using False task_provider.drain_pending[OF dag_task_provider[OF assms], of g m]
    by (simp add: dag_num_tasks_def)
qed

theorem dag_provider_order_witness:
  "drain (dag_next_task list_queue) (dag_finish_task list_queue) 3 (the (dag_provider_new list_queue 2))
     = Some [Some 0, Some 1, None]"
  using dag_provider_order[OF list_queue_ok, of 2 3] by (simp add: upt_rec)



text \<open>
  C37 (pop_wraps_num_done). The first task handed out by the graph provider sets \<open>num_done\<close> to
  \<open>2 ^ 64 - 1\<close>: \<open>pop\<close> subtracts from the counter, which starts at 0.
\<close>

theorem pop_wraps_num_done:
  assumes "array_queue ops items cap" "0 < n"
  shows "\<exists>g. dag_provider_new ops n = Some g
    \<and> num_done (snd (dag_next_task ops g)) = usize_modulus - 1"
proof -
  obtain g where g: "dag_provider_new ops n = Some g" "num_done g = 0" "tg_pending items g = [0..<n]"
    using dag_provider_new_state[OF assms] by auto
  then have "items (tg_queue g) = 0 # [1..<n]" using assms(2) by (simp add: tg_pending_def upt_conv_Cons)
  then obtain q where "aq_pop ops (tg_queue g) = (Some 0, q)" using array_queueD(5)[OF assms(1)] by blast
  then show ?thesis
    using g by (simp add: dag_next_task_def tg_pop_def usize_fetch_sub_def usize_modulus_def)
qed

theorem pop_wraps_num_done_witness:
  "\<exists>g. dag_provider_new list_queue 3 = Some g
    \<and> num_done (snd (dag_next_task list_queue g)) = usize_modulus - 1"
  using pop_wraps_num_done[OF list_queue_ok, of 3] by simp

end
