(* ===== verification/Results.thy ===== *)
theory Results
  imports Types
begin

text \<open>
  The error and result types of the executors (\<open>crates/pe/src/result.rs\<close>) and their
  conversions.

  The types of revm and reth they are built from are represented by what this code observes of
  them. \<open>EVMError\<close> has its four variants; of \<open>InvalidTransaction\<close> the variants the code matches
  on are constructors and \<open>InvalidOther\<close> stands for the rest; header errors are kept as text.
  An \<open>ExecutionResult\<close> is the triple its methods \<open>is_success\<close>, \<open>gas_used\<close> and \<open>into_logs\<close>
  return. An \<open>Account\<close> has its info, the two status bits that are read and its storage slots.
  Errors of the underlying database occur only through \<open>to_string\<close>, so they are strings.
\<close>

section \<open>Errors\<close>

datatype db_error = StorageNotFound string

datatype invalid_transaction =
    InvNonceTooHigh u64 u64
  | InvNonceTooLow u64 u64
  | LackOfFundForMaxFee u256 u256
  | InvalidOther string

datatype ('d, 't) evm_error =
    ETransaction 't
  | EHeader string
  | EDatabase 'd
  | ECustom string

datatype read_error =
    StorageError string
  | Blocking nat
  | InconsistentRead
  | NonceTooHigh u64 u64
  | NonceTooLow u64 u64
  | SelfDestructedAccount
  | InvalidValueType

type_synonym execution_error = "(read_error, invalid_transaction) evm_error"

datatype vm_execution_error =
    VmRetry
  | VmFallbackToSequential
  | VmBlocking nat
  | VmExecutionError execution_error

datatype parallel_executor_error =
    NonceMismatch nat u64 u64
  | PeStorageError string
  | PeExecutionError execution_error
  | UnreachableError

datatype abort_reason = AbortFallbackToSequential | AbortExecutionError execution_error

fun vm_error_of_read_error :: "read_error \<Rightarrow> vm_execution_error" where
  "vm_error_of_read_error InconsistentRead = VmRetry"
| "vm_error_of_read_error SelfDestructedAccount = VmFallbackToSequential"
| "vm_error_of_read_error (Blocking tx_idx) = VmBlocking tx_idx"
| "vm_error_of_read_error (NonceTooHigh tx st) = VmExecutionError (ETransaction (InvNonceTooHigh tx st))"
| "vm_error_of_read_error (NonceTooLow tx st) = VmExecutionError (ETransaction (InvNonceTooLow tx st))"
| "vm_error_of_read_error err = VmExecutionError (EDatabase err)"

fun evm_err_to_exec_error :: "(string, invalid_transaction) evm_error \<Rightarrow> parallel_executor_error" where
  "evm_err_to_exec_error (ETransaction err) = PeExecutionError (ETransaction err)"
| "evm_err_to_exec_error (EHeader err) = PeExecutionError (EHeader err)"
| "evm_err_to_exec_error (ECustom err) = PeExecutionError (ECustom err)"
| "evm_err_to_exec_error (EDatabase err) = PeExecutionError (ECustom err)"

datatype op_transaction_error =
    OpBase invalid_transaction
  | DepositSystemTxPostRegolith
  | HaltedDepositPostRegolith
  | MissingEnvelopedTx

fun op_evm_err_to_exec_error :: "(string, op_transaction_error) evm_error \<Rightarrow> parallel_executor_error" where
  "op_evm_err_to_exec_error (ETransaction (OpBase err)) = PeExecutionError (ETransaction err)"
| "op_evm_err_to_exec_error (ETransaction DepositSystemTxPostRegolith) =
     PeExecutionError (ECustom ''DepositSystemTxPostRegolith'')"
| "op_evm_err_to_exec_error (ETransaction HaltedDepositPostRegolith) =
     PeExecutionError (ECustom ''HaltedDepositPostRegolith'')"
| "op_evm_err_to_exec_error (ETransaction MissingEnvelopedTx) =
     PeExecutionError (ECustom ''MissingEnvelopedTx'')"
| "op_evm_err_to_exec_error (EHeader err) = PeExecutionError (EHeader err)"
| "op_evm_err_to_exec_error (ECustom err) = PeExecutionError (ECustom err)"
| "op_evm_err_to_exec_error (EDatabase err) = PeExecutionError (ECustom err)"

section \<open>Results\<close>

type_synonym tx_type = u8
type_synonym log = "u8 list"

record execution_result =
  er_success :: bool
  er_gas_used :: u64
  er_logs :: "log list"

record storage_slot =
  slot_original :: u256
  slot_present :: u256

record account =
  acc_info :: account_info
  acc_touched :: bool
  acc_selfdestructed :: bool
  acc_storage :: "(u256, storage_slot) hashmap"

type_synonym evm_state = "(address, account) hashmap"

record receipt =
  rc_tx_type :: tx_type
  rc_success :: bool
  rc_cumulative_gas_used :: u64
  rc_logs :: "log list"

record tx_execution_result =
  tr_receipt :: receipt
  tr_state :: evm_state

definition from_raw :: "tx_type \<Rightarrow> execution_result \<Rightarrow> evm_state \<Rightarrow> tx_execution_result" where
  "from_raw tx_type result state =
     \<lparr>tr_receipt = \<lparr>rc_tx_type = tx_type, rc_success = er_success result,
        rc_cumulative_gas_used = er_gas_used result, rc_logs = er_logs result\<rparr>,
      tr_state = state\<rparr>"

definition from_raw_op :: "tx_type \<Rightarrow> execution_result \<times> evm_state \<Rightarrow> tx_execution_result" where
  "from_raw_op tx_type result_and_state =
     (case result_and_state of (result, state) \<Rightarrow>
       \<lparr>tr_receipt = \<lparr>rc_tx_type = tx_type, rc_success = er_success result,
          rc_cumulative_gas_used = er_gas_used result, rc_logs = er_logs result\<rparr>,
        tr_state = state\<rparr>)"

record vm_execution_result =
  vr_execution_result :: tx_execution_result
  vr_flags :: finish_exec_flags

type_synonym parallel_executor_result = "parallel_executor_error + tx_execution_result list"

text \<open>
  The running total that both executors write into the receipts:
  \<open>cumulative_gas_used.saturating_add(receipt.cumulative_gas_used)\<close>.
\<close>

definition add_cumulative_gas :: "tx_execution_result \<Rightarrow> u64 \<Rightarrow> u64 \<times> tx_execution_result" where
  "add_cumulative_gas r gas_so_far =
     (let cumulative = saturating_add gas_so_far (rc_cumulative_gas_used (tr_receipt r)) in
      (cumulative, r\<lparr>tr_receipt := (tr_receipt r)\<lparr>rc_cumulative_gas_used := cumulative\<rparr>\<rparr>))"

end
