(* ===== verification/Mv_Memory.thy ===== *)
theory Mv_Memory
  imports Types "HOL-Library.Sublist"
begin

text \<open>
  The multi-version memory (\<open>crates/pe/src/mv_memory.rs\<close>). The record \<open>mv_memory\<close> has the
  fields of \<open>struct MvMemory\<close>: per location the tree of entries by transaction index, per
  transaction the recorded read and write set, the lazily updated addresses and the bytecodes
  deployed in the block. Concurrent hash maps that are only looked up are partial functions;
  the set of lazy addresses, which is iterated, is a list without duplicates in some order.

  \<open>mv_record\<close>, \<open>validate_read_locations\<close> and \<open>convert_writes_to_estimates\<close> are the operations
  of the code with their loops. The lemmas give the entries of every location after each of
  them, the invariant \<open>mv_inv\<close> they keep, and what a validation decides.

  The hash functions are parameters: \<open>hash_deterministic\<close> uses the hasher of another crate.
\<close>

record mv_memory =
  mv_data :: "location_hash \<rightharpoonup> (nat, entry) btree"
  mv_locations :: "read_write_set list"
  lazy_addresses :: "address list"
  new_bytecodes :: "b256 \<rightharpoonup> bytecode"

text \<open>Insertion into a set that is iterated later.\<close>

definition set_insert :: "'a \<Rightarrow> 'a list \<Rightarrow> 'a list" where
  "set_insert x xs = (if x \<in> set xs then xs else xs @ [x])"

definition mv_new :: "nat \<Rightarrow> (location_hash \<times> nat list) list \<Rightarrow> address list \<Rightarrow> mv_memory" where
  "mv_new block_size estimated_locations lazies =
     \<lparr>mv_data = fold (\<lambda>(location_hash, idxs) d.
          d(location_hash \<mapsto> bt_of_list (map (\<lambda>tx_idx. (tx_idx, Estimate)) idxs)))
        estimated_locations Map.empty,
      mv_locations = map (\<lambda>_. read_write_set_default) [0..<block_size],
      lazy_addresses = fold set_insert lazies [],
      new_bytecodes = Map.empty\<rparr>"

definition add_lazy_addresses :: "address list \<Rightarrow> mv_memory \<Rightarrow> mv_memory" where
  "add_lazy_addresses new_lazy_addresses m =
     m\<lparr>lazy_addresses := fold set_insert new_lazy_addresses (lazy_addresses m)\<rparr>"

section \<open>Recording an execution\<close>

text \<open>\<open>SmallVec::swap_remove\<close>: the last element takes the place of the removed one.\<close>

definition swap_remove :: "nat \<Rightarrow> 'a list \<Rightarrow> 'a list" where
  "swap_remove i xs = (butlast xs)[i := last xs]"

definition remove_entry ::
    "nat \<Rightarrow> location_hash \<Rightarrow> (location_hash \<rightharpoonup> (nat, entry) btree) \<Rightarrow> (location_hash \<rightharpoonup> (nat, entry) btree)" where
  "remove_entry tx_idx location d =
     (case d location of
        Some written_txs \<Rightarrow> d(location \<mapsto> bt_remove tx_idx written_txs)
      | None \<Rightarrow> d)"

text \<open>The \<open>while\<close> loop over the locations written by the previous incarnation.\<close>

function record_prune ::
    "nat \<Rightarrow> write_set \<Rightarrow> nat \<Rightarrow> location_hash list \<Rightarrow> (location_hash \<rightharpoonup> (nat, entry) btree)
      \<Rightarrow> location_hash list \<times> (location_hash \<rightharpoonup> (nat, entry) btree)" where
  "record_prune tx_idx ws location_idx wl d =
     (if location_idx < length wl then
        (let prev_location = wl ! location_idx in
         if map_of ws prev_location = None
         then record_prune tx_idx ws location_idx (swap_remove location_idx wl)
                (remove_entry tx_idx prev_location d)
         else record_prune tx_idx ws (location_idx + 1) wl d)
      else (wl, d))"
  by pat_completeness auto
termination
  by (relation "measure (\<lambda>(tx_idx, ws, location_idx, wl, d). length wl - location_idx)")
    (auto simp: swap_remove_def)

declare record_prune.simps [simp del]

definition insert_entry ::
    "nat \<Rightarrow> location_hash \<Rightarrow> entry \<Rightarrow> (location_hash \<rightharpoonup> (nat, entry) btree)
      \<Rightarrow> (location_hash \<rightharpoonup> (nat, entry) btree)" where
  "insert_entry tx_idx location e d =
     d(location \<mapsto> bt_insert tx_idx e (case d location of Some t \<Rightarrow> t | None \<Rightarrow> []))"

text \<open>The \<open>for\<close> loop that registers the new writes.\<close>

fun record_writes ::
    "tx_version \<Rightarrow> write_set \<Rightarrow> location_hash list \<Rightarrow> (location_hash \<rightharpoonup> (nat, entry) btree) \<Rightarrow> bool
      \<Rightarrow> bool \<times> location_hash list \<times> (location_hash \<rightharpoonup> (nat, entry) btree)" where
  "record_writes v [] wl d wrote_new_location = (wrote_new_location, wl, d)"
| "record_writes v ((location, val) # ws) wl d wrote_new_location =
     (let d' = insert_entry (tv_idx v) location (Data (tv_incarnation v) val) d in
      if location \<in> set wl then record_writes v ws wl d' wrote_new_location
      else record_writes v ws (wl @ [location]) d' True)"

definition mv_record :: "tx_version \<Rightarrow> read_set \<Rightarrow> write_set \<Rightarrow> mv_memory \<Rightarrow> bool \<times> mv_memory" where
  "mv_record v read_set write_set m =
     (let locations = index_mutex (mv_locations m) (tv_idx v)
      in case record_prune (tv_idx v) write_set 0 (rw_write locations) (mv_data m) of
           (wl, d) \<Rightarrow>
             (case record_writes v write_set wl d False of
                (wrote_new_location, wl', d') \<Rightarrow>
                  (wrote_new_location,
                   m\<lparr>mv_data := d',
                     mv_locations := (mv_locations m)
                       [tv_idx v := \<lparr>rw_read = read_set, rw_write = wl'\<rparr>]\<rparr>)))"

section \<open>Validation and estimates\<close>

text \<open>The inner loop: the recorded origins against the entries below the reader, from the top.\<close>

fun origins_valid :: "read_origins \<Rightarrow> (nat \<times> entry) list \<Rightarrow> bool" where
  "origins_valid [] it = True"
| "origins_valid (OriginMvMemory v # os) it =
     (case it of
        (closest_idx, Data tx_incarnation _) # it' \<Rightarrow>
          if closest_idx \<noteq> tv_idx v \<or> tv_incarnation v \<noteq> tx_incarnation then False
          else origins_valid os it'
      | _ \<Rightarrow> False)"
| "origins_valid (OriginStorage # os) it =
     (case it of [] \<Rightarrow> origins_valid os [] | _ \<Rightarrow> False)"

definition read_valid ::
    "(location_hash \<rightharpoonup> (nat, entry) btree) \<Rightarrow> nat \<Rightarrow> location_hash \<times> read_origins \<Rightarrow> bool" where
  "read_valid d tx_idx r =
     (case r of (location, prior_origins) \<Rightarrow>
        (case d location of
           Some written_txs \<Rightarrow> origins_valid prior_origins (bt_below tx_idx written_txs)
         | None \<Rightarrow> \<not> (length prior_origins \<noteq> 1 \<or> last prior_origins \<noteq> OriginStorage)))"

definition validate_read_locations :: "nat \<Rightarrow> mv_memory \<Rightarrow> bool" where
  "validate_read_locations tx_idx m =
     list_all (read_valid (mv_data m) tx_idx) (rw_read (index_mutex (mv_locations m) tx_idx))"

definition mark_estimate ::
    "nat \<Rightarrow> location_hash \<Rightarrow> (location_hash \<rightharpoonup> (nat, entry) btree) \<Rightarrow> (location_hash \<rightharpoonup> (nat, entry) btree)" where
  "mark_estimate tx_idx location d =
     (case d location of
        Some written_txs \<Rightarrow> d(location \<mapsto> bt_insert tx_idx Estimate written_txs)
      | None \<Rightarrow> d)"

definition convert_writes_to_estimates :: "nat \<Rightarrow> mv_memory \<Rightarrow> mv_memory" where
  "convert_writes_to_estimates tx_idx m =
     m\<lparr>mv_data := fold (mark_estimate tx_idx) (rw_write (index_mutex (mv_locations m) tx_idx)) (mv_data m)\<rparr>"

definition consume_lazy_addresses :: "mv_memory \<Rightarrow> address list" where
  "consume_lazy_addresses m = lazy_addresses m"

section \<open>Reward policies and construction\<close>

datatype reward_policy_t = Ethereum

record op_reward_policy_t =
  l1_fee_recipient_location_hash :: location_hash
  base_fee_vault_location_hash :: location_hash

definition reward_policy :: reward_policy_t where
  "reward_policy = Ethereum"

definition op_reward_policy :: "(location \<Rightarrow> location_hash) \<Rightarrow> address \<Rightarrow> address \<Rightarrow> op_reward_policy_t" where
  "op_reward_policy hash_location l1_fee_recipient base_fee_recipient =
     \<lparr>l1_fee_recipient_location_hash = hash_location (Basic l1_fee_recipient),
      base_fee_vault_location_hash = hash_location (Basic base_fee_recipient)\<rparr>"

definition build_mv_memory :: "(location \<Rightarrow> location_hash) \<Rightarrow> address \<Rightarrow> 'tx list \<Rightarrow> mv_memory" where
  "build_mv_memory hash_location beneficiary txs =
     (let block_size = length txs;
          beneficiary_location_hash = hash_location (Basic beneficiary)
      in mv_new block_size [(beneficiary_location_hash, [0..<block_size])] [beneficiary])"

text \<open>\<open>entry(k).or_insert_with(..).push(x)\<close> on a hash map of vectors.\<close>

definition hm_push :: "'k \<Rightarrow> 'v \<Rightarrow> ('k \<times> 'v list) list \<Rightarrow> ('k \<times> 'v list) list" where
  "hm_push k x m = AList.update k ((case map_of m k of Some xs \<Rightarrow> xs | None \<Rightarrow> []) @ [x]) m"

text \<open>
  \<open>build_op_mv_memory\<close> hashes the two fee addresses themselves (\<open>hash_address\<close>), not the
  locations \<open>Basic\<close> of them.
\<close>

definition build_op_mv_memory ::
    "(address \<Rightarrow> location_hash) \<Rightarrow> address \<Rightarrow> address \<Rightarrow> address \<Rightarrow> 'tx list \<Rightarrow> mv_memory" where
  "build_op_mv_memory hash_address l1_fee_recipient base_fee_recipient beneficiary txs =
     (let l1_hash = hash_address l1_fee_recipient;
          base_hash = hash_address base_fee_recipient;
          estimated_locations =
            fold (\<lambda>index m. hm_push base_hash index (hm_push l1_hash index m)) [0..<length txs] []
      in mv_new (length txs) estimated_locations
           [beneficiary, l1_fee_recipient, base_fee_recipient])"

section \<open>Entries after each operation\<close>

named_theorems mv_simps \<open>entries of the memory after an operation\<close>

definition entries_of :: "(location_hash \<rightharpoonup> (nat, entry) btree) \<Rightarrow> location_hash \<Rightarrow> (nat, entry) btree" where
  "entries_of d loc = (case d loc of Some t \<Rightarrow> t | None \<Rightarrow> [])"

definition entry_at :: "(location_hash \<rightharpoonup> (nat, entry) btree) \<Rightarrow> location_hash \<Rightarrow> nat \<Rightarrow> entry option" where
  "entry_at d loc i = map_of (entries_of d loc) i"

definition data_sorted :: "(location_hash \<rightharpoonup> (nat, entry) btree) \<Rightarrow> bool" where
  "data_sorted d \<longleftrightarrow> (\<forall>loc t. d loc = Some t \<longrightarrow> bt_sorted t)"

lemma data_sorted_entries: "data_sorted d \<Longrightarrow> bt_sorted (entries_of d loc)"
  by (auto simp: data_sorted_def entries_of_def split: option.splits)

lemma entry_at_remove [mv_simps]:
  "entry_at (remove_entry i loc d) loc' j = (if loc' = loc \<and> j = i then None else entry_at d loc' j)"
  by (auto simp: entry_at_def remove_entry_def entries_of_def ordmap_simps split: option.splits)

lemma entry_at_insert [mv_simps]:
  "entry_at (insert_entry i loc e d) loc' j = (if loc' = loc \<and> j = i then Some e else entry_at d loc' j)"
  by (auto simp: entry_at_def insert_entry_def entries_of_def ordmap_simps split: option.splits)

lemma entry_at_estimate [mv_simps]:
  "entry_at (mark_estimate i loc d) loc' j =
     (if loc' = loc \<and> j = i \<and> d loc \<noteq> None then Some Estimate else entry_at d loc' j)"
  by (auto simp: entry_at_def mark_estimate_def entries_of_def ordmap_simps split: option.splits)

lemma data_sorted_ops:
  "data_sorted d \<Longrightarrow> data_sorted (remove_entry i loc d)"
  "data_sorted d \<Longrightarrow> data_sorted (insert_entry i loc e d)"
  "data_sorted d \<Longrightarrow> data_sorted (mark_estimate i loc d)"
  by (auto simp: data_sorted_def remove_entry_def insert_entry_def mark_estimate_def
      bt_sorted_insert bt_sorted_remove split: option.splits)

lemma distinct_swap_remove:
  assumes "i < length xs" "distinct xs"
  shows "distinct (swap_remove i xs)" "set (swap_remove i xs) = set xs - {xs ! i}"
    "i \<le> length xs \<Longrightarrow> take i (swap_remove i xs) = take i xs"
proof -
  obtain ys z where xs: "xs = ys @ [z]" using assms(1) by (cases xs rule: rev_cases) auto
  show "set (swap_remove i xs) = set xs - {xs ! i}"
  proof (cases "i < length ys")
    case True
    have "ys = take i ys @ ys ! i # drop (Suc i) ys" using True by (rule id_take_nth_drop)
    then have "set ys = insert (ys ! i) (set (take i ys) \<union> set (drop (Suc i) ys))"
      by (metis Un_insert_right list.simps(15) set_append)
    moreover have "ys ! i \<notin> set (take i ys) \<union> set (drop (Suc i) ys)"
      using assms(2) xs \<open>ys = _\<close> by (metis Un_iff distinct_append not_distinct_conv_prefix set_append
          distinct.simps(2) disjoint_iff list.set_intros(1))
    ultimately show ?thesis
      using True assms(2) xs by (auto simp: swap_remove_def nth_append upd_conv_take_nth_drop)
  next
    case False
    then show ?thesis using assms xs by (auto simp: swap_remove_def nth_append list_update_beyond)
  qed
  show "distinct (swap_remove i xs)"
    using assms xs by (auto simp: swap_remove_def intro!: distinct_list_update)
  show "i \<le> length xs \<Longrightarrow> take i (swap_remove i xs) = take i xs"
    using assms(1) xs by (simp add: swap_remove_def)
qed

lemma record_prune_effect:
  assumes "distinct wl" "\<forall>loc \<in> set (take k wl). map_of ws loc \<noteq> None"
    "record_prune i ws k wl d = (wl', d')"
  shows "set wl' = {loc \<in> set wl. map_of ws loc \<noteq> None} \<and> distinct wl'
    \<and> (\<forall>loc j. entry_at d' loc j =
          (if j = i \<and> loc \<in> set wl \<and> map_of ws loc = None then None else entry_at d loc j))
    \<and> (data_sorted d \<longrightarrow> data_sorted d') \<and> (\<forall>loc. d' loc = None \<longleftrightarrow> d loc = None)"
  using assms
proof (induction i ws k wl d rule: record_prune.induct)
  case (1 i ws k wl d)
  let ?p = "wl ! k"
  consider (drop) "k < length wl" "map_of ws ?p = None" | (keep) "k < length wl" "map_of ws ?p \<noteq> None"
    | (stop) "\<not> k < length wl" by blast
  then show ?case
  proof cases
    case drop
    note sr = distinct_swap_remove[OF drop(1) "1.prems"(1)]
    have rec: "record_prune i ws k (swap_remove k wl) (remove_entry i ?p d) = (wl', d')"
      using "1.prems"(3) drop by (simp add: record_prune.simps[of i ws k wl] Let_def)
    have none: "remove_entry i ?p d loc = None \<longleftrightarrow> d loc = None" for loc
      by (auto simp: remove_entry_def split: option.splits)
    have "?p \<in> set wl" using drop(1) by simp
    with "1.IH"(1)[OF drop(1) refl drop(2) sr(1) _ rec] "1.prems"(2) sr drop none show ?thesis
      by (auto simp: mv_simps data_sorted_ops)
  next
    case keep
    then have "record_prune i ws (k + 1) wl d = (wl', d')"
      using "1.prems"(3) by (auto simp: record_prune.simps[of i ws k wl] Let_def)
    moreover have "\<forall>loc \<in> set (take (k + 1) wl). map_of ws loc \<noteq> None"
      using "1.prems"(2) keep by (simp add: take_Suc_conv_app_nth)
    ultimately show ?thesis using "1.IH"(2)[OF keep(1) refl keep(2) "1.prems"(1)] by simp
  next
    case stop
    then have "wl' = wl" "d' = d" using "1.prems"(3) by (simp_all add: record_prune.simps[of i ws k wl])
    then show ?thesis using "1.prems"(1,2) stop by auto
  qed
qed

lemma record_writes_effect:
  assumes "distinct (map fst ws)" "distinct wl" "record_writes v ws wl d b = (b', wl', d')"
  shows "b' = (b \<or> (\<exists>loc \<in> fst ` set ws. loc \<notin> set wl))
    \<and> set wl' = set wl \<union> fst ` set ws \<and> distinct wl'
    \<and> (\<forall>loc j. entry_at d' loc j = (if j = tv_idx v \<and> map_of ws loc \<noteq> None
        then Some (Data (tv_incarnation v) (the (map_of ws loc))) else entry_at d loc j))
    \<and> (data_sorted d \<longrightarrow> data_sorted d')
    \<and> (\<forall>loc. d' loc = None \<longleftrightarrow> d loc = None \<and> map_of ws loc = None)"
  using assms
proof (induction v ws wl d b rule: record_writes.induct)
  case (2 v l val ws wl d b)
  let ?d = "insert_entry (tv_idx v) l (Data (tv_incarnation v) val) d"
  have ins: "?d loc = None \<longleftrightarrow> d loc = None \<and> loc \<noteq> l" for loc by (auto simp: insert_entry_def)
  have l: "map_of ws l = None" "l \<notin> fst ` set ws" using "2.prems"(1) by (auto simp: map_of_eq_None_iff)
  have dist: "distinct (map fst ws)" using "2.prems"(1) by simp
  show ?case
  proof (cases "l \<in> set wl")
    case True
    then have "record_writes v ws wl ?d b = (b', wl', d')" using "2.prems"(3) by simp
    from "2.IH"(1)[OF refl True dist "2.prems"(2) this] True l ins show ?thesis
      by (auto simp: mv_simps data_sorted_ops)
  next
    case False
    then have "record_writes v ws (wl @ [l]) ?d True = (b', wl', d')" using "2.prems"(3) by simp
    moreover have "distinct (wl @ [l])" using False "2.prems"(2) by simp
    ultimately show ?thesis using "2.IH"(2)[OF refl False dist] False l ins
      by (auto simp: mv_simps data_sorted_ops)
  qed
qed auto

section \<open>The invariant of the memory\<close>

text \<open>
  Trees are sorted, a recorded write location has an entry of its transaction, and every value
  in the memory is at a recorded write location of its transaction.
\<close>

definition writes_of :: "mv_memory \<Rightarrow> nat \<Rightarrow> location_hash list" where
  "writes_of m i = rw_write (mv_locations m ! i)"

definition reads_of :: "mv_memory \<Rightarrow> nat \<Rightarrow> read_set" where
  "reads_of m i = rw_read (mv_locations m ! i)"

definition mv_inv :: "mv_memory \<Rightarrow> bool" where
  "mv_inv m \<longleftrightarrow> data_sorted (mv_data m)
     \<and> (\<forall>i < length (mv_locations m). distinct (writes_of m i)
          \<and> (\<forall>loc \<in> set (writes_of m i). entry_at (mv_data m) loc i \<noteq> None))
     \<and> (\<forall>loc i inc val. entry_at (mv_data m) loc i = Some (Data inc val) \<longrightarrow>
          i < length (mv_locations m) \<and> loc \<in> set (writes_of m i))"

lemma mv_invD:
  assumes "mv_inv m"
  shows "data_sorted (mv_data m)"
    and "i < length (mv_locations m) \<Longrightarrow> distinct (writes_of m i)"
    and "i < length (mv_locations m) \<Longrightarrow> loc \<in> set (writes_of m i) \<Longrightarrow> entry_at (mv_data m) loc i \<noteq> None"
    and "entry_at (mv_data m) loc i = Some (Data inc val) \<Longrightarrow> loc \<in> set (writes_of m i)"
    and "entry_at (mv_data m) loc i = Some (Data inc val) \<Longrightarrow> i < length (mv_locations m)"
  using assms unfolding mv_inv_def by blast+

lemma mv_record_parts:
  assumes inv: "mv_inv m" and i: "tv_idx v < length (mv_locations m)" and ws: "distinct (map fst ws)"
    and r: "mv_record v rs ws m = (b, m')"
  shows "b = (\<exists>loc \<in> fst ` set ws. loc \<notin> set (writes_of m (tv_idx v)))"
    and "entry_at (mv_data m') loc j =
      (if j = tv_idx v then
         (case map_of ws loc of
            Some val \<Rightarrow> Some (Data (tv_incarnation v) val)
          | None \<Rightarrow> if loc \<in> set (writes_of m j) then None else entry_at (mv_data m) loc j)
       else entry_at (mv_data m) loc j)"
    and "data_sorted (mv_data m')"
    and "length (mv_locations m') = length (mv_locations m)"
    and "reads_of m' j = (if j = tv_idx v then rs else reads_of m j)"
    and "set (writes_of m' j) = (if j = tv_idx v then fst ` set ws else set (writes_of m j))"
    and "distinct (writes_of m' (tv_idx v))" and "j \<noteq> tv_idx v \<Longrightarrow> writes_of m' j = writes_of m j"
    and "lazy_addresses m' = lazy_addresses m" and "new_bytecodes m' = new_bytecodes m"
proof -
  let ?i = "tv_idx v"
  obtain wl d where p: "record_prune ?i ws 0 (writes_of m ?i) (mv_data m) = (wl, d)" by force
  obtain wl' d' b' where w: "record_writes v ws wl d False = (b', wl', d')" by (metis prod_cases3)
  have P: "set wl = {loc \<in> set (writes_of m ?i). map_of ws loc \<noteq> None}" "distinct wl"
      "\<And>loc j. entry_at d loc j = (if j = ?i \<and> loc \<in> set (writes_of m ?i) \<and> map_of ws loc = None
         then None else entry_at (mv_data m) loc j)" "data_sorted d"
    using record_prune_effect[OF mv_invD(2)[OF inv i] _ p] mv_invD(1)[OF inv] by simp_all
  have W: "b' = (\<exists>loc \<in> fst ` set ws. loc \<notin> set wl)" "set wl' = set wl \<union> fst ` set ws" "distinct wl'"
      "\<And>loc j. entry_at d' loc j = (if j = ?i \<and> map_of ws loc \<noteq> None
        then Some (Data (tv_incarnation v) (the (map_of ws loc))) else entry_at d loc j)" "data_sorted d'"
    using record_writes_effect[OF ws P(2) w] P(4) by simp_all
  have keys: "map_of ws loc \<noteq> None \<longleftrightarrow> loc \<in> fst ` set ws" for loc by (auto simp: map_of_eq_None_iff)
  have m': "b = b'" "m' = m\<lparr>mv_data := d', mv_locations := (mv_locations m)[?i := \<lparr>rw_read = rs, rw_write = wl'\<rparr>]\<rparr>"
    using r p w by (simp_all add: mv_record_def index_mutex_def writes_of_def Let_def)
  show "b = (\<exists>loc \<in> fst ` set ws. loc \<notin> set (writes_of m ?i))"
    unfolding m'(1) W(1) P(1) using keys by blast
  show "entry_at (mv_data m') loc j =
      (if j = tv_idx v then
         (case map_of ws loc of
            Some val \<Rightarrow> Some (Data (tv_incarnation v) val)
          | None \<Rightarrow> if loc \<in> set (writes_of m j) then None else entry_at (mv_data m) loc j)
       else entry_at (mv_data m) loc j)"
    by (simp add: m' W(4) P(3) split: option.splits)
  show "set (writes_of m' j) = (if j = ?i then fst ` set ws else set (writes_of m j))"
    using P(1) W(2) keys i by (auto simp: m' writes_of_def nth_list_update)
  show "data_sorted (mv_data m')" "length (mv_locations m') = length (mv_locations m)"
    "reads_of m' j = (if j = tv_idx v then rs else reads_of m j)"
    "distinct (writes_of m' (tv_idx v))" "j \<noteq> tv_idx v \<Longrightarrow> writes_of m' j = writes_of m j"
    "lazy_addresses m' = lazy_addresses m" "new_bytecodes m' = new_bytecodes m"
    using W i by (auto simp: m' reads_of_def writes_of_def nth_list_update)
qed

lemma mv_record_inv:
  assumes inv: "mv_inv m" and i: "tv_idx v < length (mv_locations m)" and ws: "distinct (map fst ws)"
    and r: "mv_record v rs ws m = (b, m')"
  shows "mv_inv m'"
proof -
  note R = mv_record_parts[OF assms]
  have keys: "map_of ws loc \<noteq> None \<longleftrightarrow> loc \<in> fst ` set ws" for loc by (auto simp: map_of_eq_None_iff)
  have "distinct (writes_of m' j) \<and> (\<forall>loc \<in> set (writes_of m' j). entry_at (mv_data m') loc j \<noteq> None)"
    if "j < length (mv_locations m')" for j
  proof (cases "j = tv_idx v")
    case True
    have "entry_at (mv_data m') loc j \<noteq> None" if "loc \<in> fst ` set ws" for loc
      using that keys[of loc] R(2)[of loc j] True by (cases "map_of ws loc") simp_all
    then show ?thesis using R(6,7) True by simp
  next
    case False
    then show ?thesis using R(2,4,8) mv_invD(2,3)[OF inv] that by auto
  qed
  moreover have "j < length (mv_locations m') \<and> loc \<in> set (writes_of m' j)"
    if "entry_at (mv_data m') loc j = Some (Data inc val)" for loc j inc val
    using that R(2,4,6) mv_invD(4,5)[OF inv] i keys[of loc]
    by (auto split: if_splits option.splits)
  ultimately show ?thesis using R(3) unfolding mv_inv_def by blast
qed

lemma fold_mark_estimate:
  assumes "\<forall>loc \<in> set wl. d loc \<noteq> None"
  shows "entry_at (fold (mark_estimate i) wl d) loc j =
      (if j = i \<and> loc \<in> set wl then Some Estimate else entry_at d loc j)"
    and "fold (mark_estimate i) wl d loc = None \<longleftrightarrow> d loc = None"
    and "data_sorted d \<Longrightarrow> data_sorted (fold (mark_estimate i) wl d)"
proof -
  have none: "mark_estimate i l d' loc' = None \<longleftrightarrow> d' loc' = None" for l d' loc'
    by (auto simp: mark_estimate_def split: option.splits)
  show "entry_at (fold (mark_estimate i) wl d) loc j =
      (if j = i \<and> loc \<in> set wl then Some Estimate else entry_at d loc j)"
    using assms
  proof (induction wl arbitrary: d)
    case (Cons a wl)
    then have "\<forall>loc \<in> set wl. mark_estimate i a d loc \<noteq> None" by (simp only: none) simp
    from Cons.IH[OF this] Cons.prems show ?case by (auto simp: mv_simps)
  qed simp
  show "fold (mark_estimate i) wl d loc = None \<longleftrightarrow> d loc = None"
    by (induction wl arbitrary: d) (simp_all add: none)
  show "data_sorted d \<Longrightarrow> data_sorted (fold (mark_estimate i) wl d)"
    by (induction wl arbitrary: d) (simp_all add: data_sorted_ops)
qed

lemma entry_at_some_data: "entry_at d loc i \<noteq> None \<Longrightarrow> d loc \<noteq> None"
  by (auto simp: entry_at_def entries_of_def split: option.splits)

lemma convert_writes_parts:
  assumes inv: "mv_inv m" and i: "i < length (mv_locations m)"
  defines "m' \<equiv> convert_writes_to_estimates i m"
  shows "entry_at (mv_data m') loc j =
      (if j = i \<and> loc \<in> set (writes_of m i) then Some Estimate else entry_at (mv_data m) loc j)"
    and "mv_inv m'" and "mv_locations m' = mv_locations m"
proof -
  have wl: "\<forall>loc \<in> set (writes_of m i). mv_data m loc \<noteq> None"
    using mv_invD(3)[OF inv i] entry_at_some_data by blast
  have m': "mv_data m' = fold (mark_estimate i) (writes_of m i) (mv_data m)"
    by (simp add: m'_def convert_writes_to_estimates_def writes_of_def index_mutex_def)
  show e: "entry_at (mv_data m') loc j =
      (if j = i \<and> loc \<in> set (writes_of m i) then Some Estimate else entry_at (mv_data m) loc j)" for loc j
    unfolding m' by (rule fold_mark_estimate(1)[OF wl])
  show l: "mv_locations m' = mv_locations m"
    by (simp add: m'_def convert_writes_to_estimates_def)
  have "data_sorted (mv_data m')"
    unfolding m' using fold_mark_estimate(3)[OF wl] mv_invD(1)[OF inv] by blast
  then show "mv_inv m'"
    using mv_invD(2-5)[OF inv] unfolding mv_inv_def by (auto simp: e l writes_of_def split: if_splits)
qed

lemma mv_new_locations:
  "length (mv_locations (mv_new n est lz)) = n"
  "i < n \<Longrightarrow> mv_locations (mv_new n est lz) ! i = read_write_set_default"
  by (simp_all add: mv_new_def)

lemma mv_new_data:
  assumes "\<forall>loc t. d loc = Some t \<longrightarrow> bt_sorted t \<and> (\<forall>i inc val. map_of t i \<noteq> Some (Data inc val))"
    and "fold (\<lambda>(l, idxs) d. d(l \<mapsto> bt_of_list (map (\<lambda>tx_idx. (tx_idx, Estimate)) idxs))) est d loc = Some t"
  shows "bt_sorted t \<and> (\<forall>i inc val. map_of t i \<noteq> Some (Data inc val))"
  using assms
proof (induction est arbitrary: d)
  case (Cons p est)
  obtain l idxs where p: "p = (l, idxs)" by force
  let ?t = "bt_of_list (map (\<lambda>tx_idx. (tx_idx, Estimate)) idxs)"
  have "map_of (fold (\<lambda>(k, v) m. bt_insert k v m) (map (\<lambda>tx_idx. (tx_idx, Estimate)) idxs) m) i
      \<noteq> Some (Data inc val)" if "map_of m i \<noteq> Some (Data inc val)" for m i inc val
    using that by (induction idxs arbitrary: m) (auto simp: ordmap_simps)
  then have "map_of ?t i \<noteq> Some (Data inc val)" for i inc val by (simp add: bt_of_list_def)
  then show ?case
    using Cons.IH[of "d(l \<mapsto> ?t)"] Cons.prems p by (auto simp: bt_sorted_of_list)
qed auto

lemma mv_new_inv: "mv_inv (mv_new n est lz)"
proof -
  let ?d = "mv_data (mv_new n est lz)"
  have d: "bt_sorted t \<and> (\<forall>i inc val. map_of t i \<noteq> Some (Data inc val))" if "?d loc = Some t" for loc t
    using mv_new_data[of Map.empty est loc t] that by (simp add: mv_new_def)
  then have "entry_at ?d loc i \<noteq> Some (Data inc val)" for loc i inc val
    by (auto simp: entry_at_def entries_of_def split: option.splits)
  then show ?thesis
    using d by (auto simp: mv_inv_def data_sorted_def mv_new_locations writes_of_def read_write_set_default_def)
qed

section \<open>What a validation decides\<close>

text \<open>
  The origin a reader would record for an entry now; an estimate gives none. Recorded origins
  are well formed when there is at least one and storage can only be the last.
\<close>

fun origin_of :: "nat \<times> entry \<Rightarrow> read_origin option" where
  "origin_of (i, Data inc _) = Some (OriginMvMemory \<lparr>tv_idx = i, tv_incarnation = inc\<rparr>)"
| "origin_of (i, Estimate) = None"

definition origins_now :: "(location_hash \<rightharpoonup> (nat, entry) btree) \<Rightarrow> nat \<Rightarrow> location_hash \<Rightarrow> read_origin option list" where
  "origins_now d i loc = map origin_of (bt_below i (entries_of d loc)) @ [Some OriginStorage]"

definition origins_wf :: "read_origins \<Rightarrow> bool" where
  "origins_wf os \<longleftrightarrow> os \<noteq> [] \<and> OriginStorage \<notin> set (butlast os)"

lemma origins_valid_prefix:
  assumes "OriginStorage \<notin> set (butlast os)"
  shows "origins_valid os it \<longleftrightarrow> prefix (map Some os) (map origin_of it @ [Some OriginStorage])"
  using assms
proof (induction os arbitrary: it)
  case (Cons orig os)
  have tail: "OriginStorage \<notin> set (butlast os)" using Cons.prems by (cases os) auto
  show ?case
  proof (cases orig)
    case (OriginMvMemory v)
    show ?thesis
    proof (cases it)
      case Nil
      then show ?thesis using OriginMvMemory by simp
    next
      case (Cons e it')
      then show ?thesis
        using OriginMvMemory Cons.IH[OF tail, of it']
        by (cases e rule: origin_of.cases; cases v) auto
    qed
  next
    case OriginStorage
    then have "os = []" using Cons.prems by (cases os) auto
    then show ?thesis using OriginStorage by (cases it; cases "hd it" rule: origin_of.cases) auto
  qed
qed simp

lemma read_valid_prefix:
  assumes "origins_wf os"
  shows "read_valid d i (loc, os) \<longleftrightarrow> prefix (map Some os) (origins_now d i loc)"
proof (cases "d loc")
  case None
  have "prefix (map Some os) [Some OriginStorage] \<longleftrightarrow> os = [OriginStorage]"
    using assms by (cases os) (auto simp: origins_wf_def)
  moreover have "(length os = 1 \<and> last os = OriginStorage) \<longleftrightarrow> os = [OriginStorage]"
    by (cases os rule: rev_cases) auto
  ultimately show ?thesis
    using None by (simp add: read_valid_def origins_now_def entries_of_def bt_below_def bt_range_def)
next
  case (Some t)
  then show ?thesis
    using assms origins_valid_prefix by (simp add: read_valid_def origins_now_def entries_of_def origins_wf_def)
qed

lemma origins_now_cong:
  assumes "data_sorted d" "data_sorted d'" "\<And>j. j < i \<Longrightarrow> entry_at d loc j = entry_at d' loc j"
  shows "origins_now d i loc = origins_now d' i loc"
proof -
  have "bt_below i (entries_of d loc) = bt_below i (entries_of d' loc)"
    using assms by (intro bt.below_cong) (auto simp: data_sorted_entries entry_at_def)
  then show ?thesis by (simp add: origins_now_def)
qed

lemma origins_now_member:
  assumes "data_sorted d"
  shows "Some (OriginMvMemory w) \<in> set (origins_now d i loc) \<longleftrightarrow>
    tv_idx w < i \<and> (\<exists>val. entry_at d loc (tv_idx w) = Some (Data (tv_incarnation w) val))"
proof -
  have eq: "origin_of p = Some (OriginMvMemory w) \<longleftrightarrow> (\<exists>val. p = (tv_idx w, Data (tv_incarnation w) val))" for p
    by (cases p rule: origin_of.cases; cases w) auto
  have "Some (OriginMvMemory w) \<in> set (origins_now d i loc) \<longleftrightarrow>
      (\<exists>p \<in> set (bt_below i (entries_of d loc)). origin_of p = Some (OriginMvMemory w))"
    unfolding origins_now_def by (simp add: image_iff) metis
  also have "\<dots> \<longleftrightarrow> (\<exists>val. (tv_idx w, Data (tv_incarnation w) val) \<in> set (bt_below i (entries_of d loc)))"
    unfolding eq by blast
  finally show ?thesis using set_bt_below[OF data_sorted_entries[OF assms]] by (simp add: entry_at_def)
qed

text \<open>A prefix of the origins that reaches down to \<open>j\<close> contains the origin of the entry at \<open>j\<close>.\<close>

definition reaches :: "read_origins \<Rightarrow> nat \<Rightarrow> bool" where
  "reaches os j \<longleftrightarrow> (\<exists>orig \<in> set os. orig = OriginStorage \<or> (\<exists>w. orig = OriginMvMemory w \<and> tv_idx w \<le> j))"

lemma prefix_reaches:
  assumes "sorted_wrt (>) (map fst it)" "(j, e) \<in> set it"
    "prefix (map Some os) (map origin_of it @ [Some OriginStorage])" "reaches os j"
  shows "origin_of (j, e) \<in> Some ` set os"
  using assms
proof (induction it arbitrary: os)
  case (Cons p it)
  obtain i e' where p: "p = (i, e')" by force
  obtain orig os' where os: "os = orig # os'" "Some orig = origin_of p"
      "prefix (map Some os') (map origin_of it @ [Some OriginStorage])"
    using Cons.prems(3,4) by (cases os) (auto simp: reaches_def)
  show ?case
  proof (cases "(j, e) = p")
    case True
    then show ?thesis using os by auto
  next
    case False
    then have j: "(j, e) \<in> set it" using Cons.prems(2) by auto
    then have "j < i" using Cons.prems(1) p by auto
    moreover obtain v where "orig = OriginMvMemory v" "tv_idx v = i" using os(2) p by (cases e') auto
    ultimately have "reaches os' j" using Cons.prems(4) os(1) by (auto simp: reaches_def)
    then show ?thesis using Cons.IH[OF _ j os(3)] Cons.prems(1) os(1) by auto
  qed
qed simp

lemma prefix_set: "prefix xs ys \<Longrightarrow> x \<in> set xs \<Longrightarrow> x \<in> set ys"
  by (auto simp: prefix_def)

lemma validated_read:
  assumes d: "data_sorted d" and os: "origins_wf os" and v: "read_valid d i (loc, os)"
  shows "OriginMvMemory w \<in> set os \<Longrightarrow>
      tv_idx w < i \<and> (\<exists>val. entry_at d loc (tv_idx w) = Some (Data (tv_incarnation w) val))"
    and "entry_at d loc j = Some e \<Longrightarrow> j < i \<Longrightarrow> reaches os j \<Longrightarrow>
      \<exists>inc val. e = Data inc val \<and> OriginMvMemory \<lparr>tv_idx = j, tv_incarnation = inc\<rparr> \<in> set os"
proof -
  have p: "prefix (map Some os) (origins_now d i loc)" using read_valid_prefix[OF os] v by simp
  show "tv_idx w < i \<and> (\<exists>val. entry_at d loc (tv_idx w) = Some (Data (tv_incarnation w) val))"
    if "OriginMvMemory w \<in> set os"
    using prefix_set[OF p, of "Some (OriginMvMemory w)"] that origins_now_member[OF d] by auto
  show "\<exists>inc val. e = Data inc val \<and> OriginMvMemory \<lparr>tv_idx = j, tv_incarnation = inc\<rparr> \<in> set os"
    if "entry_at d loc j = Some e" "j < i" "reaches os j"
  proof -
    have "(j, e) \<in> set (bt_below i (entries_of d loc))"
      using that(1,2) set_bt_below[OF data_sorted_entries[OF d]] by (simp add: entry_at_def)
    then have "origin_of (j, e) \<in> Some ` set os"
      using prefix_reaches[OF bt_below_desc[OF data_sorted_entries[OF d]]] p that(3)
      by (simp add: origins_now_def)
    then show ?thesis by (cases "(j, e)" rule: origin_of.cases) auto
  qed
qed

section \<open>Properties\<close>

text \<open>
  A memory for two transactions in which transaction 0 has written 5 to location 7 and
  transaction 1 has read it.
\<close>

definition sample_v0 :: tx_version where
  "sample_v0 = \<lparr>tv_idx = 0, tv_incarnation = 0\<rparr>"

definition sample_v1 :: tx_version where
  "sample_v1 = \<lparr>tv_idx = 1, tv_incarnation = 0\<rparr>"

definition sample_writes :: write_set where
  "sample_writes = [(7, VStorage 5)]"

definition sample_reads :: read_set where
  "sample_reads = [(7, [OriginMvMemory \<lparr>tv_idx = 0, tv_incarnation = 0\<rparr>])]"

definition sample_mem0 :: mv_memory where
  "sample_mem0 = snd (mv_record \<lparr>tv_idx = 0, tv_incarnation = 0\<rparr> [] sample_writes (mv_new 2 [] []))"

definition sample_mem1 :: mv_memory where
  "sample_mem1 = snd (mv_record \<lparr>tv_idx = 1, tv_incarnation = 0\<rparr> sample_reads [] sample_mem0)"

lemmas sample_mem_simps = sample_mem0_def sample_mem1_def sample_writes_def sample_reads_def mv_record_def
  record_prune.simps insert_entry_def mv_new_def index_mutex_def read_write_set_default_def Let_def
  upt_rec[of 0 2] upt_rec[of 1 2] upt_rec[of "Suc 0" 2]

lemma sample_mem1_state:
  "sample_mem1 = \<lparr>mv_data = [7 \<mapsto> [(0, Data 0 (VStorage 5))]],
     mv_locations = [\<lparr>rw_read = [], rw_write = [7]\<rparr>,
       \<lparr>rw_read = [(7, [OriginMvMemory \<lparr>tv_idx = 0, tv_incarnation = 0\<rparr>])], rw_write = []\<rparr>],
     lazy_addresses = [], new_bytecodes = Map.empty\<rparr>"
  by (simp add: sample_mem_simps)

lemma sample_mem0_inv: "mv_inv sample_mem0" "length (mv_locations sample_mem0) = 2"
proof -
  obtain b m where m: "mv_record \<lparr>tv_idx = 0, tv_incarnation = 0\<rparr> [] sample_writes (mv_new 2 [] []) = (b, m)"
    by force
  note R = mv_record_inv[OF mv_new_inv _ _ m] mv_record_parts(4)[OF mv_new_inv _ _ m]
  have "sample_mem0 = m" unfolding sample_mem0_def m by simp
  then show "mv_inv sample_mem0" "length (mv_locations sample_mem0) = 2"
    using R by (simp_all add: mv_new_locations sample_writes_def)
qed

lemma sample_mem1_inv: "mv_inv sample_mem1"
proof -
  obtain b m where m: "mv_record \<lparr>tv_idx = 1, tv_incarnation = 0\<rparr> sample_reads [] sample_mem0 = (b, m)"
    by force
  have "sample_mem1 = m" unfolding sample_mem1_def m by simp
  then show ?thesis using mv_record_inv[OF sample_mem0_inv(1) _ _ m] sample_mem0_inv(2) by simp
qed

text \<open>
  C9 (mv_record_correct). Recording an execution stores exactly its writes: the written
  locations get the value with the incarnation number, locations the previous incarnation wrote
  and this one does not lose the entry of the transaction, entries of other transactions stay;
  the read set and the set of written locations are those of this execution. The result says
  whether a location was written that the previous incarnation had not written.
\<close>

theorem mv_record_correct:
  assumes "mv_inv m" "tv_idx v < length (mv_locations m)" "distinct (map fst ws)"
    and "mv_record v rs ws m = (b, m')"
  shows "(b \<longleftrightarrow> \<not> fst ` set ws \<subseteq> set (writes_of m (tv_idx v)))
    \<and> (\<forall>loc j. entry_at (mv_data m') loc j =
        (if j \<noteq> tv_idx v then entry_at (mv_data m) loc j
         else case map_of ws loc of
                Some val \<Rightarrow> Some (Data (tv_incarnation v) val)
              | None \<Rightarrow> if loc \<in> set (writes_of m j) then None else entry_at (mv_data m) loc j))
    \<and> reads_of m' (tv_idx v) = rs \<and> set (writes_of m' (tv_idx v)) = fst ` set ws \<and> mv_inv m'"
  using mv_record_parts(1,2,5,6)[OF assms] mv_record_inv[OF assms] by auto

theorem mv_record_correct_witness:
  "entry_at (mv_data (snd (mv_record sample_v0 [] sample_writes (mv_new 2 [] [])))) 7 0
     = Some (Data 0 (VStorage 5))"
  using mv_record_correct[OF mv_new_inv, of sample_v0 2 "[]" "[]" sample_writes "[]"
      "fst (mv_record sample_v0 [] sample_writes (mv_new 2 [] []))"
      "snd (mv_record sample_v0 [] sample_writes (mv_new 2 [] []))"]
  by (simp add: sample_writes_def sample_v0_def mv_new_locations)

text \<open>
  C10 (validation_is_reread). A validation succeeds exactly when for every recorded read the
  recorded origins are a prefix of the origins a reader walking down the location would meet
  now, storage being the last and an estimate matching nothing.
\<close>

theorem validation_is_reread:
  assumes "\<forall>(loc, os) \<in> set (reads_of m i). origins_wf os"
  shows "validate_read_locations i m \<longleftrightarrow>
    (\<forall>(loc, os) \<in> set (reads_of m i). prefix (map Some os) (origins_now (mv_data m) i loc))"
proof -
  have "read_valid (mv_data m) i r \<longleftrightarrow>
      (case r of (loc, os) \<Rightarrow> prefix (map Some os) (origins_now (mv_data m) i loc))"
    if "r \<in> set (reads_of m i)" for r
    using that assms read_valid_prefix by (cases r) auto
  then show ?thesis by (simp add: validate_read_locations_def list_all_iff reads_of_def index_mutex_def)
qed

theorem validation_is_reread_witness:
  "validate_read_locations 1 sample_mem1 \<longleftrightarrow>
    (\<forall>(loc, os) \<in> set sample_reads. prefix (map Some os) (origins_now (mv_data sample_mem1) 1 loc))"
  using validation_is_reread[of sample_mem1 1]
  by (simp add: sample_mem1_state reads_of_def origins_wf_def sample_reads_def)

text \<open>
  C11 (estimates_abort_readers). After the writes of an aborted transaction have been turned
  into estimates, the validation of every higher transaction that has read one of these
  locations from it fails.
\<close>

theorem estimates_abort_readers:
  assumes "mv_inv m" "j < length (mv_locations m)" "j < i"
    and "(loc, os) \<in> set (reads_of m i)" "origins_wf os"
    and "loc \<in> set (writes_of m j)" "OriginMvMemory w \<in> set os" "tv_idx w = j"
  shows "\<not> validate_read_locations i (convert_writes_to_estimates j m)"
proof
  let ?m = "convert_writes_to_estimates j m"
  note C = convert_writes_parts[OF assms(1,2)]
  assume "validate_read_locations i ?m"
  moreover have "(loc, os) \<in> set (reads_of ?m i)" using assms(4) C(3) by (simp add: reads_of_def)
  ultimately have v: "read_valid (mv_data ?m) i (loc, os)"
    by (auto simp: validate_read_locations_def list_all_iff reads_of_def index_mutex_def)
  have "\<exists>val. entry_at (mv_data ?m) loc j = Some (Data (tv_incarnation w) val)"
    using validated_read(1)[OF mv_invD(1)[OF C(2)] assms(5) v assms(7)] assms(8) by simp
  then show False using C(1)[of loc j] assms(6) by simp
qed

theorem estimates_abort_readers_witness:
  "\<not> validate_read_locations 1 (convert_writes_to_estimates 0 sample_mem1)"
  by (rule estimates_abort_readers[OF sample_mem1_inv, of 0 1 7
        "[OriginMvMemory \<lparr>tv_idx = 0, tv_incarnation = 0\<rparr>]" "\<lparr>tv_idx = 0, tv_incarnation = 0\<rparr>"])
    (simp_all add: sample_mem1_state reads_of_def writes_of_def origins_wf_def)


definition sample_again :: "bool \<times> mv_memory" where
  "sample_again = mv_record sample_v0 [] sample_writes sample_mem1"

lemma sample_again_state:
  "sample_again = (False, sample_mem1)"
  by (simp add: sample_again_def sample_v0_def sample_mem1_state mv_record_def sample_writes_def index_mutex_def
      record_prune.simps insert_entry_def Let_def)


text \<open>
  C13 (record_keeps_lower_validations). Recording a transaction does not change the outcome of
  the validation of any lower transaction.
\<close>

theorem record_keeps_lower_validations:
  assumes "mv_inv m" "tv_idx v < length (mv_locations m)" "distinct (map fst ws)"
    and "mv_record v rs ws m = (b, m')" "i < tv_idx v"
    and "\<forall>(loc, os) \<in> set (reads_of m i). origins_wf os"
  shows "validate_read_locations i m' = validate_read_locations i m"
proof -
  note R = mv_record_parts[OF assms(1-4)]
  have "origins_now (mv_data m') i loc = origins_now (mv_data m) i loc" for loc
    using R(2,3) mv_invD(1)[OF assms(1)] assms(5) by (intro origins_now_cong) auto
  then have "read_valid (mv_data m') i (loc, os) = read_valid (mv_data m) i (loc, os)"
    if "(loc, os) \<in> set (reads_of m i)" for loc os
    using that assms(6) read_valid_prefix by (metis (no_types, lifting) case_prodD)
  then show ?thesis
    using R(5)[of i] assms(5)
    by (auto simp: validate_read_locations_def list_all_iff reads_of_def index_mutex_def)
qed

theorem record_keeps_lower_validations_witness:
  "validate_read_locations 0 (snd (mv_record sample_v1 [] sample_writes sample_mem1))
     = validate_read_locations 0 sample_mem1"
  by (rule record_keeps_lower_validations[OF sample_mem1_inv, of sample_v1 sample_writes "[]"
        "fst (mv_record sample_v1 [] sample_writes sample_mem1)"])
    (simp_all add: sample_v1_def sample_mem1_state reads_of_def sample_writes_def)

end
