(* ===== verification/Vm_Database.thy ===== *)
theory Vm_Database
  imports Results Mv_Memory
begin

text \<open>
  The database interface of one execution (\<open>crates/pe/src/vm.rs\<close>, \<open>struct VmDB\<close>): reads go to
  the multi-version memory first and to the storage before the block otherwise, and the origin
  of every read is recorded. \<open>vmdb_basic\<close>, \<open>vmdb_storage\<close>, \<open>vmdb_code_by_hash\<close> and
  \<open>vmdb_block_hash\<close> are the methods of \<open>impl Database for VmDB\<close>; each returns an error or a
  value, and the database with the origins recorded so far.

  The memory is an argument of every access, because other threads change it between two
  reads: a call that looks at several locations takes one memory for each of them. The walk
  down the entries of one location holds the lock of the location and sees one memory.

  Parameters. The underlying database is a record of functions \<open>database_ref\<close>. What the code
  uses of revm and of the hash function is the record \<open>revm\<close>. The virtual machine itself is a
  tree \<open>evm\<close> of the database calls it makes, each with a continuation for the answer: revm runs
  a transaction by calling the database, and stops at the first database error with that error.
\<close>

section \<open>Parameters\<close>

record database_ref =
  basic_ref :: "address \<Rightarrow> string + account_info option"
  code_by_hash_ref :: "b256 \<Rightarrow> string + bytecode"
  storage_ref :: "address \<Rightarrow> u256 \<Rightarrow> string + u256"
  block_hash_ref :: "u64 \<Rightarrow> string + b256"

datatype tx_kind = Create | Call address

text \<open>
  The fields of a transaction the executors read; \<open>te_total_blob_gas\<close> is the value of the
  method \<open>total_blob_gas()\<close>.
\<close>

record tx_env =
  te_tx_type :: u8
  te_caller :: address
  te_gas_limit :: u64
  te_gas_price :: u128
  te_kind :: tx_kind
  te_value :: u256
  te_nonce :: u64
  te_gas_priority_fee :: "u128 option"
  te_max_fee_per_blob_gas :: u128
  te_total_blob_gas :: u64

text \<open>The fields of the block environment, and whether two hard forks are enabled.\<close>

record evm_env =
  ee_beneficiary :: address
  ee_basefee :: u64
  ee_spurious_dragon :: bool
  ee_london :: bool

record revm =
  hash_location :: "location \<Rightarrow> location_hash"
  bytecode_default :: bytecode
  KECCAK_EMPTY :: b256
  account_info_default :: account_info
  is_empty_code_hash :: "account_info \<Rightarrow> bool"
  account_is_empty :: "account \<Rightarrow> bool"
  changed_storage_slots :: "account \<Rightarrow> (u256 \<times> u256) list"
  tx_type_try_from :: "u8 \<Rightarrow> string + tx_type"

datatype 'r evm =
    Done 'r
  | GetBasic address "account_info option \<Rightarrow> 'r evm"
  | GetCode b256 "bytecode \<Rightarrow> 'r evm"
  | GetStorage address u256 "u256 \<Rightarrow> 'r evm"
  | GetBlockHash u64 "b256 \<Rightarrow> 'r evm"

section \<open>The database of one execution\<close>

record vmdb =
  db_tx_idx :: nat
  db_tx :: tx_env
  from_hash :: location_hash
  to_hash :: "location_hash option"
  to_code_hash :: "b256 option"
  is_lazy :: bool
  db_read_set :: read_set
  read_accounts :: "location_hash \<rightharpoonup> account_meta"

text \<open>\<open>read_set.entry(l).or_default()\<close> and writing through the reference it returns.\<close>

definition origins_at :: "vmdb \<Rightarrow> location_hash \<Rightarrow> read_origins" where
  "origins_at db loc = (case map_of (db_read_set db) loc of Some os \<Rightarrow> os | None \<Rightarrow> [])"

definition put_origins :: "location_hash \<Rightarrow> read_origins \<Rightarrow> vmdb \<Rightarrow> vmdb" where
  "put_origins loc os db = db\<lparr>db_read_set := AList.update loc os (db_read_set db)\<rparr>"

definition hash_basic :: "revm \<Rightarrow> address \<Rightarrow> vmdb \<Rightarrow> location_hash" where
  "hash_basic R a db =
     (if a = te_caller (db_tx db) then from_hash db
      else case te_kind (db_tx db) of
             Call to \<Rightarrow> if to = a then the (to_hash db) else hash_location R (Basic a)
           | Create \<Rightarrow> hash_location R (Basic a))"

definition push_origin :: "read_origins \<Rightarrow> read_origin \<Rightarrow> read_error + read_origins" where
  "push_origin os orig =
     (if os \<noteq> [] then (if last os \<noteq> orig then Inl InconsistentRead else Inr os)
      else Inr (os @ [orig]))"

text \<open>The first entry below the transaction, \<open>range(..tx_idx).next_back()\<close>.\<close>

definition closest :: "mv_memory \<Rightarrow> location_hash \<Rightarrow> nat \<Rightarrow> (nat \<times> entry) option" where
  "closest m loc i =
     (case mv_data m loc of
        None \<Rightarrow> None
      | Some t \<Rightarrow> (case bt_below i t of [] \<Rightarrow> None | e # _ \<Rightarrow> Some e))"

text \<open>Reading the code hash from storage, after the origin has been pushed.\<close>

definition storage_code_hash :: "database_ref \<Rightarrow> address \<Rightarrow> read_error + b256 option" where
  "storage_code_hash D a =
     (case basic_ref D a of
        Inl err \<Rightarrow> Inl (StorageError err)
      | Inr acc \<Rightarrow> Inr (map_option ai_code_hash acc))"

definition get_code_hash ::
    "revm \<Rightarrow> database_ref \<Rightarrow> mv_memory \<Rightarrow> address \<Rightarrow> vmdb \<Rightarrow> (read_error + b256 option) \<times> vmdb" where
  "get_code_hash R D m a db =
     (let loc = hash_location R (CodeHash a);
          os = origins_at db loc;
          db = put_origins loc os db;
          fallback = (case push_origin os OriginStorage of
                        Inl e \<Rightarrow> (Inl e, db)
                      | Inr os' \<Rightarrow> (storage_code_hash D a, put_origins loc os' db))
      in case closest m loc (db_tx_idx db) of
           Some (i, Data inc SelfDestructed) \<Rightarrow> (Inl SelfDestructedAccount, db)
         | Some (i, Data inc (VCodeHash h)) \<Rightarrow>
             (case push_origin os (OriginMvMemory \<lparr>tv_idx = i, tv_incarnation = inc\<rparr>) of
                Inl e \<Rightarrow> (Inl e, db)
              | Inr os' \<Rightarrow> (Inr (Some h), put_origins loc os' db))
         | _ \<Rightarrow> fallback)"

definition vmdb_new ::
    "revm \<Rightarrow> database_ref \<Rightarrow> mv_memory \<Rightarrow> mv_memory \<Rightarrow> mv_memory \<Rightarrow> nat \<Rightarrow> tx_env \<Rightarrow> location_hash
      \<Rightarrow> location_hash option \<Rightarrow> read_error + vmdb" where
  "vmdb_new R D m m_from m_to tx_idx tx from_h to_h =
     (let db = \<lparr>db_tx_idx = tx_idx, db_tx = tx, from_hash = from_h, to_hash = to_h,
                to_code_hash = None, is_lazy = False, db_read_set = [], read_accounts = Map.empty\<rparr>
      in case te_kind tx of
           Call to \<Rightarrow>
             (case get_code_hash R D m to db of
                (Inl e, _) \<Rightarrow> Inl e
              | (Inr h, db') \<Rightarrow>
                  Inr (db'\<lparr>to_code_hash := h,
                    is_lazy := (h = None \<and> (mv_data m_from from_h \<noteq> None \<or> mv_data m_to (the to_h) \<noteq> None))\<rparr>))
         | Create \<Rightarrow> Inr db)"

section \<open>Reading an account\<close>

text \<open>The loop that evaluates lazy updates down to the first absolute value.\<close>

fun basic_walk ::
    "read_origins \<Rightarrow> (nat \<times> entry) list \<Rightarrow> read_origins \<Rightarrow> i257 \<Rightarrow> u64
      \<Rightarrow> read_error + (account_info option \<times> read_origins \<times> i257 \<times> u64)" where
  "basic_walk prev [] new_origins balance_addition nonce_addition =
     Inr (None, new_origins, balance_addition, nonce_addition)"
| "basic_walk prev ((blocking_idx, Estimate) # it) new_origins balance_addition nonce_addition =
     Inl (Blocking blocking_idx)"
| "basic_walk prev ((closest_idx, Data inc val) # it) new_origins balance_addition nonce_addition =
     (if prev \<noteq> [] \<and> length prev = length new_origins then Inl InconsistentRead
      else
        (let orig = OriginMvMemory \<lparr>tv_idx = closest_idx, tv_incarnation = inc\<rparr> in
         if prev \<noteq> [] \<and> prev ! length new_origins \<noteq> orig then Inl InconsistentRead
         else
           (let new_origins' = new_origins @ [orig] in
            case val of
              VBasic basic \<Rightarrow> Inr (Some basic, new_origins', balance_addition, nonce_addition)
            | LazyRecipient addition \<Rightarrow>
                basic_walk prev it new_origins' (i257_add balance_addition (i257_from addition)) nonce_addition
            | LazySender subtraction \<Rightarrow>
                basic_walk prev it new_origins' (i257_sub balance_addition (i257_from subtraction))
                  (nonce_addition + 1)
            | _ \<Rightarrow> Inl InvalidValueType)))"

text \<open>The fallback to storage: the final account and the origins of the read.\<close>

definition basic_fallback ::
    "revm \<Rightarrow> database_ref \<Rightarrow> address \<Rightarrow> read_origins \<Rightarrow> read_origins \<Rightarrow> i257
      \<Rightarrow> read_error + (account_info option \<times> read_origins)" where
  "basic_fallback R D a prev new_origins balance_addition =
     (if prev \<noteq> [] \<and> (length prev \<noteq> length new_origins + 1 \<or> last prev \<noteq> OriginStorage)
      then Inl InconsistentRead
      else
        (let new_origins' = (if prev = [] then new_origins @ [OriginStorage] else new_origins) in
         case basic_ref D a of
           Inl err \<Rightarrow> Inl (StorageError err)
         | Inr (Some basic) \<Rightarrow> Inr (Some basic, new_origins')
         | Inr None \<Rightarrow>
             Inr (if i257_sign balance_addition > 0 then Some (account_info_default R) else None,
                  new_origins')))"

text \<open>The nonce check of the sender.\<close>

definition nonce_check :: "nat \<Rightarrow> tx_env \<Rightarrow> u64 \<Rightarrow> read_error option" where
  "nonce_check tx_idx tx nonce =
     (if te_nonce tx \<noteq> nonce then
        (if tx_idx > 0 then
           (if te_nonce tx < nonce then Some (NonceTooLow (te_nonce tx) nonce)
            else Some (Blocking (tx_idx - 1)))
         else if te_nonce tx < nonce then Some (NonceTooLow (te_nonce tx) nonce)
         else Some (NonceTooHigh (te_nonce tx) nonce))
      else None)"

text \<open>The bytecode of a code hash: deployed in this block, or in storage.\<close>

definition lookup_code ::
    "revm \<Rightarrow> database_ref \<Rightarrow> mv_memory \<Rightarrow> b256 option \<Rightarrow> read_error + bytecode" where
  "lookup_code R D m code_hash =
     (case code_hash of
        None \<Rightarrow> Inr (bytecode_default R)
      | Some h \<Rightarrow>
          (case new_bytecodes m h of
             Some code \<Rightarrow> Inr code
           | None \<Rightarrow> (case code_by_hash_ref D h of
                        Inl err \<Rightarrow> Inl (StorageError err) | Inr code \<Rightarrow> Inr code)))"

text \<open>The rest of \<open>basic\<close> once an account has been found.\<close>

definition basic_finish ::
    "revm \<Rightarrow> database_ref \<Rightarrow> mv_memory \<Rightarrow> mv_memory \<Rightarrow> address \<Rightarrow> location_hash \<Rightarrow> i257 \<Rightarrow> u64 \<Rightarrow> account_info
      \<Rightarrow> vmdb \<Rightarrow> (read_error + account_info option) \<times> vmdb" where
  "basic_finish R D m_hash m_code a loc balance_addition nonce_addition acc db =
     (let nonce = ai_nonce acc + nonce_addition in
      case (if loc = from_hash db then nonce_check (db_tx_idx db) (db_tx db) nonce else None) of
        Some e \<Rightarrow> (Inl e, db)
      | None \<Rightarrow>
          (let balance = abs_value (i257_add balance_addition (i257_from (ai_balance acc))) in
           case (if Some loc = to_hash db then (Inr (to_code_hash db), db) else get_code_hash R D m_hash a db) of
             (Inl e, db') \<Rightarrow> (Inl e, db')
           | (Inr code_hash, db') \<Rightarrow>
               (case lookup_code R D m_code code_hash of
                  Inl e \<Rightarrow> (Inl e, db')
                | Inr code \<Rightarrow>
                    (let meta = (if code_hash = None then EOA (balance, nonce) else CA (balance, nonce)) in
                     (Inr (Some \<lparr>ai_balance = balance, ai_nonce = nonce,
                        ai_code_hash = (case code_hash of None \<Rightarrow> KECCAK_EMPTY R | Some h \<Rightarrow> h),
                        ai_code = Some code\<rparr>),
                      db'\<lparr>read_accounts := (read_accounts db')(loc \<mapsto> meta)\<rparr>)))))"

definition vmdb_basic ::
    "revm \<Rightarrow> database_ref \<Rightarrow> mv_memory \<Rightarrow> mv_memory \<Rightarrow> mv_memory \<Rightarrow> address \<Rightarrow> vmdb
      \<Rightarrow> (read_error + account_info option) \<times> vmdb" where
  "vmdb_basic R D m m_hash m_code a db =
     (let loc = hash_basic R a db in
      if is_lazy db \<and> loc = from_hash db then
        (Inr (Some \<lparr>ai_balance = - 1, ai_nonce = te_nonce (db_tx db), ai_code_hash = KECCAK_EMPTY R,
                    ai_code = Some (bytecode_default R)\<rparr>), db)
      else if is_lazy db \<and> Some loc = to_hash db then (Inr None, db)
      else
        (let prev = origins_at db loc;
             db = put_origins loc prev db;
             it = (if db_tx_idx db > 0 then bt_below (db_tx_idx db) (entries_of (mv_data m) loc) else [])
         in case basic_walk prev it [] i257_NEGATIVE_ZERO 0 of
              Inl e \<Rightarrow> (Inl e, db)
            | Inr (final_account, new_origins, balance_addition, nonce_addition) \<Rightarrow>
                (case (if final_account = None
                       then basic_fallback R D a prev new_origins balance_addition
                       else Inr (final_account, new_origins)) of
                   Inl e \<Rightarrow> (Inl e, db)
                 | Inr (final_account', new_origins') \<Rightarrow>
                     (let db' = (if prev = [] then put_origins loc new_origins' db else db) in
                      case final_account' of
                        None \<Rightarrow> (Inr None, db')
                      | Some acc \<Rightarrow>
                          basic_finish R D m_hash m_code a loc balance_addition nonce_addition acc db'))))"

section \<open>The other reads\<close>

definition lift_storage :: "string + 'a \<Rightarrow> read_error + 'a" where
  "lift_storage r = (case r of Inl err \<Rightarrow> Inl (StorageError err) | Inr x \<Rightarrow> Inr x)"

definition vmdb_code_by_hash :: "database_ref \<Rightarrow> b256 \<Rightarrow> vmdb \<Rightarrow> (read_error + bytecode) \<times> vmdb" where
  "vmdb_code_by_hash D h db = (lift_storage (code_by_hash_ref D h), db)"

definition vmdb_storage ::
    "revm \<Rightarrow> database_ref \<Rightarrow> mv_memory \<Rightarrow> address \<Rightarrow> u256 \<Rightarrow> vmdb \<Rightarrow> (read_error + u256) \<times> vmdb" where
  "vmdb_storage R D m a index db =
     (let loc = hash_location R (Storage a index);
          os = origins_at db loc;
          db = put_origins loc os db
      in case (if db_tx_idx db > 0 then closest m loc (db_tx_idx db) else None) of
           Some (i, Data inc (VStorage val)) \<Rightarrow>
             (case push_origin os (OriginMvMemory \<lparr>tv_idx = i, tv_incarnation = inc\<rparr>) of
                Inl e \<Rightarrow> (Inl e, db)
              | Inr os' \<Rightarrow> (Inr val, put_origins loc os' db))
         | Some (i, Estimate) \<Rightarrow> (Inl (Blocking i), db)
         | Some _ \<Rightarrow> (Inl InvalidValueType, db)
         | None \<Rightarrow>
             (case push_origin os OriginStorage of
                Inl e \<Rightarrow> (Inl e, db)
              | Inr os' \<Rightarrow> (lift_storage (storage_ref D a index), put_origins loc os' db)))"

definition vmdb_block_hash :: "database_ref \<Rightarrow> u64 \<Rightarrow> vmdb \<Rightarrow> (read_error + b256) \<times> vmdb" where
  "vmdb_block_hash D number db = (lift_storage (block_hash_ref D number), db)"

section \<open>Running the virtual machine against the database\<close>

text \<open>
  \<open>mems\<close> gives the memory at each access: the \<open>k\<close>-th call uses \<open>mems (3 * k)\<close> and, when it
  accesses the memory again, the two after it. The constant function describes a run that no
  other thread interferes with. An answer continues the run, an error ends it.
\<close>

definition answer ::
    "(read_error + 'a) \<times> vmdb \<Rightarrow> ('a \<Rightarrow> vmdb \<Rightarrow> ((read_error, 't) evm_error + 'r) \<times> vmdb)
      \<Rightarrow> ((read_error, 't) evm_error + 'r) \<times> vmdb" where
  "answer rd cont = (case rd of (Inl e, db) \<Rightarrow> (Inl (EDatabase e), db) | (Inr x, db) \<Rightarrow> cont x db)"

primrec run_evm ::
    "revm \<Rightarrow> database_ref \<Rightarrow> (((read_error, 't) evm_error + 'r) evm) \<Rightarrow> (nat \<Rightarrow> mv_memory) \<Rightarrow> nat \<Rightarrow> vmdb
      \<Rightarrow> ((read_error, 't) evm_error + 'r) \<times> vmdb" where
  "run_evm R D (Done r) mems k db = (r, db)"
| "run_evm R D (GetBasic a c) mems k db =
     answer (vmdb_basic R D (mems (3 * k)) (mems (3 * k + 1)) (mems (3 * k + 2)) a db)
        (\<lambda>x. run_evm R D (c x) mems (Suc k))"
| "run_evm R D (GetCode h c) mems k db =
     answer (vmdb_code_by_hash D h db) (\<lambda>x. run_evm R D (c x) mems (Suc k))"
| "run_evm R D (GetStorage a i c) mems k db =
     answer (vmdb_storage R D (mems (3 * k)) a i db) (\<lambda>x. run_evm R D (c x) mems (Suc k))"
| "run_evm R D (GetBlockHash n c) mems k db =
     answer (vmdb_block_hash D n db) (\<lambda>x. run_evm R D (c x) mems (Suc k))"

end
