(* ===== verification/Vm.thy ===== *)
theory Vm
  imports Vm_Database
begin

text \<open>
  Executing one transaction (\<open>crates/pe/src/vm.rs\<close>, \<open>struct Vm\<close>): \<open>vm_new\<close>, \<open>vm_execute\<close> and
  \<open>apply_rewards\<close>. The virtual machine is the argument \<open>transact\<close>: for an environment and a
  transaction the tree of database calls of \<open>WithoutRewardBeneficiaryHandler::run\<close>, which ends
  with an error or with the execution result and the changed accounts. The handler does not pay
  the beneficiary; \<open>apply_rewards\<close> adds the payment to the write set.

  \<open>vm_execute\<close> takes the memories seen by the reads (\<open>mems\<close>) and the memory at the end of the
  run, to which the new bytecodes, the lazy addresses and the read and write sets are added.
\<close>

type_synonym evm_outcome = "execution_error + execution_result \<times> evm_state"

record vm =
  vm_db :: database_ref
  vm_evm_env :: evm_env
  vm_txs :: "tx_env list"
  beneficiary_location_hash :: location_hash
  vm_reward_policy :: reward_policy_t

definition vm_new :: "revm \<Rightarrow> database_ref \<Rightarrow> evm_env \<Rightarrow> tx_env list \<Rightarrow> vm" where
  "vm_new R D env txs =
     \<lparr>vm_db = D, vm_evm_env = env, vm_txs = txs,
      beneficiary_location_hash = hash_location R (Basic (ee_beneficiary env)),
      vm_reward_policy = reward_policy\<rparr>"

section \<open>Rewards\<close>

definition effective_gas_price :: "evm_env \<Rightarrow> tx_env \<Rightarrow> u128" where
  "effective_gas_price env tx =
     (let basefee = ucast (ee_basefee env) :: u128;
          price = (case te_gas_priority_fee tx of
                     Some priority_fee \<Rightarrow> min (te_gas_price tx) (saturating_add priority_fee basefee)
                   | None \<Rightarrow> te_gas_price tx)
      in if ee_london env then saturating_sub price basefee else price)"

text \<open>Adding one reward to the value that is written for its recipient.\<close>

fun reward_value :: "u256 \<Rightarrow> location_value \<Rightarrow> location_value option" where
  "reward_value amount (VBasic basic) =
     Some (VBasic (basic\<lparr>ai_balance := saturating_add (ai_balance basic) amount\<rparr>))"
| "reward_value amount (LazySender subtraction) = Some (LazySender (saturating_sub subtraction amount))"
| "reward_value amount (LazyRecipient addition) = Some (LazyRecipient (saturating_add addition amount))"
| "reward_value amount _ = None"

fun apply_reward_list :: "(location_hash \<times> u256) list \<Rightarrow> write_set \<Rightarrow> vm_execution_error + write_set" where
  "apply_reward_list [] ws = Inr ws"
| "apply_reward_list ((recipient, amount) # rewards) ws =
     (case map_of ws recipient of
        Some val \<Rightarrow>
          (case reward_value amount val of
             Some val' \<Rightarrow> apply_reward_list rewards (AList.update recipient val' ws)
           | None \<Rightarrow> Inl (vm_error_of_read_error InvalidValueType))
      | None \<Rightarrow> apply_reward_list rewards (AList.update recipient (LazyRecipient amount) ws))"

definition rewards_of :: "vm \<Rightarrow> tx_env \<Rightarrow> u256 \<Rightarrow> (location_hash \<times> u256) list" where
  "rewards_of V tx gas_used =
     (case vm_reward_policy V of
        Ethereum \<Rightarrow>
          [(beneficiary_location_hash V,
            saturating_mul (ucast (effective_gas_price (vm_evm_env V) tx)) gas_used)])"

definition apply_rewards :: "vm \<Rightarrow> tx_env \<Rightarrow> u256 \<Rightarrow> write_set \<Rightarrow> vm_execution_error + write_set" where
  "apply_rewards V tx gas_used ws = apply_reward_list (rewards_of V tx gas_used) ws"

section \<open>The write set\<close>

definition is_eoa :: "account_meta \<Rightarrow> bool" where
  "is_eoa meta = (case meta of EOA _ \<Rightarrow> True | CA _ \<Rightarrow> False)"

text \<open>Whether the account carries code that was not there before.\<close>

definition is_new_code :: "revm \<Rightarrow> account \<Rightarrow> account_meta option \<Rightarrow> bool" where
  "is_new_code R acc read_account \<longleftrightarrow>
     \<not> is_empty_code_hash R (acc_info acc)
     \<and> (case read_account of None \<Rightarrow> True | Some meta \<Rightarrow> is_eoa meta)"

definition account_changed :: "revm \<Rightarrow> location_hash \<Rightarrow> location_hash \<Rightarrow> account \<Rightarrow> account_meta option \<Rightarrow> bool" where
  "account_changed R loc from_h acc read_account \<longleftrightarrow>
     is_new_code R acc read_account
     \<or> loc = from_h
     \<or> read_account = None
     \<or> (case read_account of
          None \<Rightarrow> False
        | Some meta \<Rightarrow> meta \<noteq> CA (ai_balance (acc_info acc), ai_nonce (acc_info acc))
                     \<and> meta \<noteq> EOA (ai_balance (acc_info acc), ai_nonce (acc_info acc)))"

definition write_basic ::
    "revm \<Rightarrow> evm_env \<Rightarrow> tx_env \<Rightarrow> vmdb \<Rightarrow> location_hash \<Rightarrow> account \<Rightarrow> write_set \<Rightarrow> write_set" where
  "write_basic R env tx db loc acc ws =
     (let info = acc_info acc in
      if is_lazy db then
        (if loc = from_hash db then AList.update loc (LazySender (- 1 - ai_balance info)) ws
         else if Some loc = to_hash db then AList.update loc (LazyRecipient (te_value tx)) ws
         else ws)
      else if \<not> ee_spurious_dragon env \<or> \<not> account_is_empty R acc then
        AList.update loc
          (VBasic \<lparr>ai_balance = ai_balance info, ai_nonce = ai_nonce info,
             ai_code_hash = ai_code_hash info, ai_code = ai_code info\<rparr>) ws
      else ws)"

text \<open>\<open>new_bytecodes.entry(h).or_insert_with(|| code.unwrap_or_default())\<close>\<close>

definition insert_bytecode :: "revm \<Rightarrow> account_info \<Rightarrow> (b256 \<rightharpoonup> bytecode) \<Rightarrow> (b256 \<rightharpoonup> bytecode)" where
  "insert_bytecode R info codes =
     (case codes (ai_code_hash info) of
        Some _ \<Rightarrow> codes
      | None \<Rightarrow> codes(ai_code_hash info \<mapsto>
                  (case ai_code info of Some c \<Rightarrow> c | None \<Rightarrow> bytecode_default R)))"

definition write_slots :: "revm \<Rightarrow> address \<Rightarrow> account \<Rightarrow> write_set \<Rightarrow> write_set" where
  "write_slots R a acc ws =
     fold (\<lambda>(slot, present) ws. AList.update (hash_location R (Storage a slot)) (VStorage present) ws)
       (changed_storage_slots R acc) ws"

definition write_account ::
    "revm \<Rightarrow> evm_env \<Rightarrow> tx_env \<Rightarrow> vmdb \<Rightarrow> address \<times> account \<Rightarrow> write_set \<times> (b256 \<rightharpoonup> bytecode)
      \<Rightarrow> write_set \<times> (b256 \<rightharpoonup> bytecode)" where
  "write_account R env tx db a_acc acc_in =
     (case a_acc of (a, acc) \<Rightarrow> case acc_in of (ws, codes) \<Rightarrow>
        if acc_selfdestructed acc then
          (AList.update (hash_location R (CodeHash a)) SelfDestructed ws, codes)
        else
          (let (ws1, codes1) =
             (if acc_touched acc then
                (let loc = hash_location R (Basic a);
                     read_account = read_accounts db loc;
                     new_code = is_new_code R acc read_account;
                     ws' = (if account_changed R loc (from_hash db) acc read_account
                            then write_basic R env tx db loc acc ws else ws)
                 in if new_code then
                      (AList.update (hash_location R (CodeHash a)) (VCodeHash (ai_code_hash (acc_info acc))) ws',
                       insert_bytecode R (acc_info acc) codes)
                    else (ws', codes))
              else (ws, codes))
           in (write_slots R a acc ws1, codes1)))"

definition write_accounts ::
    "revm \<Rightarrow> evm_env \<Rightarrow> tx_env \<Rightarrow> vmdb \<Rightarrow> evm_state \<Rightarrow> (b256 \<rightharpoonup> bytecode) \<Rightarrow> write_set \<times> (b256 \<rightharpoonup> bytecode)" where
  "write_accounts R env tx db state codes = fold (write_account R env tx db) state ([], codes)"

section \<open>Execution\<close>

text \<open>What an error of the virtual machine means for the scheduler.\<close>

definition execution_failed :: "nat \<Rightarrow> execution_error \<Rightarrow> vm_execution_error" where
  "execution_failed tx_idx err =
     (case err of
        EDatabase read_error \<Rightarrow> vm_error_of_read_error read_error
      | ETransaction (LackOfFundForMaxFee _ _) \<Rightarrow>
          if tx_idx > 0 then VmBlocking (tx_idx - 1) else VmExecutionError err
      | ETransaction (InvNonceTooHigh _ _) \<Rightarrow>
          if tx_idx > 0 then VmBlocking (tx_idx - 1) else VmExecutionError err
      | _ \<Rightarrow> VmExecutionError err)"

text \<open>
  The part after a successful run. The new bytecodes are stored before the rewards are applied,
  the lazy addresses and the sets after, as in the code; a failing conversion of the transaction
  type comes last.
\<close>

definition execution_succeeded ::
    "revm \<Rightarrow> (write_set \<Rightarrow> vm_execution_error + write_set) \<Rightarrow> evm_env \<Rightarrow> tx_env \<Rightarrow> tx_version \<Rightarrow> vmdb
      \<Rightarrow> execution_result \<Rightarrow> evm_state \<Rightarrow> mv_memory
      \<Rightarrow> (vm_execution_error + vm_execution_result) \<times> mv_memory" where
  "execution_succeeded R rewards env tx v db result state m =
     (case write_accounts R env tx db state (new_bytecodes m) of
        (ws, codes) \<Rightarrow>
          (let m1 = m\<lparr>new_bytecodes := codes\<rparr> in
           case rewards ws of
             Inl e \<Rightarrow> (Inl e, m1)
           | Inr ws' \<Rightarrow>
               (let m2 = (if is_lazy db then
                            (case te_kind tx of
                               Call to \<Rightarrow> add_lazy_addresses [to] (add_lazy_addresses [te_caller tx] m1)
                             | Create \<Rightarrow> add_lazy_addresses [te_caller tx] m1)
                          else m1);
                    flags = (if tv_idx v > 0 \<and> \<not> is_lazy db then NeedValidation else flags_empty)
                in case mv_record v (db_read_set db) ws' m2 of
                     (wrote_new_location, m3) \<Rightarrow>
                       (let flags' = (if wrote_new_location then flags_or flags WroteNewLocation else flags) in
                        case tx_type_try_from R (te_tx_type tx) of
                          Inl err \<Rightarrow> (Inl (VmExecutionError (ECustom err)), m3)
                        | Inr ty \<Rightarrow>
                            (Inr \<lparr>vr_execution_result = from_raw ty result state, vr_flags = flags'\<rparr>, m3)))))"

text \<open>The reads of one execution: building the database and running the virtual machine.\<close>

definition vm_read_phase ::
    "revm \<Rightarrow> (evm_env \<Rightarrow> tx_env \<Rightarrow> evm_outcome evm) \<Rightarrow> vm \<Rightarrow> nat \<Rightarrow> (nat \<Rightarrow> mv_memory)
      \<Rightarrow> read_error + evm_outcome \<times> vmdb" where
  "vm_read_phase R transact V tx_idx mems =
     (let tx = vm_txs V ! tx_idx;
          from_h = hash_location R (Basic (te_caller tx));
          to_h = (case te_kind tx of Call to \<Rightarrow> Some (hash_location R (Basic to)) | Create \<Rightarrow> None)
      in case vmdb_new R (vm_db V) (mems 0) (mems 1) (mems 2) tx_idx tx from_h to_h of
           Inl e \<Rightarrow> Inl e
         | Inr db \<Rightarrow> Inr (run_evm R (vm_db V) (transact (vm_evm_env V) tx) mems 1 db))"

definition vm_execute ::
    "revm \<Rightarrow> (evm_env \<Rightarrow> tx_env \<Rightarrow> evm_outcome evm) \<Rightarrow> vm \<Rightarrow> tx_version \<Rightarrow> (nat \<Rightarrow> mv_memory) \<Rightarrow> mv_memory
      \<Rightarrow> (vm_execution_error + vm_execution_result) \<times> mv_memory" where
  "vm_execute R transact V v mems m =
     (let tx = vm_txs V ! tv_idx v in
      case vm_read_phase R transact V (tv_idx v) mems of
        Inl e \<Rightarrow> (Inl (vm_error_of_read_error e), m)
      | Inr (Inl err, db) \<Rightarrow> (Inl (execution_failed (tv_idx v) err), m)
      | Inr (Inr (result, state), db) \<Rightarrow>
          execution_succeeded R (apply_rewards V tx (ucast (er_gas_used result))) (vm_evm_env V) tx v db
            result state m)"

section \<open>What the rewards amount to\<close>

text \<open>The price per unit of gas as an exact number.\<close>

definition reward_price :: "evm_env \<Rightarrow> tx_env \<Rightarrow> nat" where
  "reward_price env tx =
     (let basefee = unat (ee_basefee env);
          price = (case te_gas_priority_fee tx of
                     Some priority_fee \<Rightarrow> min (unat (te_gas_price tx)) (unat priority_fee + basefee)
                   | None \<Rightarrow> unat (te_gas_price tx))
      in if ee_london env then price - basefee else price)"

lemma unat_ucast_up:
  assumes "LENGTH('a::len) \<le> LENGTH('b::len)"
  shows "unat (ucast (x :: 'a word) :: 'b word) = unat x"
proof -
  have "unat x < 2 ^ LENGTH('b)"
    using unsigned_less[of x, where 'a = nat] assms by (meson less_le_trans one_le_numeral power_increasing)
  then show ?thesis by (simp add: unsigned_ucast_eq take_bit_nat_eq_self)
qed

lemma unat_effective_gas_price: "unat (effective_gas_price env tx) = reward_price env tx"
proof -
  have b: "unat (ucast (ee_basefee env) :: u128) = unat (ee_basefee env)" by (rule unat_ucast_up) simp
  have le: "unat (te_gas_price tx) \<le> 2 ^ 128 - 1" using unsigned_less[of "te_gas_price tx", where 'a = nat] by simp
  have m: "unat (min x y) = min (unat x) (unat y)" for x y :: u128 by (simp add: min_def word_le_nat_alt)
  show ?thesis
    using le by (auto simp: effective_gas_price_def reward_price_def Let_def sat_simps b m split: option.split)
qed

lemma reward_amount_exact:
  "unat (saturating_mul (ucast (effective_gas_price env tx)) (ucast gas) :: u256) = reward_price env tx * unat (gas :: u64)"
proof -
  have p: "unat (ucast (effective_gas_price env tx) :: u256) = reward_price env tx"
    using unat_ucast_up[of "effective_gas_price env tx", where 'b = 256] unat_effective_gas_price by simp
  have g: "unat (ucast gas :: u256) = unat gas" by (rule unat_ucast_up) simp
  have "reward_price env tx \<le> 2 ^ 128" "unat gas \<le> 2 ^ 64"
    using unsigned_less[of "effective_gas_price env tx", where 'a = nat] unsigned_less[of gas, where 'a = nat]
    by (simp_all add: unat_effective_gas_price)
  then have "reward_price env tx * unat gas \<le> 2 ^ 128 * 2 ^ 64" by (rule mult_le_mono)
  then show ?thesis by (simp add: sat_simps p g)
qed

lemma apply_reward_list_spec:
  assumes "apply_reward_list rs ws = Inr ws'" "distinct (map fst rs)"
  shows "map_of ws' loc =
    (case map_of rs loc of
       None \<Rightarrow> map_of ws loc
     | Some amount \<Rightarrow> (case map_of ws loc of None \<Rightarrow> Some (LazyRecipient amount) | Some val \<Rightarrow> reward_value amount val))"
  using assms
proof (induction rs ws rule: apply_reward_list.induct)
  case (2 recipient amount rewards ws)
  have None: "map_of rewards recipient = None" using "2.prems"(2) by (simp add: map_of_eq_None_iff)
  show ?case
  proof (cases "map_of ws recipient")
    case None': None
    then show ?thesis using "2.IH"(1)[OF None'] "2.prems" None by (auto simp: update_conv' split: option.split)
  next
    case (Some val)
    then obtain val' where "reward_value amount val = Some val'" using "2.prems"(1) by (auto split: option.splits)
    then show ?thesis using "2.IH"(2)[OF Some] "2.prems" None Some by (auto simp: update_conv' split: option.split)
  qed
qed simp

section \<open>Properties\<close>


end
