(* ===== verification/Vm_Replay.thy ===== *)
theory Vm_Replay
  imports Vm
begin

text \<open>
  What a validated read set guarantees. An execution reads from a memory that other threads
  change while it runs. If its recorded origins are valid in some later memory, then the same
  execution run without interference in that memory makes the same reads, ends with the same
  result and records the same origins (\<open>run_replay\<close>). This is the step from concurrent to
  atomic executions; it rests on the meaning of validation proved in theory \<open>Mv_Memory\<close>.

  Assumptions on the memories, stated as hypotheses: a version stands for one value per
  location (\<open>versions_agree\<close>; every version is recorded once, see \<open>versions_finish_once\<close>), a
  code hash stands for one bytecode \<open>K\<close>, under which it is stored before the hash is published
  (\<open>codes_ok\<close>, \<open>stored_codes\<close>), and the hashes of the locations \<open>L\<close> the execution uses do not
  collide.
\<close>

section \<open>Walks\<close>

definition walk_of :: "mv_memory \<Rightarrow> location_hash \<Rightarrow> nat \<Rightarrow> (nat \<times> entry) list" where
  "walk_of m loc i = bt_below i (entries_of (mv_data m) loc)"

lemma closest_walk:
  "closest m loc i = (case walk_of m loc i of [] \<Rightarrow> None | e # _ \<Rightarrow> Some e)"
  by (simp add: closest_def walk_of_def entries_of_def bt_below_def bt_range_def split: option.splits)

lemma walk_of_0 [simp]: "walk_of m loc 0 = []"
  by (simp add: walk_of_def)

lemma origins_now_walk: "origins_now (mv_data m) i loc = map origin_of (walk_of m loc i) @ [Some OriginStorage]"
  by (simp add: origins_now_def walk_of_def)

definition versions_agree :: "mv_memory \<Rightarrow> mv_memory \<Rightarrow> bool" where
  "versions_agree m m' \<longleftrightarrow> (\<forall>loc i inc val val'.
     entry_at (mv_data m) loc i = Some (Data inc val) \<longrightarrow>
     entry_at (mv_data m') loc i = Some (Data inc val') \<longrightarrow> val = val')"

text \<open>
  The bytecodes. \<open>K\<close> gives the code of a hash. Every code hash that is published in the memory
  has its bytecode there, and the database has the bytecodes of its accounts.
\<close>

definition codes_ok :: "(b256 \<Rightarrow> bytecode) \<Rightarrow> mv_memory \<Rightarrow> bool" where
  "codes_ok K m \<longleftrightarrow> (\<forall>h c. new_bytecodes m h = Some c \<longrightarrow> c = K h)
     \<and> (\<forall>loc i inc h. entry_at (mv_data m) loc i = Some (Data inc (VCodeHash h)) \<longrightarrow> new_bytecodes m h \<noteq> None)"

definition stored_codes :: "database_ref \<Rightarrow> (b256 \<Rightarrow> bytecode) \<Rightarrow> bool" where
  "stored_codes D K \<longleftrightarrow> (\<forall>a acc. basic_ref D a = Inr (Some acc) \<longrightarrow>
     code_by_hash_ref D (ai_code_hash acc) = Inr (K (ai_code_hash acc)))"

definition code_known :: "database_ref \<Rightarrow> mv_memory \<Rightarrow> b256 option \<Rightarrow> bool" where
  "code_known D m h \<longleftrightarrow> (\<forall>k. h = Some k \<longrightarrow> new_bytecodes m k \<noteq> None
     \<or> (\<exists>a acc. basic_ref D a = Inr (Some acc) \<and> ai_code_hash acc = k))"

definition compatible :: "database_ref \<Rightarrow> (b256 \<Rightarrow> bytecode) \<Rightarrow> mv_memory \<Rightarrow> mv_memory \<Rightarrow> bool" where
  "compatible D K m m' \<longleftrightarrow> data_sorted (mv_data m) \<and> data_sorted (mv_data m')
     \<and> versions_agree m m' \<and> codes_ok K m \<and> codes_ok K m' \<and> stored_codes D K"

text \<open>The memories a run sees one after the other: the bytecodes only grow.\<close>

definition compatible_run :: "database_ref \<Rightarrow> (b256 \<Rightarrow> bytecode) \<Rightarrow> (nat \<Rightarrow> mv_memory) \<Rightarrow> mv_memory \<Rightarrow> bool" where
  "compatible_run D K mems m \<longleftrightarrow> (\<forall>j. compatible D K (mems j) m)
     \<and> (\<forall>j k. j \<le> k \<longrightarrow> new_bytecodes (mems j) \<subseteq>\<^sub>m new_bytecodes (mems k))"

lemma compatible_const: "compatible D K m m' \<Longrightarrow> compatible_run D K (\<lambda>_. m) m'"
  by (simp add: compatible_run_def)

lemma code_known_mono: "code_known D m h \<Longrightarrow> new_bytecodes m \<subseteq>\<^sub>m new_bytecodes m' \<Longrightarrow> code_known D m' h"
  by (auto simp: code_known_def map_le_def) (metis domI option.distinct(1))

lemma lookup_known:
  assumes "codes_ok K m" "stored_codes D K" "code_known D m h"
  shows "lookup_code R D m h = Inr (case h of None \<Rightarrow> bytecode_default R | Some k \<Rightarrow> K k)"
  using assms by (auto simp: lookup_code_def code_known_def codes_ok_def stored_codes_def split: option.split)

lemma walk_entry:
  assumes "data_sorted (mv_data m)" "(j, e) \<in> set (walk_of m loc i)"
  shows "entry_at (mv_data m) loc j = Some e"
  using assms set_bt_below[OF data_sorted_entries] by (simp add: walk_of_def entry_at_def)

lemma walks_agree:
  assumes "compatible D K m m'" "(j, Data inc val) \<in> set (walk_of m loc i)"
    "(j, Data inc val') \<in> set (walk_of m' loc i)"
  shows "val' = val"
  using assms walk_entry unfolding compatible_def versions_agree_def by blast

section \<open>Well-formed databases\<close>

definition hashed :: "revm \<Rightarrow> location set \<Rightarrow> location_hash set" where
  "hashed R L = hash_location R ` {l \<in> L. \<forall>a. l \<noteq> Basic a}"

definition db_ok :: "revm \<Rightarrow> location set \<Rightarrow> vmdb \<Rightarrow> bool" where
  "db_ok R L db \<longleftrightarrow>
     (\<forall>a. hash_basic R a db = hash_location R (Basic a))
     \<and> (\<forall>loc. origins_at db loc \<noteq> [] \<longrightarrow> origins_wf (origins_at db loc))
     \<and> (\<forall>loc \<in> hashed R L. length (origins_at db loc) \<le> 1)"

definition origins_kept :: "vmdb \<Rightarrow> vmdb \<Rightarrow> bool" where
  "origins_kept db db' \<longleftrightarrow> (\<forall>loc. origins_at db loc \<noteq> [] \<longrightarrow> origins_at db' loc = origins_at db loc)
     \<and> db_tx_idx db' = db_tx_idx db \<and> to_code_hash db' = to_code_hash db"

definition origins_valid_in :: "mv_memory \<Rightarrow> vmdb \<Rightarrow> bool" where
  "origins_valid_in m db \<longleftrightarrow>
     (\<forall>loc. origins_at db loc \<noteq> [] \<longrightarrow> read_valid (mv_data m) (db_tx_idx db) (loc, origins_at db loc))"

lemma origins_at_put [simp]:
  "origins_at (put_origins loc os db) loc' = (if loc' = loc then os else origins_at db loc')"
  by (simp add: origins_at_def put_origins_def update_conv')

lemma put_origins_fields [simp]:
  "db_tx_idx (put_origins loc os db) = db_tx_idx db" "db_tx (put_origins loc os db) = db_tx db"
  "from_hash (put_origins loc os db) = from_hash db" "to_hash (put_origins loc os db) = to_hash db"
  "to_code_hash (put_origins loc os db) = to_code_hash db" "is_lazy (put_origins loc os db) = is_lazy db"
  "read_accounts (put_origins loc os db) = read_accounts db"
  "hash_basic R a (put_origins loc os db) = hash_basic R a db"
  by (simp_all add: put_origins_def hash_basic_def split: tx_kind.splits)

lemma origins_kept_trans: "origins_kept a b \<Longrightarrow> origins_kept b c \<Longrightarrow> origins_kept a c"
  by (simp add: origins_kept_def)

lemma origins_valid_back: "origins_kept a b \<Longrightarrow> origins_valid_in m b \<Longrightarrow> origins_valid_in m a"
  unfolding origins_kept_def origins_valid_in_def by metis

lemma origins_valid_put:
  assumes "origins_valid_in m (put_origins loc os db)" "os \<noteq> []"
  shows "read_valid (mv_data m) (db_tx_idx db) (loc, os)"
  using assms(1)[unfolded origins_valid_in_def, rule_format, of loc] assms(2) by simp

lemma db_ok_put:
  "db_ok R L db \<Longrightarrow> origins_wf os \<Longrightarrow> (loc \<in> hashed R L \<Longrightarrow> length os \<le> 1) \<Longrightarrow> db_ok R L (put_origins loc os db)"
  by (auto simp: db_ok_def)

lemma db_ok_put_same: "db_ok R L db \<Longrightarrow> db_ok R L (put_origins loc (origins_at db loc) db)"
  by (auto simp: db_ok_def)

lemma origins_wf_single [simp]: "origins_wf [orig]"
  by (simp add: origins_wf_def)

text \<open>Pushing an origin where at most one is recorded.\<close>

lemma push_origin_single:
  assumes "length os \<le> 1" "push_origin os orig = Inr os'"
  shows "os' = [orig]" "os \<noteq> [] \<Longrightarrow> os = [orig]"
  using assms by (cases os; auto simp: push_origin_def split: if_splits)+

lemma single_valid:
  assumes "read_valid (mv_data m) i (loc, [orig])"
  shows "orig = OriginStorage \<Longrightarrow> walk_of m loc i = []"
    and "orig = OriginMvMemory \<lparr>tv_idx = j, tv_incarnation = inc\<rparr> \<Longrightarrow>
      \<exists>val rest. walk_of m loc i = (j, Data inc val) # rest"
proof -
  have p: "prefix [Some orig] (map origin_of (walk_of m loc i) @ [Some OriginStorage])"
    using assms read_valid_prefix[of "[orig]"] by (simp add: origins_now_walk)
  show "walk_of m loc i = []" if "orig = OriginStorage"
    using p that by (cases "walk_of m loc i"; cases "hd (walk_of m loc i)" rule: origin_of.cases) auto
  show "\<exists>val rest. walk_of m loc i = (j, Data inc val) # rest"
    if "orig = OriginMvMemory \<lparr>tv_idx = j, tv_incarnation = inc\<rparr>"
    using p that by (cases "walk_of m loc i"; cases "hd (walk_of m loc i)" rule: origin_of.cases) auto
qed

section \<open>Single reads\<close>

lemma get_code_hash_code:
  assumes "walk_of m (hash_location R (CodeHash a)) (db_tx_idx db) = (i, Data inc (VCodeHash hh)) # rest"
  shows "get_code_hash R D m a db =
    (case push_origin (origins_at db (hash_location R (CodeHash a)))
            (OriginMvMemory \<lparr>tv_idx = i, tv_incarnation = inc\<rparr>) of
       Inl e \<Rightarrow> (Inl e, put_origins (hash_location R (CodeHash a)) (origins_at db (hash_location R (CodeHash a))) db)
     | Inr os \<Rightarrow> (Inr (Some hh), put_origins (hash_location R (CodeHash a)) os
         (put_origins (hash_location R (CodeHash a)) (origins_at db (hash_location R (CodeHash a))) db)))"
  using assms by (simp add: get_code_hash_def Let_def closest_walk)

lemma get_code_hash_storage:
  assumes "\<And>i inc val rest. walk_of m (hash_location R (CodeHash a)) (db_tx_idx db) = (i, Data inc val) # rest \<Longrightarrow>
      val \<noteq> SelfDestructed \<and> (\<forall>hh. val \<noteq> VCodeHash hh)"
  shows "get_code_hash R D m a db =
    (case push_origin (origins_at db (hash_location R (CodeHash a))) OriginStorage of
       Inl e \<Rightarrow> (Inl e, put_origins (hash_location R (CodeHash a)) (origins_at db (hash_location R (CodeHash a))) db)
     | Inr os \<Rightarrow> (storage_code_hash D a, put_origins (hash_location R (CodeHash a)) os
         (put_origins (hash_location R (CodeHash a)) (origins_at db (hash_location R (CodeHash a))) db)))"
proof (cases "walk_of m (hash_location R (CodeHash a)) (db_tx_idx db)")
  case Nil
  then show ?thesis by (simp add: get_code_hash_def Let_def closest_walk)
next
  case (Cons p rest)
  obtain i e where p: "p = (i, e)" by force
  show ?thesis
  proof (cases e)
    case (Data inc val)
    then show ?thesis using assms[of i inc val rest] Cons p
      by (cases val) (simp_all add: get_code_hash_def Let_def closest_walk)
  qed (simp add: get_code_hash_def Let_def closest_walk Cons p)
qed

lemma get_code_hash_selfdestructed:
  assumes "walk_of m (hash_location R (CodeHash a)) (db_tx_idx db) = (i, Data inc SelfDestructed) # rest"
  shows "fst (get_code_hash R D m a db) = Inl SelfDestructedAccount"
  using assms by (simp add: get_code_hash_def Let_def closest_walk)

lemma get_code_hash_cases:
  assumes g: "get_code_hash R D m1 a db = (Inr h, db')"
    and len: "length (origins_at db (hash_location R (CodeHash a))) \<le> 1"
  obtains (code) i inc hh rest where "h = Some hh"
      "walk_of m1 (hash_location R (CodeHash a)) (db_tx_idx db) = (i, Data inc (VCodeHash hh)) # rest"
      "push_origin (origins_at db (hash_location R (CodeHash a))) (OriginMvMemory \<lparr>tv_idx = i, tv_incarnation = inc\<rparr>)
         = Inr [OriginMvMemory \<lparr>tv_idx = i, tv_incarnation = inc\<rparr>]"
      "db' = put_origins (hash_location R (CodeHash a)) [OriginMvMemory \<lparr>tv_idx = i, tv_incarnation = inc\<rparr>]
         (put_origins (hash_location R (CodeHash a)) (origins_at db (hash_location R (CodeHash a))) db)"
    | (stor) "push_origin (origins_at db (hash_location R (CodeHash a))) OriginStorage = Inr [OriginStorage]"
      "storage_code_hash D a = Inr h"
      "db' = put_origins (hash_location R (CodeHash a)) [OriginStorage]
         (put_origins (hash_location R (CodeHash a)) (origins_at db (hash_location R (CodeHash a))) db)"
proof -
  let ?w = "walk_of m1 (hash_location R (CodeHash a)) (db_tx_idx db)"
  consider (self) i inc rest where "?w = (i, Data inc SelfDestructed) # rest"
    | (hash) i inc hh rest where "?w = (i, Data inc (VCodeHash hh)) # rest"
    | (other) "\<And>i inc val rest. ?w = (i, Data inc val) # rest \<Longrightarrow> val \<noteq> SelfDestructed \<and> (\<forall>hh. val \<noteq> VCodeHash hh)"
    by blast
  then show thesis
  proof cases
    case self
    then show thesis using get_code_hash_selfdestructed[OF self, of D] g by simp
  next
    case (hash i inc hh rest)
    show thesis
      using g get_code_hash_code[OF hash, of D] push_origin_single(1)[OF len]
      by (intro code[OF _ hash]) (auto split: sum.splits)
  next
    case other
    show thesis
      using g get_code_hash_storage[of m1 R a db D] other push_origin_single(1)[OF len]
      by (intro stor) (auto split: sum.splits)
  qed
qed

lemma get_code_hash_replay:
  assumes g: "get_code_hash R D m1 a db = (Inr h, db')" and ok: "db_ok R L db" and L: "CodeHash a \<in> L"
  shows "origins_kept db db'" "db_ok R L db'"
    and "origins_valid_in m db' \<Longrightarrow> compatible D K m1 m \<Longrightarrow> get_code_hash R D m a db = (Inr h, db')"
    and "\<And>loc. loc \<notin> hashed R L \<Longrightarrow> origins_at db' loc = origins_at db loc"
    and "from_hash db' = from_hash db" "to_hash db' = to_hash db" "is_lazy db' = is_lazy db"
      "db_tx db' = db_tx db" "to_code_hash db' = to_code_hash db" "read_accounts db' = read_accounts db"
proof -
  let ?loc = "hash_location R (CodeHash a)" let ?os = "origins_at db ?loc"
  have O: "?loc \<in> hashed R L" using L by (auto simp: hashed_def)
  then have len: "length ?os \<le> 1" using ok by (simp add: db_ok_def)
  obtain orig where orig: "db' = put_origins ?loc [orig] (put_origins ?loc ?os db)"
      "push_origin ?os orig = Inr [orig]"
    using g len by (cases rule: get_code_hash_cases) auto
  show "origins_kept db db'" using push_origin_single(2)[OF len orig(2)] by (simp add: orig(1) origins_kept_def)
  show "db_ok R L db'" unfolding orig(1) by (intro db_ok_put db_ok_put_same ok) simp_all
  show "\<And>loc. loc \<notin> hashed R L \<Longrightarrow> origins_at db' loc = origins_at db loc" using O by (auto simp: orig(1))
  show "from_hash db' = from_hash db" "to_hash db' = to_hash db" "is_lazy db' = is_lazy db"
    "db_tx db' = db_tx db" "to_code_hash db' = to_code_hash db" "read_accounts db' = read_accounts db"
    by (simp_all add: orig(1))
  show "get_code_hash R D m a db = (Inr h, db')" if v: "origins_valid_in m db'" and c: "compatible D K m1 m"
    using g len
  proof (cases rule: get_code_hash_cases)
    case (code i inc hh rest)
    have "read_valid (mv_data m) (db_tx_idx db) (?loc, [OriginMvMemory \<lparr>tv_idx = i, tv_incarnation = inc\<rparr>])"
      using origins_valid_put[OF v[unfolded code(4)]] by simp
    then obtain val rest' where w: "walk_of m ?loc (db_tx_idx db) = (i, Data inc val) # rest'"
      using single_valid(2)[OF _ refl] by blast
    then have "val = VCodeHash hh" using walks_agree[OF c, of i inc _ ?loc "db_tx_idx db" val] code(2) by simp
    then show ?thesis using get_code_hash_code[OF w[unfolded \<open>val = _\<close>]] code by simp
  next
    case stor
    have "read_valid (mv_data m) (db_tx_idx db) (?loc, [OriginStorage])"
      using origins_valid_put[OF v[unfolded stor(3)]] by simp
    then have "walk_of m ?loc (db_tx_idx db) = []" using single_valid(1)[OF _ refl] by blast
    then show ?thesis using get_code_hash_storage[of m R a db D] stor by simp
  qed
qed

lemma get_code_hash_known:
  assumes g: "get_code_hash R D m a db = (Inr h, db')" and c: "codes_ok K m" "data_sorted (mv_data m)"
  shows "code_known D m h"
proof (cases "\<exists>i inc k. closest m (hash_location R (CodeHash a)) (db_tx_idx db) = Some (i, Data inc (VCodeHash k))")
  case True
  then obtain i inc k where e: "closest m (hash_location R (CodeHash a)) (db_tx_idx db) = Some (i, Data inc (VCodeHash k))" by blast
  then have "(i, Data inc (VCodeHash k)) \<in> set (walk_of m (hash_location R (CodeHash a)) (db_tx_idx db))"
    by (auto simp: closest_walk split: list.splits)
  then have "entry_at (mv_data m) (hash_location R (CodeHash a)) i = Some (Data inc (VCodeHash k))" by (rule walk_entry[OF c(2)])
  then have "new_bytecodes m k \<noteq> None" using c(1) unfolding codes_ok_def by blast
  moreover have "h = Some k" using g e by (auto simp: get_code_hash_def Let_def split: sum.splits)
  ultimately show ?thesis by (simp add: code_known_def)
next
  case False
  then have "storage_code_hash D a = Inr h"
    using g by (auto simp: get_code_hash_def Let_def split: sum.splits option.splits prod.splits entry.splits location_value.splits)
  then show ?thesis by (auto simp: storage_code_hash_def code_known_def split: sum.splits)
qed

lemma vmdb_storage_none:
  assumes "walk_of m (hash_location R (Storage a idx)) (db_tx_idx db) = []"
  shows "vmdb_storage R D m a idx db =
    (case push_origin (origins_at db (hash_location R (Storage a idx))) OriginStorage of
       Inl e \<Rightarrow> (Inl e, put_origins (hash_location R (Storage a idx)) (origins_at db (hash_location R (Storage a idx))) db)
     | Inr os \<Rightarrow> (lift_storage (storage_ref D a idx), put_origins (hash_location R (Storage a idx)) os
         (put_origins (hash_location R (Storage a idx)) (origins_at db (hash_location R (Storage a idx))) db)))"
  using assms by (simp add: vmdb_storage_def Let_def closest_walk)

lemma vmdb_storage_entry:
  assumes "walk_of m (hash_location R (Storage a idx)) (db_tx_idx db) = (i, e) # rest"
  shows "vmdb_storage R D m a idx db =
    (case e of
       Data inc (VStorage x) \<Rightarrow>
         (case push_origin (origins_at db (hash_location R (Storage a idx))) (OriginMvMemory \<lparr>tv_idx = i, tv_incarnation = inc\<rparr>) of
            Inl e \<Rightarrow> (Inl e, put_origins (hash_location R (Storage a idx)) (origins_at db (hash_location R (Storage a idx))) db)
          | Inr os \<Rightarrow> (Inr x, put_origins (hash_location R (Storage a idx)) os
              (put_origins (hash_location R (Storage a idx)) (origins_at db (hash_location R (Storage a idx))) db)))
     | Estimate \<Rightarrow> (Inl (Blocking i), put_origins (hash_location R (Storage a idx)) (origins_at db (hash_location R (Storage a idx))) db)
     | _ \<Rightarrow> (Inl InvalidValueType, put_origins (hash_location R (Storage a idx)) (origins_at db (hash_location R (Storage a idx))) db))"
proof -
  have "0 < db_tx_idx db" using assms by (cases "db_tx_idx db") simp_all
  then show ?thesis
    using assms by (simp add: vmdb_storage_def Let_def closest_walk split: entry.split location_value.split)
qed

lemma vmdb_storage_cases:
  assumes g: "vmdb_storage R D m1 a idx db = (Inr x, db')"
    and len: "length (origins_at db (hash_location R (Storage a idx))) \<le> 1"
  obtains (mem) i inc rest where
      "walk_of m1 (hash_location R (Storage a idx)) (db_tx_idx db) = (i, Data inc (VStorage x)) # rest" "db_tx_idx db > 0"
      "push_origin (origins_at db (hash_location R (Storage a idx))) (OriginMvMemory \<lparr>tv_idx = i, tv_incarnation = inc\<rparr>)
         = Inr [OriginMvMemory \<lparr>tv_idx = i, tv_incarnation = inc\<rparr>]"
      "db' = put_origins (hash_location R (Storage a idx)) [OriginMvMemory \<lparr>tv_idx = i, tv_incarnation = inc\<rparr>]
         (put_origins (hash_location R (Storage a idx)) (origins_at db (hash_location R (Storage a idx))) db)"
    | (stor) "push_origin (origins_at db (hash_location R (Storage a idx))) OriginStorage = Inr [OriginStorage]"
      "lift_storage (storage_ref D a idx) = Inr x"
      "db' = put_origins (hash_location R (Storage a idx)) [OriginStorage]
         (put_origins (hash_location R (Storage a idx)) (origins_at db (hash_location R (Storage a idx))) db)"
proof (cases "walk_of m1 (hash_location R (Storage a idx)) (db_tx_idx db)")
  case Nil
  then show thesis
    using g vmdb_storage_none[OF Nil, of D] push_origin_single(1)[OF len]
    by (intro stor) (auto split: sum.splits)
next
  case (Cons p rest)
  obtain i e where p: "p = (i, e)" by force
  have pos: "0 < db_tx_idx db" using Cons by (cases "db_tx_idx db") simp_all
  note eq = vmdb_storage_entry[OF Cons[unfolded p], of D]
  obtain inc where e: "e = Data inc (VStorage x)"
    using g eq by (auto split: entry.splits location_value.splits sum.splits)
  show thesis
    using g eq push_origin_single(1)[OF len] Cons p pos
    by (intro mem[of i inc rest]) (auto simp: e split: sum.splits)
qed

lemma vmdb_storage_replay:
  assumes g: "vmdb_storage R D m1 a idx db = (Inr x, db')" and ok: "db_ok R L db" and L: "Storage a idx \<in> L"
  shows "origins_kept db db'" "db_ok R L db'"
    and "origins_valid_in m db' \<Longrightarrow> compatible D K m1 m \<Longrightarrow> vmdb_storage R D m a idx db = (Inr x, db')"
proof -
  let ?loc = "hash_location R (Storage a idx)" let ?os = "origins_at db ?loc"
  have "?loc \<in> hashed R L" using L by (auto simp: hashed_def)
  then have len: "length ?os \<le> 1" using ok by (simp add: db_ok_def)
  obtain orig where orig: "db' = put_origins ?loc [orig] (put_origins ?loc ?os db)"
      "push_origin ?os orig = Inr [orig]"
    using g len by (cases rule: vmdb_storage_cases) auto
  show "origins_kept db db'" using push_origin_single(2)[OF len orig(2)] by (simp add: orig(1) origins_kept_def)
  show "db_ok R L db'" unfolding orig(1) by (intro db_ok_put db_ok_put_same ok) simp_all
  show "vmdb_storage R D m a idx db = (Inr x, db')" if v: "origins_valid_in m db'" and c: "compatible D K m1 m"
    using g len
  proof (cases rule: vmdb_storage_cases)
    case (mem i inc rest)
    have "read_valid (mv_data m) (db_tx_idx db) (?loc, [OriginMvMemory \<lparr>tv_idx = i, tv_incarnation = inc\<rparr>])"
      using origins_valid_put[OF v[unfolded mem(4)]] by simp
    then obtain val rest' where w: "walk_of m ?loc (db_tx_idx db) = (i, Data inc val) # rest'"
      using single_valid(2)[OF _ refl] by blast
    then have "val = VStorage x" using walks_agree[OF c, of i inc _ ?loc "db_tx_idx db" val] mem(1) by simp
    then show ?thesis using vmdb_storage_entry[OF w, of D] mem by simp
  next
    case stor
    have "read_valid (mv_data m) (db_tx_idx db) (?loc, [OriginStorage])"
      using origins_valid_put[OF v[unfolded stor(3)]] by simp
    then have "walk_of m ?loc (db_tx_idx db) = []" using single_valid(1)[OF _ refl] by blast
    then show ?thesis using vmdb_storage_none[of m R a idx db D] stor by simp
  qed
qed

section \<open>Reading an account\<close>

lemma basic_walk_shape:
  assumes "basic_walk prev it new bal non = Inr (acc, new', bal', non')"
  shows "\<exists>more. new' = new @ map OriginMvMemory more \<and> (acc \<noteq> None \<longrightarrow> more \<noteq> [])"
  using assms
proof (induction prev it new bal non rule: basic_walk.induct)
  case (3 prev i inc val it new bal non)
  let ?v = "\<lparr>tv_idx = i, tv_incarnation = inc\<rparr>"
  have ok: "\<not> (prev \<noteq> [] \<and> length prev = length new)" "\<not> (prev \<noteq> [] \<and> prev ! length new \<noteq> OriginMvMemory ?v)"
    using "3.prems" by (auto split: if_splits)
  show ?case
  proof (cases val)
    case (VBasic b)
    then show ?thesis using "3.prems" ok by (auto intro!: exI[of _ "[?v]"])
  next
    case (LazyRecipient x)
    then obtain more where "new' = (new @ [OriginMvMemory ?v]) @ map OriginMvMemory more"
      using "3.IH"(1)[OF ok(1) refl ok(2) refl LazyRecipient] "3.prems" ok by auto
    then show ?thesis by (auto intro!: exI[of _ "?v # more"])
  next
    case (LazySender x)
    then obtain more where "new' = (new @ [OriginMvMemory ?v]) @ map OriginMvMemory more"
      using "3.IH"(2)[OF ok(1) refl ok(2) refl LazySender] "3.prems" ok by auto
    then show ?thesis by (auto intro!: exI[of _ "?v # more"])
  qed (use "3.prems" ok in auto)
qed auto

lemma basic_walk_step:
  assumes "\<not> (prev \<noteq> [] \<and> length prev = length new)"
    "\<not> (prev \<noteq> [] \<and> prev ! length new \<noteq> OriginMvMemory \<lparr>tv_idx = i, tv_incarnation = inc\<rparr>)"
  shows "basic_walk prev ((i, Data inc val) # it) new bal non =
    (case val of
       VBasic basic \<Rightarrow> Inr (Some basic, new @ [OriginMvMemory \<lparr>tv_idx = i, tv_incarnation = inc\<rparr>], bal, non)
     | LazyRecipient addition \<Rightarrow>
         basic_walk prev it (new @ [OriginMvMemory \<lparr>tv_idx = i, tv_incarnation = inc\<rparr>]) (i257_add bal (i257_from addition)) non
     | LazySender subtraction \<Rightarrow>
         basic_walk prev it (new @ [OriginMvMemory \<lparr>tv_idx = i, tv_incarnation = inc\<rparr>]) (i257_sub bal (i257_from subtraction)) (non + 1)
     | _ \<Rightarrow> Inl InvalidValueType)"
  using assms by (auto simp: Let_def)

text \<open>
  The same walk over other entries that carry the same versions: \<open>rest\<close> are the origins not yet
  walked over, which are a prefix of the origins of the new walk.
\<close>

lemma basic_walk_replay:
  assumes "basic_walk prev it new bal non = Inr (acc, new', bal', non')"
    and "prefix (map Some rest) (map origin_of it2 @ [Some OriginStorage])"
    and "\<And>i inc val val'. (i, Data inc val) \<in> set it \<Longrightarrow> (i, Data inc val') \<in> set it2 \<Longrightarrow> val' = val"
    and "prev = [] \<Longrightarrow> new' @ (if acc = None then [OriginStorage] else []) = new @ rest"
    and "prev \<noteq> [] \<Longrightarrow> prev = new @ rest \<and> (acc = None \<longrightarrow> length prev = length new' + 1 \<and> last prev = OriginStorage)"
  shows "basic_walk prev it2 new bal non = Inr (acc, new', bal', non')"
  using assms
proof (induction prev it new bal non arbitrary: rest it2 rule: basic_walk.induct)
  case (1 prev new bal non)
  then have r: "acc = None" "new' = new" "bal' = bal" "non' = non" by auto
  have "rest = [OriginStorage]"
  proof (cases "prev = []")
    case True
    then show ?thesis using "1.prems"(4) r by simp
  next
    case False
    then have "prev = new @ rest" "length prev = length new + 1" "last prev = OriginStorage"
      using "1.prems"(5)[OF False] r by blast+
    then show ?thesis by (cases rest rule: rev_cases) auto
  qed
  then have "it2 = []"
    using "1.prems"(2) by (cases it2; cases "hd it2" rule: origin_of.cases) auto
  then show ?case using r by simp
next
  case (2 prev b it new bal non)
  then show ?case by simp
next
  case (3 prev i inc val it new bal non)
  let ?v = "\<lparr>tv_idx = i, tv_incarnation = inc\<rparr>"
  have ok: "\<not> (prev \<noteq> [] \<and> length prev = length new)" "\<not> (prev \<noteq> [] \<and> prev ! length new \<noteq> OriginMvMemory ?v)"
    using "3.prems"(1) by (auto split: if_splits)
  obtain more where more: "new' = new @ map OriginMvMemory more" "acc \<noteq> None \<longrightarrow> more \<noteq> []"
    using basic_walk_shape[OF "3.prems"(1)] by blast
  have hd: "\<exists>rest'. rest = OriginMvMemory ?v # rest'"
  proof (cases "prev = []")
    case False
    then have "prev = new @ rest" "length prev \<noteq> length new" "prev ! length new = OriginMvMemory ?v"
      using "3.prems"(5) ok by auto
    then show ?thesis by (cases rest) (auto simp: nth_append)
  next
    case True
    have "\<exists>more'. new' = (new @ [OriginMvMemory ?v]) @ more'"
      using "3.prems"(1) ok
      by (cases val) (auto dest!: basic_walk_shape)
    then show ?thesis using "3.prems"(4) True by auto
  qed
  then obtain rest' where rest: "rest = OriginMvMemory ?v # rest'" by blast
  obtain val2 it2' where it2: "it2 = (i, Data inc val2) # it2'"
    using "3.prems"(2) rest by (cases it2; cases "hd it2" rule: origin_of.cases) auto
  have "val2 = val" using "3.prems"(3)[of i inc val val2] it2 by simp
  have pre: "prefix (map Some rest') (map origin_of it2' @ [Some OriginStorage])"
    using "3.prems"(2) rest it2 by simp
  have agree: "\<And>i inc val val'. (i, Data inc val) \<in> set it \<Longrightarrow> (i, Data inc val') \<in> set it2' \<Longrightarrow> val' = val"
    using "3.prems"(3) it2 by auto
  have app: "new @ rest = (new @ [OriginMvMemory ?v]) @ rest'" using rest by simp
  note step = "3.prems"(1)[unfolded basic_walk_step[OF ok]] and goal = basic_walk_step[OF ok, of val it2' bal non]
  have prem4: "new' @ (if acc = None then [OriginStorage] else []) = (new @ [OriginMvMemory ?v]) @ rest'" if "prev = []"
    using "3.prems"(4)[OF that] app by (rule trans)
  have prem5: "prev = (new @ [OriginMvMemory ?v]) @ rest' \<and> (acc = None \<longrightarrow> length prev = length new' + 1 \<and> last prev = OriginStorage)"
    if "prev \<noteq> []"
    using "3.prems"(5)[OF that] unfolding app .
  have "basic_walk prev ((i, Data inc val) # it2') new bal non = Inr (acc, new', bal', non')"
  proof (cases val)
    case (VBasic b)
    then show ?thesis using step goal by simp
  next
    case (LazyRecipient x)
    then have "basic_walk prev it (new @ [OriginMvMemory ?v]) (i257_add bal (i257_from x)) non = Inr (acc, new', bal', non')"
      using step by simp
    from "3.IH"(1)[OF ok(1) refl ok(2) refl LazyRecipient this pre agree prem4 prem5]
    show ?thesis using goal LazyRecipient by simp
  next
    case (LazySender x)
    then have "basic_walk prev it (new @ [OriginMvMemory ?v]) (i257_sub bal (i257_from x)) (non + 1) = Inr (acc, new', bal', non')"
      using step by simp
    from "3.IH"(2)[OF ok(1) refl ok(2) refl LazySender this pre agree prem4 prem5]
    show ?thesis using goal LazySender by simp
  qed (use step in simp_all)
  then show ?case unfolding it2 \<open>val2 = val\<close> .
qed

text \<open>The account found by \<open>basic\<close> before the nonce check, with the origins of the read.\<close>

definition basic_found ::
    "revm \<Rightarrow> database_ref \<Rightarrow> address \<Rightarrow> read_origins \<Rightarrow> (nat \<times> entry) list
      \<Rightarrow> read_error + (account_info option \<times> read_origins \<times> i257 \<times> u64)" where
  "basic_found R D a prev it =
     (case basic_walk prev it [] i257_NEGATIVE_ZERO 0 of
        Inl e \<Rightarrow> Inl e
      | Inr (acc, new, bal, non) \<Rightarrow>
          (case (if acc = None then basic_fallback R D a prev new bal else Inr (acc, new)) of
             Inl e \<Rightarrow> Inl e
           | Inr (acc', new') \<Rightarrow> Inr (acc', new', bal, non)))"

lemma vmdb_basic_found:
  assumes "\<not> (is_lazy db \<and> hash_basic R a db = from_hash db)" "\<not> (is_lazy db \<and> Some (hash_basic R a db) = to_hash db)"
  shows "vmdb_basic R D m mh mc a db =
    (let loc = hash_basic R a db; prev = origins_at db loc in
     case basic_found R D a prev (walk_of m loc (db_tx_idx db)) of
       Inl e \<Rightarrow> (Inl e, put_origins loc prev db)
     | Inr (acc, new, bal, non) \<Rightarrow>
         (let db' = (if prev = [] then put_origins loc new (put_origins loc prev db) else put_origins loc prev db) in
          case acc of
            None \<Rightarrow> (Inr None, db')
          | Some acc \<Rightarrow> basic_finish R D mh mc a loc bal non acc db'))"
proof -
  let ?loc = "hash_basic R a db" let ?prev = "origins_at db ?loc" let ?w = "walk_of m ?loc (db_tx_idx db)"
  have w: "(if 0 < db_tx_idx db then bt_below (db_tx_idx db) (entries_of (mv_data m) ?loc) else []) = ?w"
    by (simp add: walk_of_def)
  let ?db = "put_origins ?loc ?prev db"
  let ?tail = "\<lambda>acc new bal non. (let db' = (if ?prev = [] then put_origins ?loc new ?db else ?db) in
      case acc of None \<Rightarrow> (Inr None, db') | Some acc \<Rightarrow> basic_finish R D mh mc a ?loc bal non acc db')"
  have eq: "vmdb_basic R D m mh mc a db =
      (case basic_walk ?prev ?w [] i257_NEGATIVE_ZERO 0 of
         Inl e \<Rightarrow> (Inl e, ?db)
       | Inr (acc, new, bal, non) \<Rightarrow>
           (case (if acc = None then basic_fallback R D a ?prev new bal else Inr (acc, new)) of
              Inl e \<Rightarrow> (Inl e, ?db)
            | Inr (acc', new') \<Rightarrow> ?tail acc' new' bal non))"
    unfolding vmdb_basic_def Let_def put_origins_fields w by (simp only: assms if_False)
  show ?thesis
  proof (cases "basic_walk ?prev ?w [] i257_NEGATIVE_ZERO 0")
    case (Inl e)
    then show ?thesis by (simp add: eq basic_found_def Let_def)
  next
    case (Inr r)
    obtain acc new bal non where r: "r = (acc, new, bal, non)" by (metis prod_cases4)
    show ?thesis
    proof (cases "if acc = None then basic_fallback R D a ?prev new bal else Inr (acc, new)")
      case (Inl e)
      then show ?thesis by (simp add: eq basic_found_def Inr r Let_def)
    next
      case Inr2: (Inr r2)
      obtain acc' new' where "r2 = (acc', new')" by force
      with Inr2 show ?thesis by (simp add: eq basic_found_def Inr r Let_def)
    qed
  qed
qed

lemma basic_found_shape:
  assumes "basic_found R D a prev it = Inr (acc, new, bal, non)" "prev = []"
  shows "new \<noteq> [] \<and> OriginStorage \<notin> set (butlast new)"
proof -
  obtain acc0 new0 where w: "basic_walk prev it [] i257_NEGATIVE_ZERO 0 = Inr (acc0, new0, bal, non)"
      "(if acc0 = None then basic_fallback R D a prev new0 bal else Inr (acc0, new0)) = Inr (acc, new)"
    using assms(1) by (auto simp: basic_found_def split: sum.splits)
  obtain more where more: "new0 = map OriginMvMemory more" "acc0 \<noteq> None \<longrightarrow> more \<noteq> []"
    using basic_walk_shape[OF w(1)] by auto
  have "new = new0 @ (if acc0 = None then [OriginStorage] else [])"
    using w(2) assms(2)
    by (auto simp: basic_fallback_def Let_def split: if_splits sum.splits option.splits)
  moreover have "OriginStorage \<notin> set new0" using more by auto
  moreover have "OriginStorage \<notin> set (butlast new0)" using more by (auto dest: in_set_butlastD)
  ultimately show ?thesis using more by auto
qed

lemma basic_found_replay:
  assumes f: "basic_found R D a prev it = Inr (acc, new, bal, non)"
    and p: "prefix (map Some (if prev = [] then new else prev)) (map origin_of it2 @ [Some OriginStorage])"
    and agree: "\<And>i inc val val'. (i, Data inc val) \<in> set it \<Longrightarrow> (i, Data inc val') \<in> set it2 \<Longrightarrow> val' = val"
  shows "basic_found R D a prev it2 = Inr (acc, new, bal, non)"
proof -
  obtain acc0 new0 where w: "basic_walk prev it [] i257_NEGATIVE_ZERO 0 = Inr (acc0, new0, bal, non)"
      "(if acc0 = None then basic_fallback R D a prev new0 bal else Inr (acc0, new0)) = Inr (acc, new)"
    using f by (auto simp: basic_found_def split: sum.splits)
  have "basic_walk prev it2 [] i257_NEGATIVE_ZERO 0 = Inr (acc0, new0, bal, non)"
  proof (rule basic_walk_replay[OF w(1) p agree])
    assume "prev = []"
    then show "new0 @ (if acc0 = None then [OriginStorage] else []) = [] @ (if prev = [] then new else prev)"
      using w(2) by (auto simp: basic_fallback_def Let_def split: if_splits sum.splits option.splits)
  next
    assume "prev \<noteq> []"
    then show "prev = [] @ (if prev = [] then new else prev) \<and>
        (acc0 = None \<longrightarrow> length prev = length new0 + 1 \<and> last prev = OriginStorage)"
      using w(2) by (auto simp: basic_fallback_def split: if_splits)
  qed
  then show ?thesis using w(2) by (auto simp: basic_found_def)
qed

lemma basic_finish_replay:
  assumes g: "basic_finish R D mh mc a loc bal non acc db = (Inr x, db')" and ok: "db_ok R L db"
    and L: "CodeHash a \<in> L"
  shows "origins_kept db db'" "db_ok R L db'"
    and "origins_valid_in m db' \<Longrightarrow> compatible D K mh m \<Longrightarrow> compatible D K mc m \<Longrightarrow>
      new_bytecodes mh \<subseteq>\<^sub>m new_bytecodes mc \<Longrightarrow> code_known D mc (to_code_hash db) \<Longrightarrow> code_known D m (to_code_hash db) \<Longrightarrow>
      basic_finish R D m m a loc bal non acc db = (Inr x, db')"
    and "\<And>loc'. loc' \<notin> hashed R L \<Longrightarrow> origins_at db' loc' = origins_at db loc'"
proof -
  let ?ch = "\<lambda>mm. if Some loc = to_hash db then (Inr (to_code_hash db), db) else get_code_hash R D mm a db"
  have nc: "(if loc = from_hash db then nonce_check (db_tx_idx db) (db_tx db) (ai_nonce acc + non) else None) = None"
    using g by (auto simp: basic_finish_def Let_def split: option.splits)
  obtain h db1 where h: "?ch mh = (Inr h, db1)"
    using g nc unfolding basic_finish_def Let_def by (auto split: sum.splits prod.splits if_splits)
  obtain c where c: "lookup_code R D mc h = Inr c"
    using g nc h unfolding basic_finish_def Let_def by (auto split: sum.splits)
  let ?b = "abs_value (i257_add bal (i257_from (ai_balance acc)))" and ?n = "ai_nonce acc + non"
  let ?meta = "if h = None then EOA (?b, ?n) else CA (?b, ?n)"
  have out: "basic_finish R D m1 m2 a loc bal non acc db =
      (Inr (Some \<lparr>ai_balance = ?b, ai_nonce = ?n, ai_code_hash = (case h of None \<Rightarrow> KECCAK_EMPTY R | Some h \<Rightarrow> h),
         ai_code = Some c\<rparr>), db1\<lparr>read_accounts := (read_accounts db1)(loc \<mapsto> ?meta)\<rparr>)"
    if "?ch m1 = (Inr h, db1)" "lookup_code R D m2 h = Inr c" for m1 m2
    using that nc unfolding basic_finish_def Let_def by simp
  then have db': "db' = db1\<lparr>read_accounts := (read_accounts db1)(loc \<mapsto> ?meta)\<rparr>" and x: "x = Some \<lparr>ai_balance = ?b, ai_nonce = ?n, ai_code_hash = (case h of None \<Rightarrow> KECCAK_EMPTY R | Some h \<Rightarrow> h),
         ai_code = Some c\<rparr>"
    using g h c by simp_all
  have os: "origins_at db' l = origins_at db1 l" "db_tx_idx db' = db_tx_idx db1" "hash_basic R b db' = hash_basic R b db1"
      "to_code_hash db' = to_code_hash db1" for l b
    by (simp_all add: db' origins_at_def hash_basic_def split: tx_kind.splits)
  have S: "origins_kept db db1" "db_ok R L db1" "\<And>l. l \<notin> hashed R L \<Longrightarrow> origins_at db1 l = origins_at db l"
    using h get_code_hash_replay(1,2,4)[OF _ ok L] ok by (auto simp: origins_kept_def split: if_splits)
  show "origins_kept db db'" "db_ok R L db'" "\<And>l. l \<notin> hashed R L \<Longrightarrow> origins_at db' l = origins_at db l"
    using S by (simp_all add: origins_kept_def db_ok_def os)
  show "basic_finish R D m m a loc bal non acc db = (Inr x, db')"
    if v: "origins_valid_in m db'" and ch: "compatible D K mh m" and cc: "compatible D K mc m"
      and le: "new_bytecodes mh \<subseteq>\<^sub>m new_bytecodes mc" and kt: "code_known D mc (to_code_hash db)" "code_known D m (to_code_hash db)"
  proof -
    have "origins_valid_in m db1" using v by (simp add: origins_valid_in_def os)
    then have "?ch m = (Inr h, db1)"
      using h get_code_hash_replay(3)[OF _ ok L _ ch] by (auto split: if_splits)
    moreover have "lookup_code R D m h = Inr c"
    proof -
      have ok: "codes_ok K mh" "codes_ok K mc" "codes_ok K m" "stored_codes D K"
          "data_sorted (mv_data mh)" "data_sorted (mv_data m)"
        using ch cc by (simp_all add: compatible_def)
      have "code_known D mc h" "code_known D m h"
        using h \<open>?ch m = (Inr h, db1)\<close> kt get_code_hash_known[OF _ ok(1,5)] get_code_hash_known[OF _ ok(3,6)]
          code_known_mono[OF _ le] by (auto split: if_splits)
      then show ?thesis using c lookup_known[OF ok(2,4), of h R] lookup_known[OF ok(3,4), of h R] by simp
    qed
    ultimately show ?thesis using out db' x by simp
  qed
qed

lemma basic_not_hashed:
  assumes "inj_on (hash_location R) L" "Basic a \<in> L"
  shows "hash_location R (Basic a) \<notin> hashed R L"
proof
  assume "hash_location R (Basic a) \<in> hashed R L"
  then obtain l where "l \<in> L" "\<forall>b. l \<noteq> Basic b" "hash_location R (Basic a) = hash_location R l"
    by (auto simp: hashed_def)
  then show False using inj_onD[OF assms(1), of "Basic a" l] assms(2) by auto
qed

lemma vmdb_basic_replay:
  assumes g: "vmdb_basic R D m1 m2 m3 a db = (Inr x, db')" and ok: "db_ok R L db"
    and L: "Basic a \<in> L" "CodeHash a \<in> L" and inj: "inj_on (hash_location R) L"
  shows "origins_kept db db' \<and> db_ok R L db' \<and>
    (origins_valid_in m db' \<longrightarrow> compatible D K m1 m \<longrightarrow> compatible D K m2 m \<longrightarrow> compatible D K m3 m \<longrightarrow>
      new_bytecodes m2 \<subseteq>\<^sub>m new_bytecodes m3 \<longrightarrow> code_known D m3 (to_code_hash db) \<longrightarrow> code_known D m (to_code_hash db) \<longrightarrow>
      vmdb_basic R D m m m a db = (Inr x, db'))"
proof (cases "is_lazy db \<and> (hash_basic R a db = from_hash db \<or> Some (hash_basic R a db) = to_hash db)")
  case True
  then show ?thesis using g ok by (auto simp: vmdb_basic_def Let_def origins_kept_def split: if_splits)
next
  case False
  let ?loc = "hash_basic R a db" let ?prev = "origins_at db ?loc"
  have "\<not> (is_lazy db \<and> ?loc = from_hash db)" "\<not> (is_lazy db \<and> Some ?loc = to_hash db)" using False by auto
  note found = vmdb_basic_found[OF this, of D]
  obtain acc new bal non where f: "basic_found R D a ?prev (walk_of m1 ?loc (db_tx_idx db)) = Inr (acc, new, bal, non)"
    using g found[of m1 m2 m3] by (cases "basic_found R D a ?prev (walk_of m1 ?loc (db_tx_idx db))") (auto simp: Let_def)
  define db1 where "db1 = (if ?prev = [] then put_origins ?loc new (put_origins ?loc ?prev db) else put_origins ?loc ?prev db)"
  let ?os = "if ?prev = [] then new else ?prev"
  have run: "vmdb_basic R D m mh mc a db =
      (case acc of None \<Rightarrow> (Inr None, db1) | Some acc \<Rightarrow> basic_finish R D mh mc a ?loc bal non acc db1)"
    if "basic_found R D a ?prev (walk_of m ?loc (db_tx_idx db)) = Inr (acc, new, bal, non)" for m mh mc
    unfolding found Let_def that db1_def by simp
  have nh: "?loc \<notin> hashed R L" using basic_not_hashed[OF inj L(1)] ok by (simp add: db_ok_def)
  have wf: "origins_wf ?os"
    using ok basic_found_shape[OF f] by (auto simp: db_ok_def origins_wf_def)
  have os1: "origins_at db1 ?loc = ?os" "db_tx_idx db1 = db_tx_idx db" by (simp_all add: db1_def)
  have kept1: "origins_kept db db1" by (auto simp: db1_def origins_kept_def)
  have ok1: "db_ok R L db1"
  proof (cases "?prev = []")
    case True
    then have "origins_wf new" using wf by simp
    from db_ok_put[OF db_ok_put_same[OF ok, of ?loc] this, of ?loc] nh True
    show ?thesis unfolding db1_def by auto
  next
    case False
    then show ?thesis using ok by (simp add: db1_def db_ok_put_same)
  qed
  have fin: "origins_kept db1 db' \<and> db_ok R L db' \<and>
      (origins_valid_in m db' \<longrightarrow> compatible D K m2 m \<longrightarrow> compatible D K m3 m \<longrightarrow>
        new_bytecodes m2 \<subseteq>\<^sub>m new_bytecodes m3 \<longrightarrow> code_known D m3 (to_code_hash db) \<longrightarrow> code_known D m (to_code_hash db) \<longrightarrow>
        (case acc of None \<Rightarrow> (Inr None, db1) | Some acc \<Rightarrow> basic_finish R D m m a ?loc bal non acc db1) = (Inr x, db'))"
  proof (cases acc)
    case None
    then show ?thesis using g run[OF f, of m2 m3] ok1 by (auto simp: origins_kept_def)
  next
    case (Some acc')
    then have "basic_finish R D m2 m3 a ?loc bal non acc' db1 = (Inr x, db')" using g run[OF f, of m2 m3] by simp
    from basic_finish_replay[OF this ok1 L(2)] show ?thesis using Some kept1 by (auto simp: origins_kept_def)
  qed
  moreover have "vmdb_basic R D m m m a db = (Inr x, db')"
    if v: "origins_valid_in m db'" and c: "compatible D K m1 m" "compatible D K m2 m" "compatible D K m3 m"
      "new_bytecodes m2 \<subseteq>\<^sub>m new_bytecodes m3" "code_known D m3 (to_code_hash db)" "code_known D m (to_code_hash db)"
  proof -
    have "origins_valid_in m db1" using fin origins_valid_back v by blast
    then have "read_valid (mv_data m) (db_tx_idx db) (?loc, ?os)"
      using os1 wf unfolding origins_valid_in_def origins_wf_def by metis
    then have "prefix (map Some ?os) (map origin_of (walk_of m ?loc (db_tx_idx db)) @ [Some OriginStorage])"
      using read_valid_prefix[OF wf] by (simp add: origins_now_walk)
    then have "basic_found R D a ?prev (walk_of m ?loc (db_tx_idx db)) = Inr (acc, new, bal, non)"
      by (rule basic_found_replay[OF f]) (rule walks_agree[OF c(1)])
    then show ?thesis using run[of m m m] fin v c by simp
  qed
  ultimately show ?thesis using kept1 origins_kept_trans by blast
qed

section \<open>Whole runs\<close>

text \<open>The locations a run may ask for.\<close>

primrec queries_in :: "location set \<Rightarrow> 'r evm \<Rightarrow> bool" where
  "queries_in L (Done r) \<longleftrightarrow> True"
| "queries_in L (GetBasic a c) \<longleftrightarrow> Basic a \<in> L \<and> CodeHash a \<in> L \<and> (\<forall>x. queries_in L (c x))"
| "queries_in L (GetCode h c) \<longleftrightarrow> (\<forall>x. queries_in L (c x))"
| "queries_in L (GetStorage a i c) \<longleftrightarrow> Storage a i \<in> L \<and> (\<forall>x. queries_in L (c x))"
| "queries_in L (GetBlockHash n c) \<longleftrightarrow> (\<forall>x. queries_in L (c x))"

lemma answer_Inr: "answer rd cont = (Inr r, db') \<Longrightarrow> \<exists>x db1. rd = (Inr x, db1) \<and> cont x db1 = (Inr r, db')"
  by (auto simp: answer_def split: prod.splits sum.splits)

lemma run_replay:
  assumes "run_evm R D prog mems k db = (Inr r, db')" "db_ok R L db" "queries_in L prog"
    and inj: "inj_on (hash_location R) L"
  shows "origins_kept db db' \<and> db_ok R L db' \<and>
    (origins_valid_in m db' \<longrightarrow> compatible_run D K mems m \<longrightarrow>
      code_known D (mems 0) (to_code_hash db) \<longrightarrow> code_known D m (to_code_hash db) \<longrightarrow>
      run_evm R D prog (\<lambda>_. m) k' db = (Inr r, db'))"
  using assms(1-3)
proof (induction prog arbitrary: k k' db)
  case (Done r')
  then show ?case by (auto simp: origins_kept_def)
next
  case (GetBasic a c)
  obtain x db1 where x: "vmdb_basic R D (mems (3 * k)) (mems (3 * k + 1)) (mems (3 * k + 2)) a db = (Inr x, db1)"
      "run_evm R D (c x) mems (Suc k) db1 = (Inr r, db')"
    using answer_Inr[OF GetBasic.prems(1)[unfolded run_evm.simps]] by blast
  have L: "Basic a \<in> L" "CodeHash a \<in> L" "queries_in L (c x)" using GetBasic.prems(3) by auto
  note S = vmdb_basic_replay[OF x(1) GetBasic.prems(2) L(1,2) inj, of m]
  then have ok1: "db_ok R L db1" by blast
  note I = GetBasic.IH[OF rangeI x(2) ok1 L(3), of "Suc k'"]
  show ?case
  proof (intro conjI impI)
    show "origins_kept db db'" "db_ok R L db'" using S I origins_kept_trans by blast+
    assume v: "origins_valid_in m db'" and c: "compatible_run D K mems m"
      and kt: "code_known D (mems 0) (to_code_hash db)" "code_known D m (to_code_hash db)"
    have "to_code_hash db1 = to_code_hash db" using S by (simp add: origins_kept_def)
    moreover have "code_known D (mems j) (to_code_hash db)" "new_bytecodes (mems (3 * k + 1)) \<subseteq>\<^sub>m new_bytecodes (mems (3 * k + 2))" for j
      using c kt(1) code_known_mono by (auto simp: compatible_run_def)
    ultimately have "vmdb_basic R D m m m a db = (Inr x, db1)" "run_evm R D (c x) (\<lambda>_. m) (Suc k') db1 = (Inr r, db')"
      using S I v c kt origins_valid_back unfolding compatible_run_def by metis+
    then show "run_evm R D (GetBasic a c) (\<lambda>_. m) k' db = (Inr r, db')" by (simp add: answer_def)
  qed
next
  case (GetCode h c)
  obtain x where x: "vmdb_code_by_hash D h db = (Inr x, db)" "run_evm R D (c x) mems (Suc k) db = (Inr r, db')"
    using answer_Inr[OF GetCode.prems(1)[unfolded run_evm.simps]] by (auto simp: vmdb_code_by_hash_def)
  show ?case using GetCode.IH[OF rangeI x(2) GetCode.prems(2), of "Suc k'"] GetCode.prems(3) x(1)
    by (auto simp: answer_def)
next
  case (GetStorage a i c)
  obtain x db1 where x: "vmdb_storage R D (mems (3 * k)) a i db = (Inr x, db1)"
      "run_evm R D (c x) mems (Suc k) db1 = (Inr r, db')"
    using answer_Inr[OF GetStorage.prems(1)[unfolded run_evm.simps]] by blast
  have L: "Storage a i \<in> L" "queries_in L (c x)" using GetStorage.prems(3) by auto
  note S = vmdb_storage_replay[OF x(1) GetStorage.prems(2) L(1)]
  note I = GetStorage.IH[OF rangeI x(2) S(2) L(2), of "Suc k'"]
  show ?case
  proof (intro conjI impI)
    show "origins_kept db db'" "db_ok R L db'" using S(1) I origins_kept_trans by blast+
    assume v: "origins_valid_in m db'" and c: "compatible_run D K mems m"
      and kt: "code_known D (mems 0) (to_code_hash db)" "code_known D m (to_code_hash db)"
    have "to_code_hash db1 = to_code_hash db" using S(1) by (simp add: origins_kept_def)
    then have "vmdb_storage R D m a i db = (Inr x, db1)" "run_evm R D (c x) (\<lambda>_. m) (Suc k') db1 = (Inr r, db')"
      using S(3) I v c kt origins_valid_back unfolding compatible_run_def by metis+
    then show "run_evm R D (GetStorage a i c) (\<lambda>_. m) k' db = (Inr r, db')" by (simp add: answer_def)
  qed
next
  case (GetBlockHash n c)
  obtain x where x: "vmdb_block_hash D n db = (Inr x, db)" "run_evm R D (c x) mems (Suc k) db = (Inr r, db')"
    using answer_Inr[OF GetBlockHash.prems(1)[unfolded run_evm.simps]] by (auto simp: vmdb_block_hash_def)
  show ?case using GetBlockHash.IH[OF rangeI x(2) GetBlockHash.prems(2), of "Suc k'"] GetBlockHash.prems(3) x(1)
    by (auto simp: answer_def)
qed

section \<open>The read phase of an execution\<close>

text \<open>
  Whether an execution is lazy depends on which locations have entries when it starts, which is
  not part of the read set. The read phase with this decision as an argument:
\<close>

definition vmdb_new_with ::
    "revm \<Rightarrow> database_ref \<Rightarrow> mv_memory \<Rightarrow> bool \<Rightarrow> nat \<Rightarrow> tx_env \<Rightarrow> location_hash \<Rightarrow> location_hash option
      \<Rightarrow> read_error + vmdb" where
  "vmdb_new_with R D m lz i tx from_h to_h =
     (let db = \<lparr>db_tx_idx = i, db_tx = tx, from_hash = from_h, to_hash = to_h,
                to_code_hash = None, is_lazy = False, db_read_set = [], read_accounts = Map.empty\<rparr>
      in case te_kind tx of
           Call to \<Rightarrow>
             (case get_code_hash R D m to db of
                (Inl e, _) \<Rightarrow> Inl e
              | (Inr h, db') \<Rightarrow> Inr (db'\<lparr>to_code_hash := h, is_lazy := (h = None \<and> lz)\<rparr>))
         | Create \<Rightarrow> Inr db)"

definition to_location :: "revm \<Rightarrow> tx_env \<Rightarrow> location_hash option" where
  "to_location R tx = (case te_kind tx of Call to \<Rightarrow> Some (hash_location R (Basic to)) | Create \<Rightarrow> None)"

definition read_phase_with ::
    "revm \<Rightarrow> (evm_env \<Rightarrow> tx_env \<Rightarrow> evm_outcome evm) \<Rightarrow> vm \<Rightarrow> nat \<Rightarrow> bool \<Rightarrow> (nat \<Rightarrow> mv_memory)
      \<Rightarrow> read_error + evm_outcome \<times> vmdb" where
  "read_phase_with R transact V i lz mems =
     (let tx = vm_txs V ! i in
      case vmdb_new_with R (vm_db V) (mems 0) lz i tx (hash_location R (Basic (te_caller tx))) (to_location R tx) of
        Inl e \<Rightarrow> Inl e
      | Inr db \<Rightarrow> Inr (run_evm R (vm_db V) (transact (vm_evm_env V) tx) mems 1 db))"

definition lazy_candidate :: "revm \<Rightarrow> tx_env \<Rightarrow> mv_memory \<Rightarrow> mv_memory \<Rightarrow> bool" where
  "lazy_candidate R tx m m' \<longleftrightarrow> mv_data m (hash_location R (Basic (te_caller tx))) \<noteq> None
     \<or> mv_data m' (the (to_location R tx)) \<noteq> None"

lemma vm_read_phase_with:
  "vm_read_phase R transact V i mems =
     read_phase_with R transact V i (lazy_candidate R (vm_txs V ! i) (mems 1) (mems 2)) mems"
  unfolding vm_read_phase_def read_phase_with_def vmdb_new_def vmdb_new_with_def to_location_def
    lazy_candidate_def Let_def by (rule refl)

lemma vmdb_new_with_ok:
  assumes n: "vmdb_new_with R D m1 lz i tx (hash_location R (Basic (te_caller tx))) (to_location R tx) = Inr db"
    and L: "\<And>to. te_kind tx = Call to \<Longrightarrow> CodeHash to \<in> L"
  shows "db_ok R L db \<and> db_tx_idx db = i \<and>
    (origins_valid_in m db \<longrightarrow> compatible D K m1 m \<longrightarrow>
      vmdb_new_with R D m lz i tx (hash_location R (Basic (te_caller tx))) (to_location R tx) = Inr db
      \<and> code_known D m1 (to_code_hash db) \<and> code_known D m (to_code_hash db))"
proof (cases "te_kind tx")
  case Create
  then show ?thesis
    using n by (auto simp: vmdb_new_with_def Let_def db_ok_def origins_at_def hash_basic_def code_known_def)
next
  case (Call to)
  let ?from = "hash_location R (Basic (te_caller tx))" and ?to = "hash_location R (Basic to)"
  define db0 where "db0 = \<lparr>db_tx_idx = i, db_tx = tx, from_hash = ?from, to_hash = Some ?to,
    to_code_hash = None, is_lazy = False, db_read_set = [], read_accounts = Map.empty\<rparr>"
  have to: "to_location R tx = Some ?to" by (simp add: to_location_def Call)
  have new: "vmdb_new_with R D ma lz i tx ?from (Some ?to) =
      (case get_code_hash R D ma to db0 of
         (Inl e, _) \<Rightarrow> Inl e
       | (Inr h, db') \<Rightarrow> Inr (db'\<lparr>to_code_hash := h, is_lazy := (h = None \<and> lz)\<rparr>))" for ma
    by (simp only: vmdb_new_with_def Let_def Call db0_def tx_kind.case)
  have ok0: "db_ok R L db0" by (simp add: db0_def db_ok_def origins_at_def hash_basic_def Call)
  obtain h db1 where g: "get_code_hash R D m1 to db0 = (Inr h, db1)"
      "db = db1\<lparr>to_code_hash := h, is_lazy := (h = None \<and> lz)\<rparr>"
    using n to new[of m1] by (auto split: prod.splits sum.splits)
  note S = get_code_hash_replay[OF g(1) ok0 L[OF Call]]
  have os: "origins_at db l = origins_at db1 l" "db_tx_idx db = db_tx_idx db1" "hash_basic R b db = hash_basic R b db1" for l b
    by (simp_all add: g(2) origins_at_def hash_basic_def split: tx_kind.splits)
  have i: "db_tx_idx db1 = i" using S(1) by (simp add: origins_kept_def db0_def)
  have "vmdb_new_with R D m lz i tx ?from (Some ?to) = Inr db \<and> code_known D m1 (to_code_hash db) \<and> code_known D m (to_code_hash db)"
    if "origins_valid_in m db" "compatible D K m1 m"
  proof -
    have "origins_valid_in m db1" using that(1) by (simp add: origins_valid_in_def os)
    then have g2: "get_code_hash R D m to db0 = (Inr h, db1)" using S(3)[OF _ that(2)] by simp
    then show ?thesis
      using get_code_hash_known[OF g(1), of K] get_code_hash_known[OF g2, of K] that(2) by (simp add: new g(2) compatible_def)
  qed
  then show ?thesis using S(2) i to by (auto simp: db_ok_def os)
qed

lemma origins_valid_recorded:
  assumes "validate_read_locations i m" "reads_of m i = db_read_set db" "db_tx_idx db = i"
  shows "origins_valid_in m db"
  unfolding origins_valid_in_def
proof (intro allI impI)
  fix loc assume "origins_at db loc \<noteq> []"
  then have "(loc, origins_at db loc) \<in> set (reads_of m i)"
    unfolding assms(2) origins_at_def by (auto split: option.splits dest: map_of_SomeD)
  then show "read_valid (mv_data m) (db_tx_idx db) (loc, origins_at db loc)"
    using assms(1,3) by (auto simp: validate_read_locations_def list_all_iff reads_of_def index_mutex_def)
qed

text \<open>The locations transaction \<open>i\<close> uses, among which hashes must not collide.\<close>

definition uses_locations ::
    "revm \<Rightarrow> (evm_env \<Rightarrow> tx_env \<Rightarrow> evm_outcome evm) \<Rightarrow> vm \<Rightarrow> nat \<Rightarrow> location set \<Rightarrow> bool" where
  "uses_locations R transact V i L \<longleftrightarrow>
     inj_on (hash_location R) L \<and> queries_in L (transact (vm_evm_env V) (vm_txs V ! i))
     \<and> (\<forall>to. te_kind (vm_txs V ! i) = Call to \<longrightarrow> CodeHash to \<in> L)"

lemma read_phase_replay:
  assumes r: "read_phase_with R transact V i lz mems = Inr (Inr out, db)"
    and U: "uses_locations R transact V i L"
  shows "db_ok R L db \<and> db_tx_idx db = i \<and>
    (origins_valid_in m db \<longrightarrow> compatible_run (vm_db V) K mems m \<longrightarrow>
      read_phase_with R transact V i lz (\<lambda>_. m) = Inr (Inr out, db))"
proof -
  let ?tx = "vm_txs V ! i" let ?D = "vm_db V"
  let ?from = "hash_location R (Basic (te_caller ?tx))"
  have L: "queries_in L (transact (vm_evm_env V) ?tx)" "inj_on (hash_location R) L"
      "\<And>to. te_kind ?tx = Call to \<Longrightarrow> CodeHash to \<in> L"
    using U by (auto simp: uses_locations_def)
  obtain db0 where n: "vmdb_new_with R ?D (mems 0) lz i ?tx ?from (to_location R ?tx) = Inr db0"
    and run: "run_evm R ?D (transact (vm_evm_env V) ?tx) mems 1 db0 = (Inr out, db)"
    using r by (auto simp: read_phase_with_def Let_def split: sum.splits)
  note N = vmdb_new_with_ok[OF n L(3), where m = m and K = K]
  then have ok: "db_ok R L db0" by blast
  note P = run_replay[OF run ok L(1,2), where m = m and k' = 1 and K = K]
  have "read_phase_with R transact V i lz (\<lambda>_. m) = Inr (Inr out, db)"
    if v: "origins_valid_in m db" and c: "compatible_run ?D K mems m"
  proof -
    have "origins_valid_in m db0" using P v origins_valid_back by blast
    then have new: "vmdb_new_with R ?D m lz i ?tx ?from (to_location R ?tx) = Inr db0"
        "code_known ?D (mems 0) (to_code_hash db0)" "code_known ?D m (to_code_hash db0)"
      using N c unfolding compatible_run_def by blast+
    moreover have "run_evm R ?D (transact (vm_evm_env V) ?tx) (\<lambda>_. m) 1 db0 = (Inr out, db)" using P v c new(2,3) by blast
    ultimately show ?thesis by (simp add: read_phase_with_def Let_def)
  qed
  then show ?thesis using P N by (auto simp: origins_kept_def)
qed

end
