(* ===== verification/Serial_Equivalence.thy ===== *)
theory Serial_Equivalence
  imports Vm_Replay
begin

text \<open>
  A block whose recorded executions are all valid in the final memory has the result of the
  serial execution. \<open>serial_mem\<close> executes the transactions one after the other, each on the
  memory its predecessors left and without interference. \<open>validated_block\<close> describes the end of
  a parallel run: every transaction was executed in memories that other threads changed
  meanwhile, its read and write sets are recorded in the final memory, and its read set is
  valid there. The serial execution then makes the same reads, produces the same results and
  leaves the same entries.

  Serial and parallel execution use the same incarnation numbers and make the same choice
  between lazy and explicit updates; both are arguments of the serial execution.
\<close>

section \<open>Executing with a given choice\<close>

definition execute_with ::
    "revm \<Rightarrow> (evm_env \<Rightarrow> tx_env \<Rightarrow> evm_outcome evm) \<Rightarrow> vm \<Rightarrow> tx_version \<Rightarrow> bool \<Rightarrow> mv_memory
      \<Rightarrow> (vm_execution_error + vm_execution_result) \<times> mv_memory" where
  "execute_with R transact V v lz m =
     (let tx = vm_txs V ! tv_idx v in
      case read_phase_with R transact V (tv_idx v) lz (\<lambda>_. m) of
        Inl e \<Rightarrow> (Inl (vm_error_of_read_error e), m)
      | Inr (Inl err, db) \<Rightarrow> (Inl (execution_failed (tv_idx v) err), m)
      | Inr (Inr (result, state), db) \<Rightarrow>
          execution_succeeded R (apply_rewards V tx (ucast (er_gas_used result))) (vm_evm_env V) tx v db
            result state m)"

lemma vm_execute_with:
  "vm_execute R transact V v (\<lambda>_. m) m =
     execute_with R transact V v (lazy_candidate R (vm_txs V ! tv_idx v) m m) m"
  unfolding vm_execute_def execute_with_def vm_read_phase_with Let_def by (rule refl)

primrec serial_mem ::
    "revm \<Rightarrow> (evm_env \<Rightarrow> tx_env \<Rightarrow> evm_outcome evm) \<Rightarrow> vm \<Rightarrow> (nat \<Rightarrow> nat) \<Rightarrow> (nat \<Rightarrow> bool) \<Rightarrow> mv_memory \<Rightarrow> nat
      \<Rightarrow> mv_memory" where
  "serial_mem R transact V inc lz m0 0 = m0"
| "serial_mem R transact V inc lz m0 (Suc i) =
     snd (execute_with R transact V \<lparr>tv_idx = i, tv_incarnation = inc i\<rparr> (lz i)
       (serial_mem R transact V inc lz m0 i))"

text \<open>The write set of a successful execution.\<close>

definition final_writes ::
    "revm \<Rightarrow> vm \<Rightarrow> nat \<Rightarrow> vmdb \<Rightarrow> execution_result \<times> evm_state \<Rightarrow> vm_execution_error + write_set" where
  "final_writes R V i db out =
     (case out of (result, state) \<Rightarrow>
        apply_rewards V (vm_txs V ! i) (ucast (er_gas_used result))
          (fst (write_accounts R (vm_evm_env V) (vm_txs V ! i) db state Map.empty)))"

lemma write_account_fst:
  "fst (write_account R env tx db p (ws, codes)) = fst (write_account R env tx db p (ws, codes'))"
  by (cases p) (simp add: write_account_def Let_def)

lemma write_accounts_fst:
  "fst (write_accounts R env tx db state codes) = fst (write_accounts R env tx db state codes')"
proof -
  have "fst (fold (write_account R env tx db) state (ws, c)) = fst (fold (write_account R env tx db) state (ws, c'))" for ws c c'
  proof (induction state arbitrary: ws c c')
    case (Cons p state)
    obtain w1 c1 where 1: "write_account R env tx db p (ws, c) = (w1, c1)" by force
    obtain w2 c2 where 2: "write_account R env tx db p (ws, c') = (w2, c2)" by force
    have "w1 = w2" using write_account_fst[of R env tx db p ws c c'] 1 2 by simp
    then show ?case using Cons.IH[of w1 c1 c2] 1 2 by simp
  qed simp
  then show ?thesis by (simp add: write_accounts_def)
qed

lemma distinct_write_slots: "distinct (map fst ws) \<Longrightarrow> distinct (map fst (write_slots R a acc ws))"
proof -
  have "distinct (map fst ws) \<Longrightarrow>
      distinct (map fst (fold (\<lambda>(slot, present) ws. AList.update (h slot) (VStorage present) ws) ps ws))" for ps h
    by (induction ps arbitrary: ws) (auto simp: distinct_update)
  then show "distinct (map fst ws) \<Longrightarrow> ?thesis" by (simp add: write_slots_def)
qed

lemma distinct_write_account:
  assumes "distinct (map fst ws)"
  shows "distinct (map fst (fst (write_account R env tx db p (ws, codes))))"
  using assms
  by (cases p) (auto simp: write_account_def Let_def write_basic_def distinct_update
      intro!: distinct_write_slots)

lemma distinct_write_accounts: "distinct (map fst (fst (write_accounts R env tx db state codes)))"
proof -
  have "distinct (map fst ws) \<Longrightarrow> distinct (map fst (fst (fold (write_account R env tx db) state (ws, c))))" for ws c
  proof (induction state arbitrary: ws c)
    case (Cons p state)
    obtain w1 c1 where 1: "write_account R env tx db p (ws, c) = (w1, c1)" by force
    then show ?case using Cons.IH[of w1 c1] distinct_write_account[OF Cons.prems, of R env tx db p c] by simp
  qed simp
  then show ?thesis by (simp add: write_accounts_def)
qed

lemma apply_reward_list_distinct:
  "apply_reward_list rs ws = Inr ws' \<Longrightarrow> distinct (map fst ws) \<Longrightarrow> distinct (map fst ws')"
  by (induction rs ws rule: apply_reward_list.induct) (auto simp: distinct_update split: option.splits)

lemma final_writes_distinct: "final_writes R V i db out = Inr ws \<Longrightarrow> distinct (map fst ws)"
  using apply_reward_list_distinct distinct_write_accounts
  by (auto simp: final_writes_def apply_rewards_def split: prod.splits)

text \<open>The memory and the result after a successful execution.\<close>

lemma add_lazy_addresses_data [simp]:
  "mv_data (add_lazy_addresses as m) = mv_data m" "mv_locations (add_lazy_addresses as m) = mv_locations m"
  by (simp_all add: add_lazy_addresses_def)

lemma mv_inv_cong:
  assumes "mv_data m' = mv_data m" "mv_locations m' = mv_locations m"
  shows "mv_inv m' = mv_inv m"
  using assms by (simp add: mv_inv_def writes_of_def)

lemma execution_succeeded_record:
  assumes w: "final_writes R V i db (result, state) = Inr ws"
    and e: "execution_succeeded R (apply_rewards V (vm_txs V ! i) (ucast (er_gas_used result))) (vm_evm_env V)
      (vm_txs V ! i) v db result state m = (r, m')"
  obtains ws0 codes m2 b flags where
    "write_accounts R (vm_evm_env V) (vm_txs V ! i) db state (new_bytecodes m) = (ws0, codes)"
    "apply_rewards V (vm_txs V ! i) (ucast (er_gas_used result)) ws0 = Inr ws"
    "mv_data m2 = mv_data m" "mv_locations m2 = mv_locations m" "new_bytecodes m2 = codes"
    "mv_record v (db_read_set db) ws m2 = (b, m')" "flags_contains flags WroteNewLocation = b"
    "r = (case tx_type_try_from R (te_tx_type (vm_txs V ! i)) of
       Inl err \<Rightarrow> Inl (VmExecutionError (ECustom err))
     | Inr ty \<Rightarrow> Inr \<lparr>vr_execution_result = from_raw ty result state, vr_flags = flags\<rparr>)"
proof -
  let ?tx = "vm_txs V ! i"
  obtain ws0 codes where wa: "write_accounts R (vm_evm_env V) ?tx db state (new_bytecodes m) = (ws0, codes)" by force
  have "fst (write_accounts R (vm_evm_env V) ?tx db state Map.empty) = ws0"
    using write_accounts_fst[of R "vm_evm_env V" ?tx db state "new_bytecodes m" Map.empty] wa by simp
  then have rw: "apply_rewards V ?tx (ucast (er_gas_used result)) ws0 = Inr ws"
    using w by (simp add: final_writes_def)
  define m2 where "m2 = (if is_lazy db then
      (case te_kind ?tx of
         Call to \<Rightarrow> add_lazy_addresses [to] (add_lazy_addresses [te_caller ?tx] (m\<lparr>new_bytecodes := codes\<rparr>))
       | Create \<Rightarrow> add_lazy_addresses [te_caller ?tx] (m\<lparr>new_bytecodes := codes\<rparr>))
    else m\<lparr>new_bytecodes := codes\<rparr>)"
  have same: "mv_data m2 = mv_data m" "mv_locations m2 = mv_locations m" "new_bytecodes m2 = codes"
    by (simp_all add: m2_def add_lazy_addresses_def split: tx_kind.splits)
  obtain b m3 where rec: "mv_record v (db_read_set db) ws m2 = (b, m3)" by force
  define flags where "flags = (let fl = (if tv_idx v > 0 \<and> \<not> is_lazy db then NeedValidation else flags_empty)
      in if b then flags_or fl WroteNewLocation else fl)"
  have out: "(case tx_type_try_from R (te_tx_type ?tx) of
      Inl err \<Rightarrow> (Inl (VmExecutionError (ECustom err)), m3)
    | Inr ty \<Rightarrow> (Inr \<lparr>vr_execution_result = from_raw ty result state, vr_flags = flags\<rparr>, m3)) = (r, m')"
    using e unfolding execution_succeeded_def wa Let_def prod.case rw sum.case m2_def[symmetric] rec flags_def .
  show thesis
  proof (rule that[OF wa rw same])
    show "mv_record v (db_read_set db) ws m2 = (b, m')" using out rec by (auto split: sum.splits)
    show "flags_contains flags WroteNewLocation = b"
      by (simp add: flags_def flags_contains_def flags_or_def NeedValidation_def flags_empty_def WroteNewLocation_def)
  qed (use out in \<open>auto split: sum.splits\<close>)
qed

lemma execution_succeeded_parts:
  assumes w: "final_writes R V i db (result, state) = Inr ws"
    and ty: "tx_type_try_from R (te_tx_type (vm_txs V ! i)) = Inr ty" and v: "tv_idx v = i"
    and inv: "mv_inv m" and i: "i < length (mv_locations m)"
    and e: "execution_succeeded R (apply_rewards V (vm_txs V ! i) (ucast (er_gas_used result))) (vm_evm_env V)
      (vm_txs V ! i) v db result state m = (r, m')"
  shows "\<exists>flags. r = Inr \<lparr>vr_execution_result = from_raw ty result state, vr_flags = flags\<rparr>
      \<and> flags_contains flags WroteNewLocation = (\<exists>loc \<in> fst ` set ws. loc \<notin> set (writes_of m i))"
    and "mv_inv m'" and "length (mv_locations m') = length (mv_locations m)"
    and "entry_at (mv_data m') loc j =
      (if j = i then
         (case map_of ws loc of
            Some val \<Rightarrow> Some (Data (tv_incarnation v) val)
          | None \<Rightarrow> if loc \<in> set (writes_of m j) then None else entry_at (mv_data m) loc j)
       else entry_at (mv_data m) loc j)"
    and "reads_of m' j = (if j = i then db_read_set db else reads_of m j)"
    and "j \<noteq> i \<Longrightarrow> writes_of m' j = writes_of m j"
    and "set (writes_of m' i) = fst ` set ws"
proof -
  obtain m2 b flags where same: "mv_data m2 = mv_data m" "mv_locations m2 = mv_locations m"
    and rec: "mv_record v (db_read_set db) ws m2 = (b, m')" and fl: "flags_contains flags WroteNewLocation = b"
    and r: "r = (case tx_type_try_from R (te_tx_type (vm_txs V ! i)) of
       Inl err \<Rightarrow> Inl (VmExecutionError (ECustom err))
     | Inr ty \<Rightarrow> Inr \<lparr>vr_execution_result = from_raw ty result state, vr_flags = flags\<rparr>)"
    by (rule execution_succeeded_record[OF w e])
  have inv2: "mv_inv m2" using inv mv_inv_cong[OF same] by simp
  have i2: "tv_idx v < length (mv_locations m2)" using i v same by simp
  note P = mv_record_parts[OF inv2 i2 final_writes_distinct[OF w] rec]
    and I = mv_record_inv[OF inv2 i2 final_writes_distinct[OF w] rec]
  show "\<exists>flags. r = Inr \<lparr>vr_execution_result = from_raw ty result state, vr_flags = flags\<rparr>
      \<and> flags_contains flags WroteNewLocation = (\<exists>loc \<in> fst ` set ws. loc \<notin> set (writes_of m i))"
    using r ty fl P(1) same v by (auto simp: writes_of_def)
  show "mv_inv m'" "length (mv_locations m') = length (mv_locations m)"
    "reads_of m' j = (if j = i then db_read_set db else reads_of m j)"
    "j \<noteq> i \<Longrightarrow> writes_of m' j = writes_of m j" "set (writes_of m' i) = fst ` set ws"
    using I P(4,5,6,8) same v by (simp_all add: reads_of_def writes_of_def)
  show "entry_at (mv_data m') loc j =
      (if j = i then
         (case map_of ws loc of
            Some val \<Rightarrow> Some (Data (tv_incarnation v) val)
          | None \<Rightarrow> if loc \<in> set (writes_of m j) then None else entry_at (mv_data m) loc j)
       else entry_at (mv_data m) loc j)"
    using P(2)[of loc j] same v by (simp add: writes_of_def split: option.split)
qed

text \<open>The bytecodes after a successful execution.\<close>

definition state_codes :: "revm \<Rightarrow> (b256 \<Rightarrow> bytecode) \<Rightarrow> evm_state \<Rightarrow> bool" where
  "state_codes R K state \<longleftrightarrow> (\<forall>(a, acc) \<in> set state. \<not> is_empty_code_hash R (acc_info acc) \<longrightarrow>
     (case ai_code (acc_info acc) of Some c \<Rightarrow> c | None \<Rightarrow> bytecode_default R) = K (ai_code_hash (acc_info acc)))"

definition set_codes_ok :: "(b256 \<Rightarrow> bytecode) \<Rightarrow> write_set \<Rightarrow> (b256 \<rightharpoonup> bytecode) \<Rightarrow> bool" where
  "set_codes_ok K ws codes \<longleftrightarrow> (\<forall>h c. codes h = Some c \<longrightarrow> c = K h)
     \<and> (\<forall>loc h. map_of ws loc = Some (VCodeHash h) \<longrightarrow> codes h \<noteq> None)"

lemma set_codes_ok_update:
  "set_codes_ok K ws codes \<Longrightarrow> (\<And>h. val = VCodeHash h \<Longrightarrow> codes h \<noteq> None) \<Longrightarrow> set_codes_ok K (AList.update loc val ws) codes"
  by (auto simp: set_codes_ok_def update_conv')

lemma set_codes_ok_slots: "set_codes_ok K ws codes \<Longrightarrow> set_codes_ok K (write_slots R a acc ws) codes"
proof -
  have "set_codes_ok K ws codes \<Longrightarrow>
      set_codes_ok K (fold (\<lambda>(slot, present) ws. AList.update (h slot) (VStorage present) ws) ps ws) codes" for ps h
  proof (induction ps arbitrary: ws)
    case (Cons p ps)
    show ?case using Cons.IH[OF set_codes_ok_update[OF Cons.prems, of "VStorage (snd p)" "h (fst p)"]] by (simp add: case_prod_beta)
  qed simp
  then show "set_codes_ok K ws codes \<Longrightarrow> ?thesis" by (simp add: write_slots_def)
qed

lemma set_codes_ok_basic: "set_codes_ok K ws codes \<Longrightarrow> set_codes_ok K (write_basic R env tx db loc acc ws) codes"
  by (auto simp: write_basic_def Let_def intro!: set_codes_ok_update)

lemma write_account_codes:
  assumes ok: "set_codes_ok K ws codes" and w: "write_account R env tx db (a, acc) (ws, codes) = (ws', codes')"
    and K: "\<not> is_empty_code_hash R (acc_info acc) \<Longrightarrow>
      (case ai_code (acc_info acc) of Some c \<Rightarrow> c | None \<Rightarrow> bytecode_default R) = K (ai_code_hash (acc_info acc))"
  shows "set_codes_ok K ws' codes' \<and> codes \<subseteq>\<^sub>m codes'"
proof (cases "acc_selfdestructed acc")
  case True
  then show ?thesis using ok w by (auto simp: write_account_def intro!: set_codes_ok_update)
next
  case False
  let ?h = "ai_code_hash (acc_info acc)" and ?loc = "hash_location R (Basic a)"
  let ?new = "acc_touched acc \<and> is_new_code R acc (read_accounts db ?loc)"
  define ws1 where "ws1 = (if acc_touched acc \<and> account_changed R ?loc (from_hash db) acc (read_accounts db ?loc)
      then write_basic R env tx db ?loc acc ws else ws)"
  have ws1: "set_codes_ok K ws1 codes" using ok set_codes_ok_basic by (simp add: ws1_def)
  show ?thesis
  proof (cases ?new)
    case True
    have le: "codes \<subseteq>\<^sub>m insert_bytecode R (acc_info acc) codes"
      by (auto simp: insert_bytecode_def map_le_def split: option.splits)
    have "\<not> is_empty_code_hash R (acc_info acc)" using True by (simp add: is_new_code_def)
    then have "set_codes_ok K ws1 (insert_bytecode R (acc_info acc) codes)" "insert_bytecode R (acc_info acc) codes ?h \<noteq> None"
      using ws1 K by (auto simp: set_codes_ok_def insert_bytecode_def split: option.splits)
    then have "set_codes_ok K (AList.update (hash_location R (CodeHash a)) (VCodeHash ?h) ws1) (insert_bytecode R (acc_info acc) codes)"
      by (intro set_codes_ok_update) auto
    moreover have "ws' = write_slots R a acc (AList.update (hash_location R (CodeHash a)) (VCodeHash ?h) ws1)"
        "codes' = insert_bytecode R (acc_info acc) codes"
      using w False True by (auto simp: write_account_def ws1_def Let_def)
    ultimately show ?thesis using le set_codes_ok_slots by simp
  next
    case new: False
    then have "ws' = write_slots R a acc ws1" "codes' = codes"
      using w False by (auto simp: write_account_def ws1_def Let_def split: if_splits)
    then show ?thesis using ws1 set_codes_ok_slots by simp
  qed
qed

lemma write_accounts_codes:
  assumes "\<forall>h c. codes h = Some c \<longrightarrow> c = K h" "state_codes R K state"
    and "write_accounts R env tx db state codes = (ws', codes')"
  shows "set_codes_ok K ws' codes' \<and> codes \<subseteq>\<^sub>m codes'"
proof -
  have *: "set_codes_ok K ws c \<Longrightarrow> state_codes R K state \<Longrightarrow> fold (write_account R env tx db) state (ws, c) = (ws', c') \<Longrightarrow>
      set_codes_ok K ws' c' \<and> c \<subseteq>\<^sub>m c'" for ws c ws' c'
  proof (induction state arbitrary: ws c)
    case (Cons p state)
    obtain a acc where p: "p = (a, acc)" by force
    obtain ws1 c1 where 1: "write_account R env tx db (a, acc) (ws, c) = (ws1, c1)" by force
    have st: "state_codes R K state" and K: "\<not> is_empty_code_hash R (acc_info acc) \<Longrightarrow>
      (case ai_code (acc_info acc) of Some c \<Rightarrow> c | None \<Rightarrow> bytecode_default R) = K (ai_code_hash (acc_info acc))"
      using Cons.prems(2) by (auto simp: state_codes_def p)
    note A = write_account_codes[OF Cons.prems(1) 1 K]
    have "set_codes_ok K ws' c' \<and> c1 \<subseteq>\<^sub>m c'" using Cons.IH[of ws1 c1] A st Cons.prems(3) 1 p by simp
    then show ?case using A map_le_trans[of c c1 c'] by blast
  qed auto
  have "set_codes_ok K [] codes" using assms(1) by (simp add: set_codes_ok_def)
  from *[OF this assms(2) assms(3)[unfolded write_accounts_def]] show ?thesis .
qed

lemma apply_reward_list_codes:
  "apply_reward_list rs ws = Inr ws' \<Longrightarrow> set_codes_ok K ws codes \<Longrightarrow> set_codes_ok K ws' codes"
proof (induction rs ws rule: apply_reward_list.induct)
  case (2 recipient amount rewards ws)
  have nc: "val' \<noteq> VCodeHash h" if "reward_value amount val = Some val'" for val val' h using that by (cases val) auto
  obtain val where step: "apply_reward_list rewards (AList.update recipient val ws) = Inr ws'"
      "map_of ws recipient = None \<and> val = LazyRecipient amount
       \<or> (\<exists>x. map_of ws recipient = Some x \<and> reward_value amount x = Some val)"
    using "2.prems"(1) by (auto split: option.splits)
  have ok: "set_codes_ok K (AList.update recipient val ws) codes"
    using "2.prems"(2) step(2) nc by (intro set_codes_ok_update) auto
  from step(2) show ?case using "2.IH" step(1) ok by blast
qed simp

lemma execution_succeeded_codes:
  assumes w: "final_writes R V i db (result, state) = Inr ws"
    and v: "tv_idx v = i" and inv: "mv_inv m" and i: "i < length (mv_locations m)"
    and e: "execution_succeeded R (apply_rewards V (vm_txs V ! i) (ucast (er_gas_used result))) (vm_evm_env V)
      (vm_txs V ! i) v db result state m = (r, m')"
    and ok: "codes_ok K m" and st: "state_codes R K state"
  shows "codes_ok K m' \<and> new_bytecodes m \<subseteq>\<^sub>m new_bytecodes m'"
proof -
  obtain ws0 codes m2 b where wa: "write_accounts R (vm_evm_env V) (vm_txs V ! i) db state (new_bytecodes m) = (ws0, codes)"
    and rw: "apply_rewards V (vm_txs V ! i) (ucast (er_gas_used result)) ws0 = Inr ws"
    and same: "mv_data m2 = mv_data m" "mv_locations m2 = mv_locations m" "new_bytecodes m2 = codes"
    and rec: "mv_record v (db_read_set db) ws m2 = (b, m')"
    by (rule execution_succeeded_record[OF w e])
  have C: "set_codes_ok K ws0 codes" "new_bytecodes m \<subseteq>\<^sub>m codes"
    using write_accounts_codes[OF _ st wa] ok by (auto simp: codes_ok_def)
  then have C': "set_codes_ok K ws codes" using rw apply_reward_list_codes by (auto simp: apply_rewards_def)
  have inv2: "mv_inv m2" using inv mv_inv_cong[OF same(1,2)] by simp
  have i2: "tv_idx v < length (mv_locations m2)" using i v same by simp
  note P = mv_record_parts[OF inv2 i2 final_writes_distinct[OF w] rec]
  have codes: "new_bytecodes m' = codes" using P(10) same by simp
  have "new_bytecodes m' h \<noteq> None" if "entry_at (mv_data m') loc j = Some (Data inc (VCodeHash h))" for loc j inc h
  proof -
    have "map_of ws loc = Some (VCodeHash h) \<or> entry_at (mv_data m) loc j = Some (Data inc (VCodeHash h))"
      using that P(2)[of loc j] same by (auto split: option.splits if_splits)
    then show ?thesis
    proof
      assume "map_of ws loc = Some (VCodeHash h)"
      then show ?thesis using C' codes by (auto simp: set_codes_ok_def)
    next
      assume "entry_at (mv_data m) loc j = Some (Data inc (VCodeHash h))"
      then have "h \<in> dom (new_bytecodes m)" using ok unfolding codes_ok_def by blast
      then show ?thesis using C(2) codes by (auto simp: map_le_def dom_def)
    qed
  qed
  then show ?thesis using C' C(2) codes by (auto simp: codes_ok_def set_codes_ok_def)
qed

section \<open>The end of a parallel run\<close>

text \<open>
  An initial memory has no values, only estimates, and nothing is recorded in it.
\<close>

definition initial_memory :: "nat \<Rightarrow> mv_memory \<Rightarrow> bool" where
  "initial_memory n m0 \<longleftrightarrow> mv_inv m0 \<and> length (mv_locations m0) = n
     \<and> (\<forall>i < n. writes_of m0 i = [])
     \<and> (\<forall>loc i inc val. entry_at (mv_data m0) loc i \<noteq> Some (Data inc val))"

text \<open>
  \<open>inc\<close>, \<open>lz\<close>, \<open>out\<close>, \<open>db\<close> and \<open>ws\<close> give for each transaction the final incarnation, the choice
  of lazy updates, the outcome, the database after the run and the write set.
\<close>

definition validated_block ::
    "revm \<Rightarrow> (evm_env \<Rightarrow> tx_env \<Rightarrow> evm_outcome evm) \<Rightarrow> (b256 \<Rightarrow> bytecode) \<Rightarrow> vm \<Rightarrow> nat \<Rightarrow> (nat \<Rightarrow> nat) \<Rightarrow> (nat \<Rightarrow> bool)
      \<Rightarrow> (nat \<Rightarrow> execution_result \<times> evm_state) \<Rightarrow> (nat \<Rightarrow> vmdb) \<Rightarrow> (nat \<Rightarrow> write_set) \<Rightarrow> mv_memory \<Rightarrow> bool" where
  "validated_block R transact K V n inc lz out db ws m \<longleftrightarrow>
     mv_inv m \<and>
     (\<forall>i < n.
        (\<exists>mems. read_phase_with R transact V i (lz i) mems = Inr (Inr (out i), db i)
            \<and> compatible_run (vm_db V) K mems m)
        \<and> state_codes R K (snd (out i))
        \<and> final_writes R V i (db i) (out i) = Inr (ws i)
        \<and> reads_of m i = db_read_set (db i)
        \<and> validate_read_locations i m
        \<and> (\<forall>loc. entry_at (mv_data m) loc i = map_option (Data (inc i)) (map_of (ws i) loc)))"

definition serial_ok ::
    "(b256 \<Rightarrow> bytecode) \<Rightarrow> nat \<Rightarrow> mv_memory \<Rightarrow> (nat \<Rightarrow> nat) \<Rightarrow> (nat \<Rightarrow> write_set) \<Rightarrow> nat \<Rightarrow> mv_memory \<Rightarrow> bool" where
  "serial_ok K n m0 inc ws i S \<longleftrightarrow> mv_inv S \<and> codes_ok K S \<and> length (mv_locations S) = n
     \<and> (\<forall>j. i \<le> j \<longrightarrow> j < n \<longrightarrow> writes_of S j = [])
     \<and> (\<forall>loc j. entry_at (mv_data S) loc j =
          (if j < i then map_option (Data (inc j)) (map_of (ws j) loc) else entry_at (mv_data m0) loc j))"

lemma serial_reads:
  assumes vb: "validated_block R transact K V n inc lz out db ws m" and i: "i < n"
    and S: "serial_ok K n m0 inc ws i S" and m0: "initial_memory n m0"
    and U: "uses_locations R transact V i L"
  shows "read_phase_with R transact V i (lz i) (\<lambda>_. S) = Inr (Inr (out i), db i)"
proof -
  obtain mems where r: "read_phase_with R transact V i (lz i) mems = Inr (Inr (out i), db i)"
      "compatible_run (vm_db V) K mems m"
    using vb i by (auto simp: validated_block_def)
  have m: "mv_inv m" "reads_of m i = db_read_set (db i)" "validate_read_locations i m"
      "\<And>j loc. j < n \<Longrightarrow> entry_at (mv_data m) loc j = map_option (Data (inc j)) (map_of (ws j) loc)"
    using vb i by (auto simp: validated_block_def)
  note P = read_phase_replay[OF r(1) U, where m = m and K = K]
  then have idx: "db_tx_idx (db i) = i" and ok: "db_ok R L (db i)" by blast+
  have vm: "origins_valid_in m (db i)" by (rule origins_valid_recorded[OF m(3,2) idx])
  then have rm: "read_phase_with R transact V i (lz i) (\<lambda>_. m) = Inr (Inr (out i), db i)" using P r(2) by blast
  have e: "entry_at (mv_data S) loc j = entry_at (mv_data m) loc j" if "j < i" for loc j
    using S that m(4)[of j loc] i by (simp add: serial_ok_def)
  have srt: "data_sorted (mv_data m)" "data_sorted (mv_data S)"
    using mv_invD(1) m(1) S by (auto simp: serial_ok_def)
  have "versions_agree m S"
    unfolding versions_agree_def
  proof (intro allI impI)
    fix loc j k val val'
    assume a: "entry_at (mv_data m) loc j = Some (Data k val)" "entry_at (mv_data S) loc j = Some (Data k val')"
    show "val = val'"
    proof (cases "j < i")
      case True
      then show ?thesis using a e by simp
    next
      case False
      then show ?thesis using a(2) S m0 by (simp add: serial_ok_def initial_memory_def)
    qed
  qed
  then have "compatible (vm_db V) K m S"
    using srt r(2) S by (simp add: compatible_def compatible_run_def serial_ok_def)
  then have c: "compatible_run (vm_db V) K (\<lambda>_. m) S" by (rule compatible_const)
  have now: "origins_now (mv_data S) i loc = origins_now (mv_data m) i loc" for loc
    using e by (intro origins_now_cong srt) simp
  have "origins_valid_in S (db i)"
    unfolding origins_valid_in_def
  proof (intro allI impI)
    fix loc assume "origins_at (db i) loc \<noteq> []"
    then have "origins_wf (origins_at (db i) loc)" "read_valid (mv_data m) i (loc, origins_at (db i) loc)"
      using ok vm idx by (auto simp: db_ok_def origins_valid_in_def)
    then show "read_valid (mv_data S) (db_tx_idx (db i)) (loc, origins_at (db i) loc)"
      using read_valid_prefix now idx by metis
  qed
  then show ?thesis using read_phase_replay[OF rm U, where m = S and K = K] c by blast
qed

lemma serial_step:
  assumes vb: "validated_block R transact K V n inc lz out db ws m" and i: "i < n"
    and S: "serial_ok K n m0 inc ws i S" and m0: "initial_memory n m0"
    and est: "\<And>loc. entry_at (mv_data m0) loc i \<noteq> None \<Longrightarrow> map_of (ws i) loc \<noteq> None"
    and U: "uses_locations R transact V i L"
    and ty: "tx_type_try_from R (te_tx_type (vm_txs V ! i)) = Inr ty"
    and e: "execute_with R transact V \<lparr>tv_idx = i, tv_incarnation = inc i\<rparr> (lz i) S = (r, S')"
  shows "(\<exists>flags. r = Inr \<lparr>vr_execution_result = from_raw ty (fst (out i)) (snd (out i)), vr_flags = flags\<rparr>)
    \<and> serial_ok K n m0 inc ws (Suc i) S'"
proof -
  let ?v = "\<lparr>tv_idx = i, tv_incarnation = inc i\<rparr>"
  obtain result state where o: "out i = (result, state)" by force
  have w: "final_writes R V i (db i) (result, state) = Inr (ws i)" using vb i o by (auto simp: validated_block_def)
  have S': "mv_inv S" "i < length (mv_locations S)" using S i by (simp_all add: serial_ok_def)
  have ex: "execution_succeeded R (apply_rewards V (vm_txs V ! i) (ucast (er_gas_used result))) (vm_evm_env V)
      (vm_txs V ! i) ?v (db i) result state S = (r, S')"
    using e serial_reads[OF vb i S m0 U] o by (simp add: execute_with_def Let_def)
  note P = execution_succeeded_parts[OF w ty _ S' ex, simplified]
  have codes: "codes_ok K S'"
    using execution_succeeded_codes[OF w _ S' ex, of K] S vb i o by (auto simp: serial_ok_def validated_block_def)
  have old: "writes_of S i = []" using S i by (simp add: serial_ok_def)
  have ent: "entry_at (mv_data S') loc j =
      (if j < Suc i then map_option (Data (inc j)) (map_of (ws j) loc) else entry_at (mv_data m0) loc j)" for loc j
  proof (cases "j = i")
    case True
    have "entry_at (mv_data S) loc i = entry_at (mv_data m0) loc i" using S by (simp add: serial_ok_def)
    moreover have "map_of (ws i) loc = None \<Longrightarrow> entry_at (mv_data m0) loc i = None" using est by blast
    ultimately show ?thesis
      using P(4)[of loc j] True old by (auto split: option.splits)
  next
    case False
    then show ?thesis using P(4)[of loc j] S by (auto simp: serial_ok_def)
  qed
  have "serial_ok K n m0 inc ws (Suc i) S'"
    unfolding serial_ok_def
  proof (intro conjI allI impI)
    show "mv_inv S'" "length (mv_locations S') = n" "codes_ok K S'" using P(2,3) S codes by (simp_all add: serial_ok_def)
    show "writes_of S' j = []" if "Suc i \<le> j" "j < n" for j
      using P(6)[of j] S that by (simp add: serial_ok_def)
  qed (rule ent)
  then show ?thesis using P(1) o by auto
qed

lemma serial_ok_all:
  assumes vb: "validated_block R transact K V n inc lz out db ws m" and m0: "initial_memory n m0"
    and est: "\<And>i loc. i < n \<Longrightarrow> entry_at (mv_data m0) loc i \<noteq> None \<Longrightarrow> map_of (ws i) loc \<noteq> None"
    and U: "\<And>i. i < n \<Longrightarrow> \<exists>L. uses_locations R transact V i L"
    and codes: "codes_ok K m0"
    and ty: "\<And>i. i < n \<Longrightarrow> tx_type_try_from R (te_tx_type (vm_txs V ! i)) = Inr (ty i)"
  shows "i \<le> n \<Longrightarrow> serial_ok K n m0 inc ws i (serial_mem R transact V inc lz m0 i)"
proof (induction i)
  case 0
  then show ?case using m0 codes by (auto simp: serial_ok_def initial_memory_def)
next
  case (Suc i)
  then have i: "i < n" and S: "serial_ok K n m0 inc ws i (serial_mem R transact V inc lz m0 i)" by simp_all
  obtain L where U': "uses_locations R transact V i L" using U[OF i] by blast
  show ?case
    using serial_step[OF vb i S m0 est[OF i] U' ty[OF i] prod.collapse[symmetric]] by simp
qed

section \<open>The memory the executor starts from\<close>

lemma apply_reward_list_keys:
  "apply_reward_list rs ws = Inr ws' \<Longrightarrow> loc \<in> fst ` set rs \<or> map_of ws loc \<noteq> None \<Longrightarrow> map_of ws' loc \<noteq> None"
  by (induction rs ws rule: apply_reward_list.induct) (auto simp: update_conv' split: option.splits)

text \<open>Every execution writes to the beneficiary.\<close>

lemma final_writes_beneficiary:
  "final_writes R V i db out = Inr ws \<Longrightarrow> map_of ws (beneficiary_location_hash V) \<noteq> None"
proof -
  assume w: "final_writes R V i db out = Inr ws"
  obtain result state where o: "out = (result, state)" by force
  have "beneficiary_location_hash V \<in> fst ` set (rewards_of V (vm_txs V ! i) (ucast (er_gas_used result)))"
    by (cases "vm_reward_policy V") (simp add: rewards_of_def)
  then show ?thesis
    using w apply_reward_list_keys unfolding o final_writes_def apply_rewards_def prod.case by blast
qed

lemma map_of_estimates:
  "map_of (fold (\<lambda>(k, v) m. bt_insert k v m) (map (\<lambda>i. (i, Estimate)) is) t) j = Some (Data inc val) \<Longrightarrow>
   map_of t j = Some (Data inc val)"
proof (induction "is" arbitrary: t)
  case (Cons a "is")
  then have "map_of (bt_insert a Estimate t) j = Some (Data inc val)" by simp
  then show ?case by (simp add: ordmap_simps split: if_splits)
qed simp

lemma build_mv_memory_initial:
  "initial_memory (length txs) (build_mv_memory h b txs)"
  "entry_at (mv_data (build_mv_memory h b txs)) loc i \<noteq> None \<Longrightarrow> loc = h (Basic b)"
  "codes_ok K (build_mv_memory h b txs)"
proof -
  let ?m = "build_mv_memory h b txs"
  have new: "?m = mv_new (length txs) [(h (Basic b), [0..<length txs])] [b]"
    by (simp add: build_mv_memory_def Let_def)
  have d: "mv_data ?m = [h (Basic b) \<mapsto> bt_of_list (map (\<lambda>i. (i, Estimate)) [0..<length txs])]"
    by (simp add: new mv_new_def)
  have "entry_at (mv_data ?m) loc i \<noteq> Some (Data inc val)" for loc i inc val
    using map_of_estimates[of "[0..<length txs]" "[]" i inc val]
    by (auto simp: d entry_at_def entries_of_def bt_of_list_def)
  moreover have "new_bytecodes ?m = Map.empty" by (simp add: new mv_new_def)
  ultimately show "initial_memory (length txs) ?m" "codes_ok K ?m"
    using mv_new_inv mv_new_locations
    by (simp_all add: initial_memory_def codes_ok_def new writes_of_def read_write_set_default_def)
  show "entry_at (mv_data ?m) loc i \<noteq> None \<Longrightarrow> loc = h (Basic b)"
    by (auto simp: d entry_at_def entries_of_def split: if_splits)
qed

section \<open>A sample block\<close>

text \<open>
  Two transactions: the first writes 7 to a storage slot of account 5, the second reads the
  slot. The beneficiary is account 9 and receives 6 for each.
\<close>

definition sample_R :: revm where
  "sample_R = \<lparr>hash_location = (\<lambda>l. case l of Basic a \<Rightarrow> ucast a * 4 | CodeHash a \<Rightarrow> ucast a * 4 + 1
       | Storage a _ \<Rightarrow> ucast a * 4 + 2),
     bytecode_default = [], KECCAK_EMPTY = 0,
     account_info_default = \<lparr>ai_balance = 0, ai_nonce = 0, ai_code_hash = 0, ai_code = None\<rparr>,
     is_empty_code_hash = (\<lambda>info. ai_code_hash info = 0),
     account_is_empty = (\<lambda>acc. ai_balance (acc_info acc) = 0 \<and> ai_nonce (acc_info acc) = 0 \<and> ai_code_hash (acc_info acc) = 0),
     changed_storage_slots = (\<lambda>acc. map (\<lambda>(k, s). (k, slot_present s))
        (filter (\<lambda>(k, s). slot_present s \<noteq> slot_original s) (acc_storage acc))),
     tx_type_try_from = Inr\<rparr>"

definition sample_D :: database_ref where
  "sample_D = \<lparr>basic_ref = (\<lambda>_. Inr None), code_by_hash_ref = (\<lambda>_. Inr []), storage_ref = (\<lambda>_ _. Inr 0),
     block_hash_ref = (\<lambda>_. Inr 0)\<rparr>"

definition sample_env :: evm_env where
  "sample_env = \<lparr>ee_beneficiary = 9, ee_basefee = 0, ee_spurious_dragon = False, ee_london = False\<rparr>"

definition sample_tx :: "u64 \<Rightarrow> tx_env" where
  "sample_tx nonce = \<lparr>te_tx_type = 0, te_caller = 1, te_gas_limit = 10, te_gas_price = 2, te_kind = Create,
     te_value = 0, te_nonce = nonce, te_gas_priority_fee = None, te_max_fee_per_blob_gas = 0, te_total_blob_gas = 0\<rparr>"

definition sample_result :: execution_result where
  "sample_result = \<lparr>er_success = True, er_gas_used = 3, er_logs = []\<rparr>"

definition sample_account :: account where
  "sample_account = \<lparr>acc_info = \<lparr>ai_balance = 0, ai_nonce = 0, ai_code_hash = 0, ai_code = None\<rparr>,
     acc_touched = False, acc_selfdestructed = False,
     acc_storage = [(0, \<lparr>slot_original = 0, slot_present = 7\<rparr>)]\<rparr>"

definition sample_transact :: "evm_env \<Rightarrow> tx_env \<Rightarrow> evm_outcome evm" where
  "sample_transact env tx =
     (if te_nonce tx = 0 then Done (Inr (sample_result, [(5, sample_account)]))
      else GetStorage 5 0 (\<lambda>x. Done (Inr (sample_result, []))))"

definition sample_V :: vm where
  "sample_V = vm_new sample_R sample_D sample_env [sample_tx 0, sample_tx 1]"

definition sample_out :: "nat \<Rightarrow> execution_result \<times> evm_state" where
  "sample_out i = (if i = 0 then (sample_result, [(5, sample_account)]) else (sample_result, []))"

definition sample_db :: "nat \<Rightarrow> vmdb" where
  "sample_db i = \<lparr>db_tx_idx = i, db_tx = sample_tx (of_nat i), from_hash = 4, to_hash = None, to_code_hash = None,
     is_lazy = False,
     db_read_set = (if i = 0 then [] else [(22, [OriginMvMemory \<lparr>tv_idx = 0, tv_incarnation = 0\<rparr>])]),
     read_accounts = Map.empty\<rparr>"

definition sample_ws :: "nat \<Rightarrow> write_set" where
  "sample_ws i = (if i = 0 then [(22, VStorage 7), (36, LazyRecipient 6)] else [(36, LazyRecipient 6)])"

definition sample_m0 :: mv_memory where
  "sample_m0 = build_mv_memory (hash_location sample_R) 9 [sample_tx 0, sample_tx 1]"

definition sample_m1 :: mv_memory where
  "sample_m1 = snd (mv_record \<lparr>tv_idx = 0, tv_incarnation = 0\<rparr> (db_read_set (sample_db 0)) (sample_ws 0) sample_m0)"

definition sample_m2 :: mv_memory where
  "sample_m2 = snd (mv_record \<lparr>tv_idx = 1, tv_incarnation = 0\<rparr> (db_read_set (sample_db 1)) (sample_ws 1) sample_m1)"

lemmas sample_block_simps = sample_R_def sample_D_def sample_env_def sample_tx_def sample_result_def
  sample_account_def sample_V_def sample_out_def sample_db_def sample_ws_def vm_new_def

lemmas sample_record_simps = mv_record_def Let_def index_mutex_def record_prune.simps insert_entry_def
  upt_rec[of 0 2] upt_rec[of 1 2] upt_rec[of "Suc 0" 2]

lemma sample_m0_state:
  "sample_m0 = \<lparr>mv_data = [36 \<mapsto> [(0, Estimate), (1, Estimate)]],
     mv_locations = [\<lparr>rw_read = [], rw_write = []\<rparr>, \<lparr>rw_read = [], rw_write = []\<rparr>],
     lazy_addresses = [9], new_bytecodes = Map.empty\<rparr>"
  by (simp add: sample_m0_def sample_block_simps build_mv_memory_def mv_new_def Let_def
      read_write_set_default_def bt_of_list_def set_insert_def
      upt_rec[of 0 2] upt_rec[of 1 2] upt_rec[of "Suc 0" 2])

lemma sample_m1_state:
  "sample_m1 = \<lparr>mv_data = [36 \<mapsto> [(0, Data 0 (LazyRecipient 6)), (1, Estimate)], 22 \<mapsto> [(0, Data 0 (VStorage 7))]],
     mv_locations = [\<lparr>rw_read = [], rw_write = [22, 36]\<rparr>, \<lparr>rw_read = [], rw_write = []\<rparr>],
     lazy_addresses = [9], new_bytecodes = Map.empty\<rparr>"
  by (simp add: sample_m1_def sample_m0_state sample_db_def sample_ws_def sample_record_simps fun_eq_iff)

lemma sample_m2_state:
  "sample_m2 = \<lparr>mv_data = [36 \<mapsto> [(0, Data 0 (LazyRecipient 6)), (1, Data 0 (LazyRecipient 6))],
       22 \<mapsto> [(0, Data 0 (VStorage 7))]],
     mv_locations = [\<lparr>rw_read = [], rw_write = [22, 36]\<rparr>,
       \<lparr>rw_read = [(22, [OriginMvMemory \<lparr>tv_idx = 0, tv_incarnation = 0\<rparr>])], rw_write = [36]\<rparr>],
     lazy_addresses = [9], new_bytecodes = Map.empty\<rparr>"
  by (simp add: sample_m2_def sample_m1_state sample_db_def sample_ws_def sample_record_simps fun_eq_iff)

lemma sample_mem_inv:
  "mv_inv sample_m0" "length (mv_locations sample_m0) = 2" "mv_inv sample_m1"
  "length (mv_locations sample_m1) = 2" "mv_inv sample_m2"
proof -
  show 0: "mv_inv sample_m0" "length (mv_locations sample_m0) = 2"
    using build_mv_memory_initial(1)[of "[sample_tx 0, sample_tx 1]"] by (simp_all add: sample_m0_def initial_memory_def)
  obtain b m where 1: "mv_record \<lparr>tv_idx = 0, tv_incarnation = 0\<rparr> (db_read_set (sample_db 0)) (sample_ws 0) sample_m0 = (b, m)"
    by force
  then have m: "sample_m1 = m" unfolding sample_m1_def by simp
  show i1: "mv_inv sample_m1" "length (mv_locations sample_m1) = 2"
    using mv_record_inv[OF 0(1) _ _ 1] mv_record_parts(4)[OF 0(1) _ _ 1] 0(2) by (simp_all add: m sample_ws_def)
  obtain b' m' where 2: "mv_record \<lparr>tv_idx = 1, tv_incarnation = 0\<rparr> (db_read_set (sample_db 1)) (sample_ws 1) sample_m1 = (b', m')"
    by force
  then have "sample_m2 = m'" unfolding sample_m2_def by simp
  then show "mv_inv sample_m2" using mv_record_inv[OF i1(1) _ _ 2] i1(2) by (simp add: sample_ws_def)
qed

lemma sample_read_phase_0:
  "read_phase_with sample_R sample_transact sample_V 0 lz mems = Inr (Inr (sample_out 0), sample_db 0)"
  by (simp add: read_phase_with_def vmdb_new_with_def to_location_def Let_def sample_block_simps sample_transact_def)

lemma sample_read_phase_1:
  assumes "mv_data (mems 3) 22 = Some [(0, Data 0 (VStorage 7))]"
  shows "read_phase_with sample_R sample_transact sample_V 1 lz mems = Inr (Inr (sample_out 1), sample_db 1)"
  using assms
  by (simp add: read_phase_with_def vmdb_new_with_def to_location_def Let_def sample_block_simps sample_transact_def
      vmdb_storage_def closest_def bt_below_def bt_range_def push_origin_def origins_at_def put_origins_def answer_def)

lemma sample_final_writes:
  "final_writes sample_R sample_V 0 (sample_db 0) (sample_out 0) = Inr (sample_ws 0)"
  "final_writes sample_R sample_V 1 (sample_db 1) (sample_out 1) = Inr (sample_ws 1)"
  by (simp_all add: final_writes_def apply_rewards_def rewards_of_def write_accounts_def write_account_def
      write_slots_def sample_block_simps effective_gas_price_def reward_policy_def saturating_mul_def Let_def)

lemma sample_codes: "codes_ok (\<lambda>_. []) sample_m1" "codes_ok (\<lambda>_. []) sample_m2"
  by (auto simp: codes_ok_def sample_m1_state sample_m2_state entry_at_def entries_of_def split: if_splits)

lemma sample_compatible:
  assumes "mv_inv m" "versions_agree m sample_m2" "codes_ok (\<lambda>_. []) m"
  shows "compatible sample_D (\<lambda>_. []) m sample_m2"
  using assms mv_invD(1) sample_mem_inv(5) sample_codes(2) by (simp add: compatible_def stored_codes_def sample_D_def)

lemma versions_agree_refl: "versions_agree m m"
  by (simp add: versions_agree_def)

lemma sample_validated_block:
  "validated_block sample_R sample_transact (\<lambda>_. []) sample_V 2 (\<lambda>_. 0) (\<lambda>_. False) sample_out sample_db sample_ws sample_m2"
proof -
  have "compatible (vm_db sample_V) (\<lambda>_. []) sample_m2 sample_m2"
    using sample_compatible[OF sample_mem_inv(5) versions_agree_refl sample_codes(2)] by (simp add: sample_V_def vm_new_def)
  then have c: "compatible_run (vm_db sample_V) (\<lambda>_. []) (\<lambda>_. sample_m2) sample_m2" by (rule compatible_const)
  have st: "state_codes sample_R (\<lambda>_. []) (snd (sample_out i))" for i by (simp add: state_codes_def sample_out_def sample_block_simps)
  have "reads_of sample_m2 0 = db_read_set (sample_db 0)" "reads_of sample_m2 1 = db_read_set (sample_db 1)"
    by (simp_all add: reads_of_def sample_m2_state sample_db_def)
  moreover have "validate_read_locations 0 sample_m2" "validate_read_locations 1 sample_m2"
    by (simp_all add: validate_read_locations_def index_mutex_def sample_m2_state read_valid_def bt_below_def bt_range_def)
  moreover have "entry_at (mv_data sample_m2) loc 0 = map_option (Data 0) (map_of (sample_ws 0) loc)"
      "entry_at (mv_data sample_m2) loc 1 = map_option (Data 0) (map_of (sample_ws 1) loc)" for loc
    by (auto simp: entry_at_def entries_of_def sample_m2_state sample_ws_def)
  moreover have "read_phase_with sample_R sample_transact sample_V 1 False (\<lambda>_. sample_m2) = Inr (Inr (sample_out 1), sample_db 1)"
    by (rule sample_read_phase_1) (simp add: sample_m2_state)
  moreover have "i = 0 \<or> i = 1" if "i < 2" for i :: nat using that by auto
  ultimately show ?thesis
    unfolding validated_block_def using sample_mem_inv(5) c st sample_read_phase_0 sample_final_writes by metis
qed

lemma sample_uses_locations: "uses_locations sample_R sample_transact sample_V i {Storage 5 0}" if "i < 2"
proof -
  have "i = 0 \<or> i = 1" using that by auto
  then show ?thesis by (auto simp: uses_locations_def sample_transact_def sample_block_simps)
qed

section \<open>Validated executions are serial\<close>



text \<open>A parallel run whose final memory holds the recorded read and write sets of every
  transaction, each read set valid there, gives what executing the transactions one after the
  other gives, starting from the memory the executor builds: the serial execution of every
  transaction succeeds with the same receipt and state, and the final memories have the same
  entry for every location and transaction.\<close>
lemma validated_block_is_serial:
  assumes "V = vm_new R D env txs" and "m0 = build_mv_memory (hash_location R) (ee_beneficiary env) txs"
    and "validated_block R transact K V (length txs) inc lz out db ws m"
    and "\<forall>i < length txs. \<exists>L. uses_locations R transact V i L"
    and "\<forall>i < length txs. tx_type_try_from R (te_tx_type (txs ! i)) = Inr (ty i)"
  shows "(\<forall>i < length txs. \<exists>flags.
           fst (execute_with R transact V \<lparr>tv_idx = i, tv_incarnation = inc i\<rparr> (lz i) (serial_mem R transact V inc lz m0 i))
             = Inr \<lparr>vr_execution_result = from_raw (ty i) (fst (out i)) (snd (out i)), vr_flags = flags\<rparr>)
       \<and> (\<forall>loc. \<forall>j < length txs. entry_at (mv_data (serial_mem R transact V inc lz m0 (length txs))) loc j = entry_at (mv_data m) loc j)"
proof -
  let ?n = "length txs" and ?S = "serial_mem R transact V inc lz m0"
  have V: "vm_txs V = txs" "beneficiary_location_hash V = hash_location R (Basic (ee_beneficiary env))"
    using assms(1) by (simp_all add: vm_new_def Let_def)
  have m0: "initial_memory ?n m0" unfolding assms(2) by (rule build_mv_memory_initial(1))
  have est: "map_of (ws i) loc \<noteq> None" if "i < ?n" "entry_at (mv_data m0) loc i \<noteq> None" for i loc
  proof -
    have "loc = beneficiary_location_hash V"
      using build_mv_memory_initial(2) that(2) unfolding assms(2) V(2) by blast
    moreover have "final_writes R V i (db i) (out i) = Inr (ws i)" using assms(3) that(1) by (simp add: validated_block_def)
    ultimately show ?thesis using final_writes_beneficiary by blast
  qed
  have ok: "serial_ok K ?n m0 inc ws i (?S i)" if "i \<le> ?n" for i
  proof -
    have "codes_ok K m0" unfolding assms(2) by (rule build_mv_memory_initial(3))
    then show ?thesis using serial_ok_all[OF assms(3) m0 est, of ty] assms(4,5) that V by simp
  qed
  show ?thesis
  proof (intro conjI allI impI)
    fix i assume i: "i < ?n"
    obtain L where L: "uses_locations R transact V i L" using assms(4) i by blast
    have "tx_type_try_from R (te_tx_type (vm_txs V ! i)) = Inr (ty i)" using assms(5) i V by simp
    from serial_step[OF assms(3) i ok m0 est[OF i] L this prod.collapse[symmetric]] i
    show "\<exists>flags. fst (execute_with R transact V \<lparr>tv_idx = i, tv_incarnation = inc i\<rparr> (lz i) (?S i))
             = Inr \<lparr>vr_execution_result = from_raw (ty i) (fst (out i)) (snd (out i)), vr_flags = flags\<rparr>" by simp
  next
    fix loc j assume "j < ?n"
    then show "entry_at (mv_data (?S ?n)) loc j = entry_at (mv_data m) loc j"
      using ok[of ?n] assms(3) by (simp add: serial_ok_def validated_block_def)
  qed
qed

end
