(* ===== verification/Executor.thy ===== *)
theory Executor
  imports Scheduler Serial_Equivalence
begin

text \<open>
  The executor (\<open>crates/pe/src/executor.rs\<close>): what a worker does with a task, what happens after
  the threads have joined, and the sequential fallback.

  \<open>try_execute_attempt\<close> is one turn of the loop of \<open>try_execute\<close> and \<open>try_validate\<close> the function
  of that name. \<open>collect_results\<close> takes the results and turns the gas of each transaction into
  the running total. \<open>evaluate_addresses\<close> evaluates the lazily updated accounts, transaction by
  transaction, and writes them into the results. \<open>execute_joined\<close> is \<open>execute\<close> from the join of
  the threads on. A panic is \<open>None\<close>: \<open>unwrap\<close> on a missing result and \<open>unreachable!\<close>. The
  assertions of debug builds are not part of the model, and arithmetic on \<open>u64\<close> wraps as in
  release builds. The deferred dropping of the memory is not modelled.

  Parameters. The sequential fallback runs revm on a \<open>CacheDB\<close>; \<open>'c\<close> is its type, and
  \<open>seq_transact\<close> and \<open>seq_commit\<close> are the calls \<open>evm.transact\<close> and \<open>commit\<close>.
\<close>

section \<open>The executor object\<close>

record parallel_executor =
  execution_results :: "tx_execution_result option list"
  pe_abort_reason :: "abort_reason option"

definition parallel_executor_default :: parallel_executor where
  "parallel_executor_default = \<lparr>execution_results = [], pe_abort_reason = None\<rparr>"

text \<open>\<open>execution_results\<close> is extended to the size of the block and never shrunk.\<close>

definition reserve_results :: "nat \<Rightarrow> parallel_executor \<Rightarrow> parallel_executor" where
  "reserve_results block_size E =
     (let additional = block_size - length (execution_results E) in
      E\<lparr>execution_results := execution_results E @ replicate additional None\<rparr>)"

text \<open>\<open>OnceLock::get_or_init\<close>\<close>

definition set_abort_reason :: "abort_reason \<Rightarrow> parallel_executor \<Rightarrow> parallel_executor" where
  "set_abort_reason r E = (case pe_abort_reason E of None \<Rightarrow> E\<lparr>pe_abort_reason := Some r\<rparr> | Some _ \<Rightarrow> E)"

section \<open>Tasks\<close>

datatype attempt = Again | Return_task "task option"

text \<open>One turn of the loop of \<open>try_execute\<close>, given what \<open>vm.execute\<close> returned.\<close>

definition try_execute_attempt ::
    "tx_version \<Rightarrow> vm_execution_error + vm_execution_result \<Rightarrow> parallel_executor \<Rightarrow> scheduler
      \<Rightarrow> attempt \<times> parallel_executor \<times> scheduler" where
  "try_execute_attempt v r E s =
     (case r of
        Inl VmRetry \<Rightarrow> (if pe_abort_reason E = None then Again else Return_task None, E, s)
      | Inl VmFallbackToSequential \<Rightarrow>
          (Return_task None, set_abort_reason AbortFallbackToSequential E, sched_abort s)
      | Inl (VmBlocking blocking_tx_idx) \<Rightarrow>
          (case add_dependency (tv_idx v) blocking_tx_idx s of
             (added, s') \<Rightarrow>
               (if \<not> added \<and> pe_abort_reason E = None then Again else Return_task None, E, s'))
      | Inl (VmExecutionError err) \<Rightarrow>
          (Return_task None, set_abort_reason (AbortExecutionError err) E, sched_abort s)
      | Inr res \<Rightarrow>
          (case finish_execution v (vr_flags res) s of
             (t, s') \<Rightarrow>
               (Return_task t,
                E\<lparr>execution_results := (execution_results E)[tv_idx v := Some (vr_execution_result res)]\<rparr>, s')))"

text \<open>
  The loop of \<open>try_execute\<close>: \<open>answers k\<close> is what the \<open>k\<close>-th call of \<open>vm.execute\<close> returns. The loop
  has no bound in the code, so the number of turns is limited by \<open>fuel\<close>; \<open>None\<close> means that it has
  not returned within that many turns.
\<close>

fun try_execute_loop ::
    "nat \<Rightarrow> (nat \<Rightarrow> vm_execution_error + vm_execution_result) \<Rightarrow> tx_version \<Rightarrow> parallel_executor \<Rightarrow> scheduler
      \<Rightarrow> (task option \<times> parallel_executor \<times> scheduler) option" where
  "try_execute_loop 0 answers v E s = None"
| "try_execute_loop (Suc fuel) answers v E s =
     (case try_execute_attempt v (answers 0) E s of
        (Again, E', s') \<Rightarrow> try_execute_loop fuel (\<lambda>k. answers (Suc k)) v E' s'
      | (Return_task t, E', s') \<Rightarrow> Some (t, E', s'))"

definition try_validate :: "tx_version \<Rightarrow> mv_memory \<Rightarrow> scheduler \<Rightarrow> task option \<times> mv_memory \<times> scheduler" where
  "try_validate v m s =
     (let read_set_valid = validate_read_locations (tv_idx v) m;
          (was_aborted, s') = (if \<not> read_set_valid then try_validation_abort v s else (False, s));
          m' = (if was_aborted then convert_writes_to_estimates (tv_idx v) m else m);
          (t, s'') = finish_validation v was_aborted s'
      in (t, m', s''))"

section \<open>After the join\<close>

fun collect_results :: "tx_execution_result option list \<Rightarrow> u64 \<Rightarrow> tx_execution_result list option" where
  "collect_results [] cumulative_gas_used = Some []"
| "collect_results (None # rs) cumulative_gas_used = None"
| "collect_results (Some r # rs) cumulative_gas_used =
     (case add_cumulative_gas r cumulative_gas_used of
        (cumulative_gas_used', r') \<Rightarrow> map_option ((#) r') (collect_results rs cumulative_gas_used'))"

definition max_fee :: "tx_env \<Rightarrow> u256" where
  "max_fee tx =
     saturating_add
       (saturating_add (saturating_mul (ucast (te_gas_limit tx)) (ucast (te_gas_price tx))) (te_value tx))
       (saturating_mul (ucast (te_total_blob_gas tx)) (ucast (te_max_fee_per_blob_gas tx)))"

text \<open>One entry of the write history; the outer \<open>None\<close> is \<open>unreachable!\<close>.\<close>

fun apply_entry :: "tx_env \<Rightarrow> entry \<Rightarrow> u256 \<Rightarrow> u64 \<Rightarrow> (parallel_executor_error + u256 \<times> u64) option" where
  "apply_entry tx (Data _ (VBasic info)) balance nonce = Some (Inr (ai_balance info, ai_nonce info))"
| "apply_entry tx (Data _ (LazyRecipient addition)) balance nonce =
     Some (Inr (saturating_add balance addition, nonce))"
| "apply_entry tx (Data _ (LazySender subtraction)) balance nonce =
     Some (if balance < max_fee tx
           then Inl (PeExecutionError (ETransaction (LackOfFundForMaxFee balance (max_fee tx))))
           else Inr (saturating_sub balance subtraction, nonce + 1))"
| "apply_entry tx _ balance nonce = None"

definition check_executed_nonce :: "address \<Rightarrow> nat \<Rightarrow> tx_env \<Rightarrow> u64 \<Rightarrow> parallel_executor_error option" where
  "check_executed_nonce a tx_idx tx nonce =
     (if te_caller tx = a then
        (if nonce = 0 then Some UnreachableError
         else if te_nonce tx \<noteq> nonce - 1 then Some (NonceMismatch tx_idx (te_nonce tx) (nonce - 1))
         else None)
      else None)"

definition put_evaluated ::
    "revm \<Rightarrow> evm_env \<Rightarrow> address \<Rightarrow> b256 \<Rightarrow> bytecode \<Rightarrow> u256 \<Rightarrow> u64 \<Rightarrow> tx_execution_result \<Rightarrow> tx_execution_result" where
  "put_evaluated R env a code_hash code balance nonce r =
     (if ee_spurious_dragon env \<and> code_hash = KECCAK_EMPTY R \<and> nonce = 0 \<and> balance = 0 then r
      else
        (case map_of (tr_state r) a of
           Some acc \<Rightarrow>
             r\<lparr>tr_state := AList.update a
                 (acc\<lparr>acc_info := (acc_info acc)\<lparr>ai_balance := balance, ai_nonce := nonce\<rparr>\<rparr>) (tr_state r)\<rparr>
         | None \<Rightarrow>
             r\<lparr>tr_state := AList.update a
                 \<lparr>acc_info = \<lparr>ai_balance = balance, ai_nonce = nonce, ai_code_hash = code_hash, ai_code = Some code\<rparr>,
                  acc_touched = True, acc_selfdestructed = False, acc_storage = []\<rparr> (tr_state r)\<rparr>))"

fun evaluate_history ::
    "revm \<Rightarrow> evm_env \<Rightarrow> tx_env list \<Rightarrow> address \<Rightarrow> b256 \<Rightarrow> bytecode \<Rightarrow> (nat \<times> entry) list \<Rightarrow> u256 \<Rightarrow> u64
      \<Rightarrow> tx_execution_result list \<Rightarrow> (parallel_executor_error + tx_execution_result list) option" where
  "evaluate_history R env txs a code_hash code [] balance nonce results = Some (Inr results)"
| "evaluate_history R env txs a code_hash code ((tx_idx, entry) # history) balance nonce results =
     (let tx = txs ! tx_idx in
      case apply_entry tx entry balance nonce of
        None \<Rightarrow> None
      | Some (Inl e) \<Rightarrow> Some (Inl e)
      | Some (Inr (balance', nonce')) \<Rightarrow>
          (case check_executed_nonce a tx_idx tx nonce' of
             Some e \<Rightarrow> Some (Inl e)
           | None \<Rightarrow>
               evaluate_history R env txs a code_hash code history balance' nonce'
                 (results[tx_idx := put_evaluated R env a code_hash code balance' nonce' (results ! tx_idx)])))"

definition first_is_basic :: "(nat \<times> entry) list \<Rightarrow> bool" where
  "first_is_basic history = (case history of (_, Data _ (VBasic _)) # _ \<Rightarrow> True | _ \<Rightarrow> False)"

text \<open>The account the evaluation starts from: balance, nonce and code hash.\<close>

definition initial_account :: "revm \<Rightarrow> database_ref \<Rightarrow> address \<Rightarrow> (nat \<times> entry) list \<Rightarrow> u256 \<times> u64 \<times> b256" where
  "initial_account R D a history =
     (if first_is_basic history then (0, 0, KECCAK_EMPTY R)
      else case basic_ref D a of
             Inr (Some acc) \<Rightarrow> (ai_balance acc, ai_nonce acc, ai_code_hash acc)
           | _ \<Rightarrow> (0, 0, KECCAK_EMPTY R))"

definition evaluate_address ::
    "revm \<Rightarrow> database_ref \<Rightarrow> evm_env \<Rightarrow> tx_env list \<Rightarrow> mv_memory \<Rightarrow> address \<Rightarrow> tx_execution_result list
      \<Rightarrow> (parallel_executor_error + tx_execution_result list) option" where
  "evaluate_address R D env txs m a results =
     (case mv_data m (hash_location R (Basic a)) of
        None \<Rightarrow> Some (Inr results)
      | Some history \<Rightarrow>
          (case initial_account R D a history of
             (balance, nonce, code_hash) \<Rightarrow>
               (case code_by_hash_ref D code_hash of
                  Inl err \<Rightarrow> Some (Inl (PeStorageError err))
                | Inr code \<Rightarrow> evaluate_history R env txs a code_hash code history balance nonce results)))"

fun evaluate_addresses ::
    "revm \<Rightarrow> database_ref \<Rightarrow> evm_env \<Rightarrow> tx_env list \<Rightarrow> mv_memory \<Rightarrow> address list \<Rightarrow> tx_execution_result list
      \<Rightarrow> (parallel_executor_error + tx_execution_result list) option" where
  "evaluate_addresses R D env txs m [] results = Some (Inr results)"
| "evaluate_addresses R D env txs m (a # as) results =
     (case evaluate_address R D env txs m a results of
        Some (Inr results') \<Rightarrow> evaluate_addresses R D env txs m as results'
      | r \<Rightarrow> r)"

section \<open>Sequential execution\<close>

record 'c sequential =
  seq_transact :: "'c \<Rightarrow> evm_env \<Rightarrow> tx_env \<Rightarrow> ((string, invalid_transaction) evm_error + execution_result \<times> evm_state) \<times> 'c"
  seq_commit :: "evm_state \<Rightarrow> 'c \<Rightarrow> 'c"

fun sequential_loop ::
    "revm \<Rightarrow> 'c sequential \<Rightarrow> evm_env \<Rightarrow> tx_env list \<Rightarrow> 'c \<Rightarrow> u64 \<Rightarrow> parallel_executor_result" where
  "sequential_loop R Q env [] db cumulative_gas_used = Inr []"
| "sequential_loop R Q env (tx # txs) db cumulative_gas_used =
     (case tx_type_try_from R (te_tx_type tx) of
        Inl _ \<Rightarrow> Inl UnreachableError
      | Inr ty \<Rightarrow>
          (case seq_transact Q db env tx of
             (Inl err, _) \<Rightarrow> Inl (evm_err_to_exec_error err)
           | (Inr (result, state), db') \<Rightarrow>
               (case add_cumulative_gas (from_raw ty result state) cumulative_gas_used of
                  (cumulative_gas_used', r) \<Rightarrow>
                    (case sequential_loop R Q env txs (seq_commit Q state db') cumulative_gas_used' of
                       Inl e \<Rightarrow> Inl e
                     | Inr rs \<Rightarrow> Inr (r # rs)))))"

definition execute_sequential ::
    "revm \<Rightarrow> 'c sequential \<Rightarrow> 'c \<Rightarrow> evm_env \<Rightarrow> tx_env list \<Rightarrow> parallel_executor_result" where
  "execute_sequential R Q db env txs = sequential_loop R Q env txs db 0"

section \<open>The whole block\<close>

text \<open>
  \<open>execute\<close> from the join of the threads on: the executor with the results and the reason to
  abort they left, and the memory. Returns the result and the executor afterwards; the reason
  and the results are taken out of it.
\<close>

definition execute_joined ::
    "revm \<Rightarrow> database_ref \<Rightarrow> 'c sequential \<Rightarrow> 'c \<Rightarrow> evm_env \<Rightarrow> tx_env list \<Rightarrow> mv_memory \<Rightarrow> parallel_executor
      \<Rightarrow> (parallel_executor_result \<times> parallel_executor) option" where
  "execute_joined R D Q cache env txs m E =
     (let n = length txs; E' = E\<lparr>pe_abort_reason := None\<rparr> in
      case pe_abort_reason E of
        Some AbortFallbackToSequential \<Rightarrow> Some (execute_sequential R Q cache env txs, E')
      | Some (AbortExecutionError err) \<Rightarrow> Some (Inl (PeExecutionError err), E')
      | None \<Rightarrow>
          (case collect_results (take n (execution_results E)) 0 of
             None \<Rightarrow> None
           | Some results \<Rightarrow>
               map_option (\<lambda>r. (r, E'\<lparr>execution_results := replicate n None @ drop n (execution_results E)\<rparr>))
                 (evaluate_addresses R D env txs m (consume_lazy_addresses m) results)))"

text \<open>
  \<open>execute\<close>: the threads are the argument \<open>threads\<close>, from the scheduler, the memory and the
  executor before the block to the memory and the executor after it.
\<close>

definition pe_execute ::
    "revm \<Rightarrow> database_ref \<Rightarrow> 'c sequential \<Rightarrow> 'c \<Rightarrow> evm_env
      \<Rightarrow> (vm \<Rightarrow> scheduler \<Rightarrow> mv_memory \<Rightarrow> parallel_executor \<Rightarrow> mv_memory \<times> parallel_executor)
      \<Rightarrow> tx_env list \<Rightarrow> parallel_executor \<Rightarrow> (parallel_executor_result \<times> parallel_executor) option" where
  "pe_execute R D Q cache env threads txs E =
     (if txs = [] then Some (Inr [], E)
      else
        (case threads (vm_new R D env txs) (scheduler_new (length txs))
                (build_mv_memory (hash_location R) (ee_beneficiary env) txs) (reserve_results (length txs) E) of
           (m, E') \<Rightarrow> execute_joined R D Q cache env txs m E'))"

section \<open>Running totals of gas\<close>

abbreviation gas_of :: "tx_execution_result \<Rightarrow> nat" where
  "gas_of r \<equiv> unat (rc_cumulative_gas_used (tr_receipt r))"

abbreviation with_gas :: "u64 \<Rightarrow> tx_execution_result \<Rightarrow> tx_execution_result" where
  "with_gas g r \<equiv> r\<lparr>tr_receipt := (tr_receipt r)\<lparr>rc_cumulative_gas_used := g\<rparr>\<rparr>"

lemma min_sum_saturates: "min (min a m + b) m = min (a + b) (m::nat)"
  by simp

lemma collect_results_totals:
  assumes "collect_results (map Some rs) g = Some rs'"
  shows "length rs' = length rs \<and> (\<forall>i < length rs. \<exists>t. rs' ! i = with_gas t (rs ! i)
     \<and> unat t = min (unat g + (\<Sum>j\<le>i. gas_of (rs ! j))) (2 ^ 64 - 1))"
  using assms
proof (induction rs arbitrary: g rs')
  case (Cons r rs)
  define g' where "g' = saturating_add g (rc_cumulative_gas_used (tr_receipt r))"
  obtain rest where rest: "collect_results (map Some rs) g' = Some rest" and rs': "rs' = with_gas g' r # rest"
    using Cons.prems by (auto simp: add_cumulative_gas_def Let_def g'_def)
  have g': "unat g' = min (unat g + gas_of r) (2 ^ 64 - 1)" by (simp add: g'_def sat_simps)
  note IH = Cons.IH[OF rest]
  have "\<exists>t. rs' ! i = with_gas t ((r # rs) ! i) \<and> unat t = min (unat g + (\<Sum>j\<le>i. gas_of ((r # rs) ! j))) (2 ^ 64 - 1)"
    if i: "i < length (r # rs)" for i
  proof (cases i)
    case 0
    then show ?thesis using rs' g' by auto
  next
    case (Suc k)
    then obtain t where t: "rest ! k = with_gas t (rs ! k)"
        "unat t = min (unat g' + (\<Sum>j\<le>k. gas_of (rs ! j))) (2 ^ 64 - 1)"
      using IH i by auto
    have "(\<Sum>j\<le>Suc k. gas_of ((r # rs) ! j)) = gas_of r + (\<Sum>j\<le>k. gas_of (rs ! j))"
      by (subst sum.atMost_Suc_shift) simp
    then have "unat t = min (unat g + (\<Sum>j\<le>Suc k. gas_of ((r # rs) ! j))) (2 ^ 64 - 1)"
      using t(2) g' by simp
    then show ?thesis using t(1) rs' Suc by auto
  qed
  then show ?case using IH rs' by simp
qed simp

lemma collect_results_total: "\<exists>rs'. collect_results (map Some rs) g = Some rs'"
  by (induction rs arbitrary: g) (auto simp: add_cumulative_gas_def Let_def)

lemma collect_results_None: "collect_results rs g = None \<longleftrightarrow> None \<in> set rs"
  by (induction rs g rule: collect_results.induct) (auto simp: add_cumulative_gas_def Let_def)

text \<open>The results of a sequential run before the running totals are written into them.\<close>

fun raw_results :: "revm \<Rightarrow> 'c sequential \<Rightarrow> evm_env \<Rightarrow> tx_env list \<Rightarrow> 'c \<Rightarrow> tx_execution_result list \<Rightarrow> bool" where
  "raw_results R Q env [] db rs \<longleftrightarrow> rs = []"
| "raw_results R Q env (tx # txs) db rs \<longleftrightarrow>
     (case (tx_type_try_from R (te_tx_type tx), seq_transact Q db env tx, rs) of
        (Inr ty, (Inr (result, state), db'), r # rs') \<Rightarrow>
          r = from_raw ty result state \<and> raw_results R Q env txs (seq_commit Q state db') rs'
      | _ \<Rightarrow> False)"

lemma sequential_loop_raw:
  "sequential_loop R Q env txs db g = Inr rs \<longleftrightarrow>
     (\<exists>raw. raw_results R Q env txs db raw \<and> collect_results (map Some raw) g = Some rs)"
proof (induction R Q env txs db g arbitrary: rs rule: sequential_loop.induct)
  case (2 R Q env tx txs db g)
  show ?case
  proof (cases "tx_type_try_from R (te_tx_type tx)")
    case (Inr ty)
    obtain o1 db' where t: "seq_transact Q db env tx = (o1, db')" by force
    show ?thesis
    proof (cases o1)
      case o2: (Inr o2)
      obtain result state where o3: "o2 = (result, state)" by force
      let ?r = "from_raw ty result state"
      obtain g' r' where a: "add_cumulative_gas ?r g = (g', r')" by force
      note IH = "2.IH"[OF Inr t[symmetric] o2[unfolded o3] refl a[symmetric]]
      have raw: "raw_results R Q env (tx # txs) db raw \<longleftrightarrow>
          (\<exists>raw'. raw = ?r # raw' \<and> raw_results R Q env txs (seq_commit Q state db') raw')" for raw
        by (cases raw) (auto simp: Inr t o2 o3)
      have "sequential_loop R Q env (tx # txs) db g = Inr rs \<longleftrightarrow>
          (\<exists>rest. sequential_loop R Q env txs (seq_commit Q state db') g' = Inr rest \<and> rs = r' # rest)"
        by (auto simp: Inr t o2 o3 a split: sum.split)
      also have "\<dots> \<longleftrightarrow> (\<exists>raw. raw_results R Q env (tx # txs) db raw \<and> collect_results (map Some raw) g = Some rs)"
        unfolding IH raw by (auto simp: a) blast
      finally show ?thesis .
    qed (simp add: Inr t)
  qed simp
qed auto

text \<open>Two transactions that use almost all gas a counter can hold.\<close>

definition sample_sequential :: "nat sequential" where
  "sample_sequential = \<lparr>seq_transact = (\<lambda>db env tx. (Inr (\<lparr>er_success = True, er_gas_used = - 2, er_logs = []\<rparr>, []), db)),
     seq_commit = (\<lambda>state db. db + 1)\<rparr>"

lemma sample_sequential_run:
  "execute_sequential sample_R sample_sequential 0 sample_env [sample_tx 0, sample_tx 1] =
     Inr [\<lparr>tr_receipt = \<lparr>rc_tx_type = 0, rc_success = True, rc_cumulative_gas_used = - 2, rc_logs = []\<rparr>, tr_state = []\<rparr>,
          \<lparr>tr_receipt = \<lparr>rc_tx_type = 0, rc_success = True, rc_cumulative_gas_used = - 1, rc_logs = []\<rparr>, tr_state = []\<rparr>]"
  by (simp add: execute_sequential_def sample_sequential_def sample_R_def sample_tx_def add_cumulative_gas_def
      from_raw_def saturating_add_def Let_def)

section \<open>Properties\<close>

lemma attempt_keeps_reason:
  "pe_abort_reason E = Some reason \<Longrightarrow> try_execute_attempt v r E s = (a, E', s') \<Longrightarrow> pe_abort_reason E' = Some reason"
  by (auto simp: try_execute_attempt_def set_abort_reason_def split: sum.splits vm_execution_error.splits prod.splits)

text \<open>The executions other threads finish later, in any order.\<close>

definition later_attempts ::
    "(tx_version \<times> (vm_execution_error + vm_execution_result)) list \<Rightarrow> parallel_executor \<times> scheduler
      \<Rightarrow> parallel_executor \<times> scheduler" where
  "later_attempts = fold (\<lambda>(v, r) (E, s). snd (try_execute_attempt v r E s))"

lemma later_attempts_keep_reason:
  "pe_abort_reason E = Some reason \<Longrightarrow> pe_abort_reason (fst (later_attempts later (E, s))) = Some reason"
proof (induction later arbitrary: E s)
  case (Cons p later)
  obtain v r where p: "p = (v, r)" by force
  obtain a E' s' where t: "try_execute_attempt v r E s = (a, E', s')" using prod_cases3 by blast
  show ?case using Cons.IH[OF attempt_keeps_reason[OF Cons.prems t], of s'] by (simp add: later_attempts_def p t)
qed (simp add: later_attempts_def)

lemma attempt_blocked_on_done:
  assumes "b < length (tx_statuses s)" "is_done (st_of s b)" "pe_abort_reason E = None"
  shows "try_execute_attempt v (Inl (VmBlocking b)) E s = (Again, E, s)"
  using assms by (simp add: try_execute_attempt_def add_dependency_def Let_def)

text \<open>C17 (first_fatal_error_is_returned). When an execution fails with an error that cannot be retried, the worker returns no task,
  the scheduler is aborted so that no thread gets another task, and the block fails with this
  error, whatever the executions running at the same time return later.\<close>
theorem first_fatal_error_is_returned:
  assumes "pe_abort_reason E = None"
    and "try_execute_attempt v (Inl (VmExecutionError err)) E s = (a, E1, s1)"
    and "later_attempts later (E1, s1) = (E2, s2)"
  shows "a = Return_task None \<and> aborted s1
    \<and> (\<exists>E3. execute_joined R D Q cache env txs m E2 = Some (Inl (PeExecutionError err), E3) \<and> pe_abort_reason E3 = None)"
proof -
  have 1: "a = Return_task None" "aborted s1" "pe_abort_reason E1 = Some (AbortExecutionError err)"
    using assms(1,2) by (auto simp: try_execute_attempt_def set_abort_reason_def sched_abort_def)
  have "pe_abort_reason E2 = Some (AbortExecutionError err)"
    using later_attempts_keep_reason[OF 1(3), of later s1] assms(3) by simp
  then show ?thesis using 1 by (simp add: execute_joined_def Let_def)
qed

lemma first_fatal_error_is_returned_witness:
  "aborted (sched_abort (scheduler_new 2)) \<and>
   (\<exists>E3. execute_joined sample_R sample_D sample_sequential 0 sample_env [sample_tx 0, sample_tx 1] sample_m0
      \<lparr>execution_results = [None, None], pe_abort_reason = Some (AbortExecutionError (ECustom ''x''))\<rparr>
      = Some (Inl (PeExecutionError (ECustom ''x'')), E3) \<and> pe_abort_reason E3 = None)"
proof -
  let ?E = "\<lparr>execution_results = [None, None], pe_abort_reason = None\<rparr>"
  let ?E1 = "\<lparr>execution_results = [None, None], pe_abort_reason = Some (AbortExecutionError (ECustom ''x''))\<rparr>"
  have t: "try_execute_attempt \<lparr>tv_idx = 0, tv_incarnation = 0\<rparr> (Inl (VmExecutionError (ECustom ''x''))) ?E (scheduler_new 2)
      = (Return_task None, ?E1, sched_abort (scheduler_new 2))"
    by (simp add: try_execute_attempt_def set_abort_reason_def)
  have l: "later_attempts [(\<lparr>tv_idx = 1, tv_incarnation = 0\<rparr>, Inl VmFallbackToSequential)] (?E1, sched_abort (scheduler_new 2))
      = (?E1, sched_abort (sched_abort (scheduler_new 2)))"
    by (simp add: later_attempts_def try_execute_attempt_def set_abort_reason_def)
  show ?thesis using first_fatal_error_is_returned[OF _ t l] by simp
qed

text \<open>C20 (nonce_gap_never_returns). A transaction after the first whose nonce stays too high, although the transaction before it
  has been executed, is retried for ever: the virtual machine reports that it waits for its
  predecessor, the predecessor is not waited for because it is done, and the loop starts again
  in the same state. Only the failure of another transaction ends it.\<close>
theorem nonce_gap_never_returns:
  assumes "0 < tv_idx v" "tv_idx v < length (tx_statuses s)" "is_done (st_of s (tv_idx v - 1))" "pe_abort_reason E = None"
  shows "try_execute_loop fuel (\<lambda>_. Inl (execution_failed (tv_idx v) (ETransaction (InvNonceTooHigh tx_nonce state_nonce)))) v E s = None"
proof -
  have "execution_failed (tv_idx v) (ETransaction (InvNonceTooHigh tx_nonce state_nonce)) = VmBlocking (tv_idx v - 1)"
    using assms(1) by (simp add: execution_failed_def)
  moreover have "try_execute_loop fuel (\<lambda>_. Inl (VmBlocking (tv_idx v - 1))) v E s = None"
    using attempt_blocked_on_done[of "tv_idx v - 1"] assms by (induction fuel) simp_all
  ultimately show ?thesis by simp
qed

lemma nonce_gap_never_returns_witness:
  "try_execute_loop 1000 (\<lambda>_. Inl (VmBlocking 0)) \<lparr>tv_idx = 1, tv_incarnation = 0\<rparr> parallel_executor_default
     (set_tx_status 1 Executing (set_tx_status 0 Executed (scheduler_new 2))) = None"
  using nonce_gap_never_returns[of "\<lparr>tv_idx = 1, tv_incarnation = 0\<rparr>"
      "set_tx_status 1 Executing (set_tx_status 0 Executed (scheduler_new 2))" parallel_executor_default 1000 5 3]
  by (simp add: scheduler_new_def set_tx_status_def tx_at_def index_mutex_def execution_failed_def
      parallel_executor_default_def numeral_2_eq_2)

text \<open>C21 (gas_totals_are_prefix_sums). A sequential execution that succeeds returns one result per transaction: the result of the
  virtual machine on the state its predecessors committed, with the gas in its receipt replaced
  by the sum of the gas of all transactions up to it, which stops at the largest 64-bit number
  instead of wrapping. The parallel executor uses the same running total.\<close>
theorem gas_totals_are_prefix_sums:
  assumes "execute_sequential R Q db env txs = Inr rs"
  shows "\<exists>raw. raw_results R Q env txs db raw \<and> collect_results (map Some raw) 0 = Some rs
    \<and> length rs = length raw
    \<and> (\<forall>i < length rs. \<exists>t. rs ! i = with_gas t (raw ! i)
         \<and> unat t = min (\<Sum>j\<le>i. gas_of (raw ! j)) (2 ^ 64 - 1))"
proof -
  obtain raw where raw: "raw_results R Q env txs db raw" and c: "collect_results (map Some raw) 0 = Some rs"
    using assms by (auto simp: execute_sequential_def sequential_loop_raw)
  show ?thesis using collect_results_totals[OF c] raw c by auto
qed

lemma gas_totals_are_prefix_sums_witness:
  "\<exists>raw. raw_results sample_R sample_sequential sample_env [sample_tx 0, sample_tx 1] 0 raw \<and> length raw = 2"
  using gas_totals_are_prefix_sums[OF sample_sequential_run] by auto

end
