(* ===== verification/Lazy_Evaluation.thy ===== *)
theory Lazy_Evaluation
  imports Executor Serial_Equivalence
begin

text \<open>
  Raw transfers and rewards are recorded as lazy updates, additions and subtractions without a
  balance. They are evaluated in two places: \<open>VmDB::basic\<close> walks down from the reader and sums
  the updates with \<open>I257\<close> until it finds an account, and \<open>execute\<close> walks up from the storage
  after the block with saturating arithmetic. The lemmas show that both give the same balance
  and nonce as long as the upward evaluation does not saturate.
\<close>

section \<open>Upward evaluation without saturation\<close>

fun exact_entry :: "entry \<Rightarrow> u256 \<Rightarrow> bool" where
  "exact_entry (Data _ (LazyRecipient addition)) balance \<longleftrightarrow> uint balance + uint addition \<le> i257_max"
| "exact_entry (Data _ (LazySender subtraction)) balance \<longleftrightarrow> subtraction \<le> balance"
| "exact_entry _ balance \<longleftrightarrow> True"

definition exact_step :: "tx_env list \<Rightarrow> nat \<times> entry \<Rightarrow> (u256 \<times> u64) option \<Rightarrow> (u256 \<times> u64) option" where
  "exact_step txs ie acc =
     (case acc of
        None \<Rightarrow> None
      | Some (balance, nonce) \<Rightarrow>
          (case apply_entry (txs ! fst ie) (snd ie) balance nonce of
             Some (Inr bn) \<Rightarrow> if exact_entry (snd ie) balance then Some bn else None
           | _ \<Rightarrow> None))"

definition exact_history :: "tx_env list \<Rightarrow> (nat \<times> entry) list \<Rightarrow> u256 \<times> u64 \<Rightarrow> (u256 \<times> u64) option" where
  "exact_history txs hist start = fold (exact_step txs) hist (Some start)"

lemma exact_history_snoc:
  "exact_history txs (hist @ [ie]) start = exact_step txs ie (exact_history txs hist start)"
  by (simp add: exact_history_def)

lemma exact_stepE:
  assumes "exact_step txs ie acc = Some (b, n)"
  obtains b0 n0 inc info where "acc = Some (b0, n0)" "snd ie = Data inc (VBasic info)" "b = ai_balance info" "n = ai_nonce info"
  | b0 inc a where "acc = Some (b0, n)" "snd ie = Data inc (LazyRecipient a)" "uint b = uint b0 + uint a"
  | b0 n0 inc s where "acc = Some (b0, n0)" "snd ie = Data inc (LazySender s)" "uint b = uint b0 - uint s" "n = n0 + 1"
proof -
  obtain b0 n0 where acc: "acc = Some (b0, n0)" using assms by (auto simp: exact_step_def split: option.splits)
  obtain inc val where e: "snd ie = Data inc val" using assms acc
    by (cases "snd ie") (auto simp: exact_step_def)
  show thesis
  proof (cases val)
    case (VBasic info)
    then show thesis using that(1) assms acc e by (auto simp: exact_step_def)
  next
    case (LazyRecipient a)
    then have "uint b0 + uint a \<le> i257_max" "b = saturating_add b0 a" "n = n0"
      using assms acc e by (auto simp: exact_step_def split: if_splits)
    then have "uint b = uint b0 + uint a"
      by (simp add: uint_saturating_add)
    then show thesis using that(2) acc e LazyRecipient \<open>n = n0\<close> by blast
  next
    case (LazySender s)
    then have "s \<le> b0" "b = saturating_sub b0 s" "n = n0 + 1"
      using assms acc e by (auto simp: exact_step_def split: if_splits)
    then have "uint b = uint b0 - uint s" by (simp add: saturating_sub_def uint_diff)
    then show thesis using that(3) acc e LazySender \<open>n = n0 + 1\<close> by blast
  qed (use assms acc e in \<open>auto simp: exact_step_def\<close>)
qed

section \<open>The downward walk\<close>

definition walk_spec ::
    "u256 \<Rightarrow> u64 \<Rightarrow> (nat \<times> entry) list \<Rightarrow> int \<Rightarrow> u64 \<Rightarrow> account_info option \<Rightarrow> i257 \<Rightarrow> u64 \<Rightarrow> bool" where
  "walk_spec b0 n0 hist balance nonce acc bal non \<longleftrightarrow>
     (case acc of
        None \<Rightarrow> i257_int bal + uint b0 = balance \<and> n0 + non = nonce
          \<and> (\<forall>ie \<in> set hist. \<forall>inc info. snd ie \<noteq> Data inc (VBasic info))
      | Some info \<Rightarrow> i257_int bal + uint (ai_balance info) = balance \<and> ai_nonce info + non = nonce)"

lemma walk_spec_snoc:
  "walk_spec b0 n0 hist balance nonce acc bal non \<Longrightarrow> \<forall>inc info. snd ie \<noteq> Data inc (VBasic info) \<Longrightarrow>
   walk_spec b0 n0 (hist @ [ie]) balance nonce acc bal non"
  by (auto simp: walk_spec_def split: option.splits)

lemma walk_evaluates:
  assumes "exact_history txs hist (b0, n0) = Some (b, n)"
    and "0 \<le> i257_int bal + uint b" "i257_int bal + uint b \<le> i257_max"
  shows "\<exists>acc new' bal' non'. basic_walk [] (rev hist) new bal non = Inr (acc, new', bal', non')
    \<and> walk_spec b0 n0 hist (i257_int bal + uint b) (n + non) acc bal' non'"
  using assms
proof (induction hist arbitrary: b n bal non new rule: rev_induct)
  case Nil
  then show ?case by (simp add: exact_history_def walk_spec_def)
next
  case (snoc ie hist)
  obtain i e where ie: "ie = (i, e)" by force
  have range: "0 \<le> uint x" "uint x \<le> i257_max" for x :: u256 using uint_i257_max by simp_all
  from snoc.prems(1)[unfolded exact_history_snoc] show ?case
  proof (cases rule: exact_stepE)
    case (1 b1 n1 inc info)
    then show ?thesis by (simp add: ie Let_def walk_spec_def)
  next
    case (2 b1 inc a)
    let ?bal = "i257_add bal (i257_from a)" and ?new = "new @ [OriginMvMemory \<lparr>tv_idx = i, tv_incarnation = inc\<rparr>]"
    have "i257_int ?bal = i257_int bal + uint a"
      unfolding i257_add_int i257_from_int by (rule i257_clamp_id) (use snoc.prems(2,3) 2(3) range[of b1] in linarith)+
    then have s: "i257_int ?bal + uint b1 = i257_int bal + uint b" using 2(3) by simp
    from snoc.IH[OF 2(1), of ?bal ?new non, unfolded s, OF snoc.prems(2,3)]
    show ?thesis using walk_spec_snoc 2(2) by (fastforce simp: ie Let_def)
  next
    case (3 b1 n1 inc s)
    let ?bal = "i257_sub bal (i257_from s)" and ?new = "new @ [OriginMvMemory \<lparr>tv_idx = i, tv_incarnation = inc\<rparr>]"
    have "i257_int ?bal = i257_int bal - uint s"
      unfolding i257_sub_int i257_from_int by (rule i257_clamp_id) (use snoc.prems(2,3) 3(3) range[of b1] in linarith)+
    then have s: "i257_int ?bal + uint b1 = i257_int bal + uint b" "n1 + (non + 1) = n + non" using 3(3,4) by simp_all
    from snoc.IH[OF 3(1), of ?bal ?new "non + 1", unfolded s, OF snoc.prems(2,3)]
    show ?thesis using walk_spec_snoc 3(2) by (fastforce simp: ie Let_def)
  qed
qed

section \<open>The account of a reader\<close>

text \<open>The first read of an account by a transaction that is not lazy.\<close>

lemma vmdb_basic_evaluates:
  assumes r: "vmdb_basic R D m m1 m2 a db = (Inr (Some info), db')"
    and lz: "\<not> is_lazy db" and first: "origins_at db (hash_basic R a db) = []"
    and hist: "hist = rev (bt_below (db_tx_idx db) (entries_of (mv_data m) (hash_basic R a db)))"
    and ex: "exact_history txs hist (b0, n0) = Some (b, n)"
    and init: "initial_account R D a hist = (b0, n0, ch)"
    and dflt: "ai_balance (account_info_default R) = 0" "ai_nonce (account_info_default R) = 0"
  shows "ai_balance info = b \<and> ai_nonce info = n"
proof -
  let ?loc = "hash_basic R a db"
  let ?db = "put_origins ?loc [] db"
  have it: "(if db_tx_idx ?db > 0 then bt_below (db_tx_idx ?db) (entries_of (mv_data m) ?loc) else []) = rev hist"
    by (simp add: hist put_origins_def)
  have range: "0 \<le> uint x" "uint x \<le> i257_max" for x :: u256 using uint_i257_max by simp_all
  obtain acc new' bal' non' where w: "basic_walk [] (rev hist) [] i257_NEGATIVE_ZERO 0 = Inr (acc, new', bal', non')"
    and spec: "walk_spec b0 n0 hist (uint b) n acc bal' non'"
    using walk_evaluates[OF ex, of i257_NEGATIVE_ZERO "[]" 0] range by auto
  have finish: "ai_balance info = b \<and> ai_nonce info = n"
    if f: "basic_finish R D m1 m2 a ?loc bal' non' acc1 db1 = (Inr (Some info), db')"
      and sum: "i257_int bal' + uint (ai_balance acc1) = uint b" "ai_nonce acc1 + non' = n" for acc1 db1
  proof -
    have "ai_balance info = abs_value (i257_add bal' (i257_from (ai_balance acc1)))" "ai_nonce info = ai_nonce acc1 + non'"
      using f by (auto simp: basic_finish_def Let_def split: option.splits sum.splits prod.splits if_splits)
    moreover have "i257_int (i257_add bal' (i257_from (ai_balance acc1))) = uint b"
      unfolding i257_add_int i257_from_int sum(1) by (rule i257_clamp_id) (use range[of b] in linarith)+
    ultimately have "uint (ai_balance info) = uint b" using i257_abs_value_int range by simp
    then show ?thesis using sum(2) \<open>ai_nonce info = ai_nonce acc1 + non'\<close> by (simp add: word_uint_eq_iff)
  qed
  show ?thesis
  proof (cases acc)
    case (Some acc1)
    have "basic_finish R D m1 m2 a ?loc bal' non' acc1 (put_origins ?loc new' ?db) = (Inr (Some info), db')"
      using r lz unfolding vmdb_basic_def Let_def first it w Some by simp
    then show ?thesis using finish spec Some by (simp add: walk_spec_def)
  next
    case None
    have nb: "\<not> first_is_basic hist"
      using spec None by (auto simp: walk_spec_def first_is_basic_def split: list.splits prod.splits entry.splits location_value.splits)
    show ?thesis
    proof (cases "basic_ref D a")
      case (Inr st)
      show ?thesis
      proof (cases st)
        case (Some acc1)
        have "basic_finish R D m1 m2 a ?loc bal' non' acc1 (put_origins ?loc (new' @ [OriginStorage]) ?db) = (Inr (Some info), db')"
          using r lz unfolding vmdb_basic_def Let_def first it w None by (simp add: basic_fallback_def Inr Some)
        moreover have "b0 = ai_balance acc1" "n0 = ai_nonce acc1" using init nb by (simp_all add: initial_account_def Inr Some)
        ultimately show ?thesis using finish spec None by (simp add: walk_spec_def)
      next
        case none: None
        have "basic_finish R D m1 m2 a ?loc bal' non' (account_info_default R) (put_origins ?loc (new' @ [OriginStorage]) ?db)
            = (Inr (Some info), db')"
          using r lz unfolding vmdb_basic_def Let_def first it w None by (simp add: basic_fallback_def Inr none split: if_splits)
        moreover have "b0 = 0" "n0 = 0" using init nb by (simp_all add: initial_account_def Inr none)
        ultimately show ?thesis using finish spec None dflt by (simp add: walk_spec_def)
      qed
    next
      case (Inl err)
      then show ?thesis using r lz unfolding vmdb_basic_def Let_def first it w None by (simp add: basic_fallback_def)
    qed
  qed
qed

section \<open>The accounts in the results\<close>

lemma exact_history_Cons:
  "exact_history txs (ie # hist) start =
     (case exact_step txs ie (Some start) of None \<Rightarrow> None | Some s \<Rightarrow> exact_history txs hist s)"
proof -
  have "fold (exact_step txs) hist None = None" by (induction hist) (simp_all add: exact_step_def)
  then show ?thesis by (simp add: exact_history_def split: option.split)
qed

lemma evaluate_history_other:
  "evaluate_history R env txs a ch code hist b n res = Some (Inr res') \<Longrightarrow>
   length res' = length res \<and> (j \<notin> fst ` set hist \<longrightarrow> res' ! j = res ! j)"
  by (induction R env txs a ch code hist b n res rule: evaluate_history.induct)
    (auto simp: Let_def split: option.splits sum.splits)

lemma evaluate_history_append:
  assumes "exact_history txs pre (b0, n0) = Some (b, n)"
    and "evaluate_history R env txs a ch code (pre @ post) b0 n0 res = Some (Inr res')"
  shows "\<exists>res1. evaluate_history R env txs a ch code pre b0 n0 res = Some (Inr res1)
    \<and> evaluate_history R env txs a ch code post b n res1 = Some (Inr res')"
  using assms
proof (induction pre arbitrary: b0 n0 res)
  case Nil
  then show ?case by (simp add: exact_history_def)
next
  case (Cons ie pre)
  obtain i e where ie: "ie = (i, e)" by force
  obtain b1 n1 where s: "apply_entry (txs ! i) e b0 n0 = Some (Inr (b1, n1))" and h: "exact_history txs pre (b1, n1) = Some (b, n)"
    using Cons.prems(1) by (auto simp: exact_history_Cons exact_step_def ie split: option.splits sum.splits if_splits)
  show ?case using Cons.IH[OF h] Cons.prems(2) by (auto simp: ie s Let_def split: option.splits)
qed

text \<open>
  The account is reported for the last transaction of a part of the history with the balance and
  nonce of that part.
\<close>

lemma evaluate_history_reports:
  assumes ex: "exact_history txs (pre @ [(k, e)]) (b0, n0) = Some (b, n)"
    and ev: "evaluate_history R env txs a ch code ((pre @ [(k, e)]) @ post) b0 n0 res = Some (Inr res')"
    and k: "k < length res" "k \<notin> fst ` set post"
  shows "\<exists>r. res' ! k = put_evaluated R env a ch code b n r"
proof -
  obtain b1 n1 where ex1: "exact_history txs pre (b0, n0) = Some (b1, n1)"
    and s: "exact_step txs (k, e) (Some (b1, n1)) = Some (b, n)"
    using ex unfolding exact_history_snoc by (cases "exact_history txs pre (b0, n0)") (auto simp: exact_step_def)
  have a: "apply_entry (txs ! k) e b1 n1 = Some (Inr (b, n))"
    using s by (auto simp: exact_step_def split: option.splits sum.splits if_splits)
  obtain res1 where r1: "evaluate_history R env txs a ch code pre b0 n0 res = Some (Inr res1)"
    and ev1: "evaluate_history R env txs a ch code ((k, e) # post) b1 n1 res1 = Some (Inr res')"
    using evaluate_history_append[OF ex1, of R env a ch code "(k, e) # post" res res'] ev by auto
  have len: "length res1 = length res" using evaluate_history_other[OF r1] by simp
  have "evaluate_history R env txs a ch code post b n (res1[k := put_evaluated R env a ch code b n (res1 ! k)]) = Some (Inr res')"
    using ev1 a by (auto simp: Let_def split: option.splits)
  then show ?thesis using evaluate_history_other[of R env txs a ch code post b n _ res' k] k len by auto
qed

lemma put_evaluated_account:
  "map_of (tr_state (put_evaluated R env a ch code b n r)) a = Some acc \<Longrightarrow>
   \<not> (ee_spurious_dragon env \<and> ch = KECCAK_EMPTY R \<and> n = 0 \<and> b = 0) \<Longrightarrow>
   ai_balance (acc_info acc) = b \<and> ai_nonce (acc_info acc) = n"
  by (auto simp: put_evaluated_def update_conv' split: option.splits)

lemma put_evaluated_present:
  "\<not> (ee_spurious_dragon env \<and> ch = KECCAK_EMPTY R \<and> n = 0 \<and> b = 0) \<Longrightarrow>
   \<exists>acc. map_of (tr_state (put_evaluated R env a ch code b n r)) a = Some acc"
  by (auto simp: put_evaluated_def update_conv' split: option.splits)

lemma bt_range_prefix: "bt_sorted t \<Longrightarrow> t = bt_range k t @ filter (\<lambda>p. \<not> fst p < k) t"
proof (induction t)
  case (Cons p t)
  have t: "bt_sorted t" "\<forall>q \<in> set t. fst p < fst q" using Cons.prems by (simp_all add: bt_sorted_def)
  show ?case
  proof (cases "fst p < k")
    case True
    then show ?thesis using Cons.IH[OF t(1)] by (simp add: bt_range_def)
  next
    case False
    then have "\<forall>q \<in> set t. \<not> fst q < k" using t(2) by (meson less_trans)
    then show ?thesis using False by (simp add: bt_range_def filter_empty_conv filter_id_conv)
  qed
qed (simp add: bt_range_def)

section \<open>Properties\<close>

text \<open>C14 (lazy_read_is_reported). What a transaction reads of an account that earlier transactions have updated lazily is what
  the block reports for it: the balance and nonce \<open>VmDB::basic\<close> computes by summing the updates
  downwards equal those that \<open>execute\<close> computes upwards after the block and writes into the
  result of the closest earlier writer, as long as the upward evaluation does not saturate and
  the account is not an empty one that is left out.\<close>
theorem lazy_read_is_reported:
  assumes "data_sorted (mv_data m)" and "hash_basic R a db = hash_location R (Basic a)"
    and "evaluate_address R D env txs m a results = Some (Inr results')"
    and "\<forall>(j, e) \<in> set (entries_of (mv_data m) (hash_location R (Basic a))). j < length results"
    and "vmdb_basic R D m m1 m2 a db = (Inr (Some info), db')"
    and "\<not> is_lazy db" and "origins_at db (hash_location R (Basic a)) = []"
    and "bt_below (db_tx_idx db) (entries_of (mv_data m) (hash_location R (Basic a))) = (k, e) # lower"
    and "initial_account R D a (rev ((k, e) # lower)) = (balance, nonce, ch)"
    and "exact_history txs (rev ((k, e) # lower)) (balance, nonce) \<noteq> None"
    and "ai_balance (account_info_default R) = 0" "ai_nonce (account_info_default R) = 0"
    and "\<not> (ee_spurious_dragon env \<and> ai_balance info = 0 \<and> ai_nonce info = 0)"
  shows "\<exists>acc. map_of (tr_state (results' ! k)) a = Some acc
    \<and> ai_balance (acc_info acc) = ai_balance info \<and> ai_nonce (acc_info acc) = ai_nonce info"
proof -
  let ?loc = "hash_location R (Basic a)"
  obtain b n where ex: "exact_history txs (rev ((k, e) # lower)) (balance, nonce) = Some (b, n)"
    using assms(10) by auto
  have bn: "ai_balance info = b \<and> ai_nonce info = n"
    by (rule vmdb_basic_evaluates[OF assms(5,6) _ _ ex]) (use assms in \<open>simp_all del: rev.simps\<close>)
  define t where "t = entries_of (mv_data m) ?loc"
  have srt: "bt_sorted t" using assms(1) by (simp add: t_def data_sorted_entries)
  obtain post where t: "t = rev ((k, e) # lower) @ post" "post = filter (\<lambda>p. \<not> fst p < db_tx_idx db) t"
    using bt_range_prefix[OF srt, of "db_tx_idx db"] assms(8) by (simp add: bt_below_def t_def flip: rev_swap)
  have "mv_data m ?loc = Some t"
    using t by (auto simp: t_def entries_of_def split: option.splits)
  moreover have "initial_account R D a t = (balance, nonce, ch)"
    using assms(9) unfolding t(1) by (cases "rev lower") (simp_all add: initial_account_def first_is_basic_def)
  ultimately obtain code where ev: "evaluate_history R env txs a ch code ((rev lower @ [(k, e)]) @ post) balance nonce results = Some (Inr results')"
    using assms(3) t(1) by (auto simp: evaluate_address_def split: sum.splits)
  have "k < db_tx_idx db" using assms(8) set_bt_below[OF srt, of k e "db_tx_idx db"] by (simp add: t_def)
  moreover have "(k, e) \<in> set t" using t(1) by simp
  ultimately have k: "k < length results" "k \<notin> fst ` set post" using assms(4) t(2) by (auto simp: t_def)
  obtain r where r: "results' ! k = put_evaluated R env a ch code b n r"
    using evaluate_history_reports[OF _ ev k] ex by auto
  have "\<not> (ee_spurious_dragon env \<and> ch = KECCAK_EMPTY R \<and> n = 0 \<and> b = 0)" using assms(13) bn by auto
  from put_evaluated_present[OF this] put_evaluated_account[OF _ this] show ?thesis unfolding r using bn by blast
qed

definition sample_reader :: vmdb where
  "sample_reader = (sample_db 0)\<lparr>db_tx_idx := 2\<rparr>"

definition sample_block_results :: "tx_execution_result list" where
  "sample_block_results = [from_raw 0 sample_result [(5, sample_account)], from_raw 0 sample_result []]"

lemma sample_entries: "entries_of (mv_data sample_m2) 36 = [(0, Data 0 (LazyRecipient 6)), (1, Data 0 (LazyRecipient 6))]"
  by (simp add: entries_of_def sample_m2_state)

lemma lazy_read_is_reported_witness:
  "\<exists>results'. evaluate_address sample_R sample_D sample_env [sample_tx 0, sample_tx 1] sample_m2 9 sample_block_results
      = Some (Inr results')
    \<and> (\<exists>acc. map_of (tr_state (results' ! 1)) 9 = Some acc \<and> ai_balance (acc_info acc) = 12)"
proof -
  let ?txs = "[sample_tx 0, sample_tx 1]"
  have h: "hash_location sample_R (Basic 9) = 36" by (simp add: sample_R_def)
  have hb: "hash_basic sample_R 9 sample_reader = hash_location sample_R (Basic 9)"
    by (simp add: hash_basic_def sample_reader_def sample_block_simps)
  have below: "bt_below (db_tx_idx sample_reader) (entries_of (mv_data sample_m2) (hash_location sample_R (Basic 9)))
      = (1, Data 0 (LazyRecipient 6)) # [(0, Data 0 (LazyRecipient 6))]"
    by (simp add: h sample_entries sample_reader_def bt_below_def bt_range_def)
  have init: "initial_account sample_R sample_D 9 (rev ((1, Data 0 (LazyRecipient 6)) # [(0, Data 0 (LazyRecipient 6))])) = (0, 0, 0)"
    by (simp add: initial_account_def first_is_basic_def sample_D_def sample_R_def)
  have ex: "exact_history ?txs (rev ((1, Data 0 (LazyRecipient 6)) # [(0, Data 0 (LazyRecipient 6))])) (0, 0) \<noteq> None"
    by (simp add: exact_history_def exact_step_def saturating_add_def i257_max_def)
  obtain results' where ev: "evaluate_address sample_R sample_D sample_env ?txs sample_m2 9 sample_block_results = Some (Inr results')"
    by (simp add: evaluate_address_def sample_m2_state initial_account_def first_is_basic_def sample_block_simps
        check_executed_nonce_def Let_def)
  obtain db' where r: "vmdb_basic sample_R sample_D sample_m2 sample_m2 sample_m2 9 sample_reader =
      (Inr (Some \<lparr>ai_balance = 12, ai_nonce = 0, ai_code_hash = 0, ai_code = Some []\<rparr>), db')"
  proof -
    have w: "basic_walk [] [(1, Data 0 (LazyRecipient 6)), (0, Data 0 (LazyRecipient 6))] [] i257_NEGATIVE_ZERO 0 =
        Inr (None, [OriginMvMemory \<lparr>tv_idx = 1, tv_incarnation = 0\<rparr>, OriginMvMemory \<lparr>tv_idx = 0, tv_incarnation = 0\<rparr>],
             \<lparr>i257_value = 12, is_negative = False\<rparr>, 0)"
      by (simp add: Let_def i257_defs i257_add_def saturating_add_def)
    have d: "sample_reader = \<lparr>db_tx_idx = 2, db_tx = sample_tx 0, from_hash = 4, to_hash = None, to_code_hash = None,
        is_lazy = False, db_read_set = [], read_accounts = Map.empty\<rparr>"
      by (simp add: sample_reader_def sample_db_def)
    have o: "origins_at sample_reader 36 = []" by (simp add: d origins_at_def)
    have it: "(if db_tx_idx (put_origins 36 [] sample_reader) > 0
          then bt_below (db_tx_idx (put_origins 36 [] sample_reader)) (entries_of (mv_data sample_m2) 36) else [])
        = [(1, Data 0 (LazyRecipient 6)), (0, Data 0 (LazyRecipient 6))]"
      using below h by (simp add: sample_reader_def put_origins_def)
    have c: "closest sample_m2 37 2 = None" by (simp add: closest_def sample_m2_state)
    have "fst (vmdb_basic sample_R sample_D sample_m2 sample_m2 sample_m2 9 sample_reader) =
        Inr (Some \<lparr>ai_balance = 12, ai_nonce = 0, ai_code_hash = 0, ai_code = Some []\<rparr>)"
      unfolding vmdb_basic_def Let_def hb h o it w
      by (simp add: d basic_fallback_def basic_finish_def get_code_hash_def Let_def push_origin_def origins_at_def
          put_origins_def c storage_code_hash_def lookup_code_def i257_defs i257_add_def saturating_add_def
          sample_R_def sample_D_def)
    then show thesis using that prod.collapse by metis
  qed
  have "\<not> is_lazy sample_reader" "origins_at sample_reader (hash_location sample_R (Basic 9)) = []"
      "ai_balance (account_info_default sample_R) = 0" "ai_nonce (account_info_default sample_R) = 0"
      "data_sorted (mv_data sample_m2)" "\<not> ee_spurious_dragon sample_env"
      "\<forall>(j, e) \<in> set (entries_of (mv_data sample_m2) (hash_location sample_R (Basic 9))). j < length sample_block_results"
    using mv_invD(1)[OF sample_mem_inv(5)]
    by (simp_all add: sample_reader_def sample_db_def origins_at_def sample_R_def sample_env_def sample_entries sample_block_results_def)
  then show ?thesis
    using lazy_read_is_reported[OF _ hb ev _ r _ _ below init ex] ev by auto
qed

end
