(* ===== verification/Vm_Soundness.thy ===== *)
theory Vm_Soundness
  imports Serial_Equivalence
begin

text \<open>
  What one call of \<open>Vm::execute\<close> (\<open>crates/pe/src/vm.rs\<close>) can give when it runs among others.
  A blocked execution waits for a lower transaction, an execution that is retried or blocked
  leaves the memory as it was, and a successful one has recorded its reads and writes and
  published only bytecodes that belong to their hashes.

  The virtual machine is a parameter. \<open>revm_sound\<close> says of it what the executor relies on: it does
  not make up errors of the database, and when the accounts it is given carry the code of their
  code hash, so do the accounts it returns.
\<close>

section \<open>The virtual machine\<close>

definition has_code :: "revm \<Rightarrow> (b256 \<Rightarrow> bytecode) \<Rightarrow> account_info option \<Rightarrow> bool" where
  "has_code R K x \<longleftrightarrow> (\<forall>info. x = Some info \<longrightarrow>
     ai_code info = Some (K (ai_code_hash info))
     \<or> ai_code_hash info = KECCAK_EMPTY R \<and> ai_code info = Some (bytecode_default R))"

primrec results_in :: "(account_info option \<Rightarrow> bool) \<Rightarrow> ('r \<Rightarrow> bool) \<Rightarrow> 'r evm \<Rightarrow> bool" where
  "results_in A Q (Done r) \<longleftrightarrow> Q r"
| "results_in A Q (GetBasic a c) \<longleftrightarrow> (\<forall>x. A x \<longrightarrow> results_in A Q (c x))"
| "results_in A Q (GetCode h c) \<longleftrightarrow> (\<forall>x. results_in A Q (c x))"
| "results_in A Q (GetStorage a i c) \<longleftrightarrow> (\<forall>x. results_in A Q (c x))"
| "results_in A Q (GetBlockHash n c) \<longleftrightarrow> (\<forall>x. results_in A Q (c x))"

definition outcome_sound :: "revm \<Rightarrow> (b256 \<Rightarrow> bytecode) \<Rightarrow> evm_outcome \<Rightarrow> bool" where
  "outcome_sound R K r \<longleftrightarrow>
     (case r of Inl err \<Rightarrow> (\<forall>e. err \<noteq> EDatabase e) | Inr (result, state) \<Rightarrow> state_codes R K state)"

definition revm_sound ::
    "revm \<Rightarrow> (evm_env \<Rightarrow> tx_env \<Rightarrow> evm_outcome evm) \<Rightarrow> (b256 \<Rightarrow> bytecode) \<Rightarrow> vm \<Rightarrow> bool" where
  "revm_sound R transact K V \<longleftrightarrow> (\<forall>tx \<in> set (vm_txs V).
     results_in (has_code R K) (outcome_sound R K) (transact (vm_evm_env V) tx))"

section \<open>Answers of the database\<close>

definition blocks_lower :: "nat \<Rightarrow> read_error \<Rightarrow> bool" where
  "blocks_lower i e \<longleftrightarrow> (\<forall>b. e = Blocking b \<longrightarrow> b < i)"

lemma blocks_lower_other [simp]:
  "blocks_lower i (StorageError err)" "blocks_lower i InconsistentRead" "blocks_lower i SelfDestructedAccount"
  "blocks_lower i InvalidValueType" "blocks_lower i (NonceTooLow x y)" "blocks_lower i (NonceTooHigh x y)"
  "blocks_lower i (Blocking b) \<longleftrightarrow> b < i"
  by (simp_all add: blocks_lower_def)

lemma push_origin_error: "push_origin os orig = Inl e \<Longrightarrow> blocks_lower i e"
  by (auto simp: push_origin_def split: if_splits)

lemma lift_storage_error: "lift_storage r = Inl e \<Longrightarrow> blocks_lower i e"
  by (auto simp: lift_storage_def split: sum.splits)

lemma get_code_hash_answer:
  assumes "get_code_hash R D m a db = (rd, db')"
  shows "db_tx_idx db' = db_tx_idx db" "to_code_hash db' = to_code_hash db"
    and "rd = Inl e \<Longrightarrow> blocks_lower i e"
  using assms push_origin_error
  by (auto simp: get_code_hash_def storage_code_hash_def Let_def
      split: option.splits prod.splits entry.splits location_value.splits sum.splits)

lemma vmdb_storage_answer:
  assumes g: "vmdb_storage R D m a idx db = (rd, db')" and m: "data_sorted (mv_data m)"
  shows "db_tx_idx db' = db_tx_idx db" "to_code_hash db' = to_code_hash db"
    and "rd = Inl e \<Longrightarrow> blocks_lower (db_tx_idx db) e"
proof -
  let ?loc = "hash_location R (Storage a idx)"
  show "db_tx_idx db' = db_tx_idx db" "to_code_hash db' = to_code_hash db"
    using g by (auto simp: vmdb_storage_def Let_def
      split: option.splits prod.splits entry.splits location_value.splits sum.splits)
  have "b < db_tx_idx db" if "closest m ?loc (db_tx_idx db) = Some (b, x)" for b x
    using that set_bt_below[OF data_sorted_entries[OF m], of b x "db_tx_idx db" ?loc]
    by (auto simp: closest_walk walk_of_def split: list.splits)
  then show "rd = Inl e \<Longrightarrow> blocks_lower (db_tx_idx db) e"
    using g push_origin_error lift_storage_error
    by (auto simp: vmdb_storage_def Let_def
      split: option.splits prod.splits entry.splits location_value.splits sum.splits if_splits)
qed

lemma basic_walk_error:
  "basic_walk prev it new bal non = Inl e \<Longrightarrow> \<forall>p \<in> set it. fst p < i \<Longrightarrow> blocks_lower i e"
proof (induction prev it new bal non rule: basic_walk.induct)
  case (3 prev closest_idx inc val it new bal non)
  then show ?case by (auto simp: Let_def split: if_splits location_value.splits)
qed auto

lemma basic_finish_answer:
  assumes g: "basic_finish R D mh mc a loc bal non acc db = (rd, db')"
  shows "db_tx_idx db' = db_tx_idx db" "to_code_hash db' = to_code_hash db"
    and "rd = Inl e \<Longrightarrow> blocks_lower (db_tx_idx db) e"
    and "codes_ok K mh \<Longrightarrow> data_sorted (mv_data mh) \<Longrightarrow> codes_ok K mc \<Longrightarrow> stored_codes D K \<Longrightarrow>
      new_bytecodes mh \<subseteq>\<^sub>m new_bytecodes mc \<Longrightarrow> code_known D mc (to_code_hash db) \<Longrightarrow> rd = Inr x \<Longrightarrow> has_code R K x"
proof -
  let ?ch = "if Some loc = to_hash db then (Inr (to_code_hash db), db) else get_code_hash R D mh a db"
  let ?nc = "if loc = from_hash db then nonce_check (db_tx_idx db) (db_tx db) (ai_nonce acc + non) else None"
  obtain c db1 where ch: "?ch = (c, db1)" by force
  have A: "db_tx_idx db1 = db_tx_idx db" "to_code_hash db1 = to_code_hash db"
      "c = Inl e \<Longrightarrow> blocks_lower (db_tx_idx db) e" for e
    using ch get_code_hash_answer[of R D mh a db c db1] by (auto split: if_splits)
  have "?nc = Some e \<Longrightarrow> blocks_lower (db_tx_idx db) e" for e
    by (auto simp: nonce_check_def split: if_splits)
  moreover have "lookup_code R D mc h = Inl e \<Longrightarrow> blocks_lower i e" for h e i
    by (auto simp: lookup_code_def split: option.splits sum.splits)
  ultimately show "db_tx_idx db' = db_tx_idx db" "to_code_hash db' = to_code_hash db"
      "rd = Inl e \<Longrightarrow> blocks_lower (db_tx_idx db) e"
    using g A unfolding basic_finish_def Let_def ch
    by (auto split: option.splits sum.splits)
  assume ok: "codes_ok K mh" "data_sorted (mv_data mh)" "codes_ok K mc" "stored_codes D K"
    and le: "new_bytecodes mh \<subseteq>\<^sub>m new_bytecodes mc" and kt: "code_known D mc (to_code_hash db)" and rd: "rd = Inr x"
  have *: "?nc = None" using g rd unfolding basic_finish_def Let_def by (auto split: option.splits)
  obtain h where h: "c = Inr h"
    using g rd * unfolding basic_finish_def Let_def ch by (auto split: sum.splits)
  have "code_known D mc h"
    using ch h kt get_code_hash_known[OF _ ok(1,2)] code_known_mono[OF _ le] by (auto split: if_splits)
  then have "lookup_code R D mc h = Inr (case h of None \<Rightarrow> bytecode_default R | Some k \<Rightarrow> K k)"
    by (rule lookup_known[OF ok(3,4)])
  then show "has_code R K x"
    using g rd * unfolding basic_finish_def Let_def ch h by (auto simp: has_code_def split: option.splits)
qed

lemma vmdb_basic_answer:
  assumes g: "vmdb_basic R D m mh mc a db = (rd, db')" and m: "data_sorted (mv_data m)"
  shows "db_tx_idx db' = db_tx_idx db" "to_code_hash db' = to_code_hash db"
    and "rd = Inl e \<Longrightarrow> blocks_lower (db_tx_idx db) e"
    and "codes_ok K mh \<Longrightarrow> data_sorted (mv_data mh) \<Longrightarrow> codes_ok K mc \<Longrightarrow> stored_codes D K \<Longrightarrow>
      new_bytecodes mh \<subseteq>\<^sub>m new_bytecodes mc \<Longrightarrow> code_known D mc (to_code_hash db) \<Longrightarrow> rd = Inr x \<Longrightarrow> has_code R K x"
proof -
  have "db_tx_idx db' = db_tx_idx db \<and> to_code_hash db' = to_code_hash db \<and>
    (rd = Inl e \<longrightarrow> blocks_lower (db_tx_idx db) e) \<and>
    (codes_ok K mh \<longrightarrow> data_sorted (mv_data mh) \<longrightarrow> codes_ok K mc \<longrightarrow> stored_codes D K \<longrightarrow>
      new_bytecodes mh \<subseteq>\<^sub>m new_bytecodes mc \<longrightarrow> code_known D mc (to_code_hash db) \<longrightarrow> rd = Inr x \<longrightarrow> has_code R K x)"
  proof (cases "is_lazy db \<and> (hash_basic R a db = from_hash db \<or> Some (hash_basic R a db) = to_hash db)")
    case True
    then show ?thesis using g by (auto simp: vmdb_basic_def Let_def has_code_def split: if_splits)
  next
    case False
    let ?loc = "hash_basic R a db" let ?prev = "origins_at db ?loc" let ?w = "walk_of m ?loc (db_tx_idx db)"
    have "\<not> (is_lazy db \<and> ?loc = from_hash db)" "\<not> (is_lazy db \<and> Some ?loc = to_hash db)" using False by auto
    note found = vmdb_basic_found[OF this, of D m mh mc]
    show ?thesis
    proof (cases "basic_found R D a ?prev ?w")
      case (Inl e')
      have "\<forall>p \<in> set ?w. fst p < db_tx_idx db"
        using set_bt_below[OF data_sorted_entries[OF m]] by (force simp: walk_of_def)
      then have "blocks_lower (db_tx_idx db) e'"
        using Inl basic_walk_error[of ?prev ?w "[]" i257_NEGATIVE_ZERO 0 e' "db_tx_idx db"]
        by (auto simp: basic_found_def basic_fallback_def Let_def split: sum.splits if_splits option.splits)
      then show ?thesis using g unfolding found Let_def Inl by auto
    next
      case (Inr f)
      obtain acc new bal non where f: "f = (acc, new, bal, non)" by (cases f)
      define db1 where "db1 = (if ?prev = [] then put_origins ?loc new (put_origins ?loc ?prev db) else put_origins ?loc ?prev db)"
      have d1: "db_tx_idx db1 = db_tx_idx db" "to_code_hash db1 = to_code_hash db" by (simp_all add: db1_def)
      show ?thesis
      proof (cases acc)
        case None
        then show ?thesis using g d1 unfolding found Let_def Inr f sum.case prod.case db1_def[symmetric] by (auto simp: has_code_def)
      next
        case (Some acc')
        then have "basic_finish R D mh mc a ?loc bal non acc' db1 = (rd, db')"
          using g unfolding found Let_def Inr f sum.case prod.case db1_def[symmetric] by simp
        from basic_finish_answer[OF this] d1 show ?thesis by metis
      qed
    qed
  qed
  then show "db_tx_idx db' = db_tx_idx db" "to_code_hash db' = to_code_hash db"
    "rd = Inl e \<Longrightarrow> blocks_lower (db_tx_idx db) e"
    "codes_ok K mh \<Longrightarrow> data_sorted (mv_data mh) \<Longrightarrow> codes_ok K mc \<Longrightarrow> stored_codes D K \<Longrightarrow>
      new_bytecodes mh \<subseteq>\<^sub>m new_bytecodes mc \<Longrightarrow> code_known D mc (to_code_hash db) \<Longrightarrow> rd = Inr x \<Longrightarrow> has_code R K x"
    by blast+
qed

section \<open>One execution\<close>

text \<open>The memories an execution sees: ordered, with the right bytecodes, which only grow.\<close>

definition right_mems :: "(b256 \<Rightarrow> bytecode) \<Rightarrow> (nat \<Rightarrow> mv_memory) \<Rightarrow> bool" where
  "right_mems K mems \<longleftrightarrow> (\<forall>j. codes_ok K (mems j) \<and> data_sorted (mv_data (mems j)))
     \<and> (\<forall>j k. j \<le> k \<longrightarrow> new_bytecodes (mems j) \<subseteq>\<^sub>m new_bytecodes (mems k))"

lemma right_memsD:
  assumes "right_mems K mems"
  shows "codes_ok K (mems j)" "data_sorted (mv_data (mems j))"
    "j \<le> k \<Longrightarrow> new_bytecodes (mems j) \<subseteq>\<^sub>m new_bytecodes (mems k)"
  using assms by (simp_all add: right_mems_def)

lemma run_sound:
  assumes "run_evm R D prog mems k db = (r, db')" "results_in (has_code R K) Q prog"
    and M: "right_mems K mems" "stored_codes D K"
    and "code_known D (mems 0) (to_code_hash db)"
  shows "(\<exists>e. r = Inl (EDatabase e) \<and> blocks_lower (db_tx_idx db) e) \<or> Q r"
  using assms(1,2,5)
proof (induction prog arbitrary: k db)
  case (GetBasic a c)
  obtain rd db1 where g: "vmdb_basic R D (mems (3 * k)) (mems (3 * k + 1)) (mems (3 * k + 2)) a db = (rd, db1)" by force
  note A = vmdb_basic_answer[OF g right_memsD(2)[OF M(1)]]
  show ?case
  proof (cases rd)
    case (Inl e)
    then have "r = Inl (EDatabase e)" using GetBasic.prems(1) g by (simp add: answer_def)
    then show ?thesis using A(3) Inl by blast
  next
    case (Inr x)
    have "code_known D (mems (3 * k + 2)) (to_code_hash db)"
      using code_known_mono[OF GetBasic.prems(3) right_memsD(3)[OF M(1)]] by simp
    then have "has_code R K x"
      using A(4)[OF right_memsD(1)[OF M(1)] right_memsD(2)[OF M(1)] right_memsD(1)[OF M(1)] M(2) right_memsD(3)[OF M(1)]] Inr by simp
    moreover have "run_evm R D (c x) mems (Suc k) db1 = (r, db')" using GetBasic.prems(1) g Inr by (simp add: answer_def)
    ultimately show ?thesis using GetBasic.IH[OF rangeI, of x "Suc k" db1] GetBasic.prems(2,3) A(1,2) by simp
  qed
next
  case (GetCode h c)
  show ?case
  proof (cases "code_by_hash_ref D h")
    case (Inl err)
    then show ?thesis using GetCode.prems(1) by (simp add: answer_def vmdb_code_by_hash_def lift_storage_def) fastforce
  next
    case (Inr x)
    then have "run_evm R D (c x) mems (Suc k) db = (r, db')"
      using GetCode.prems(1) by (simp add: answer_def vmdb_code_by_hash_def lift_storage_def)
    then show ?thesis using GetCode.IH[OF rangeI, of x "Suc k" db] GetCode.prems(2,3) by simp
  qed
next
  case (GetStorage a i c)
  obtain rd db1 where g: "vmdb_storage R D (mems (3 * k)) a i db = (rd, db1)" by force
  note A = vmdb_storage_answer[OF g right_memsD(2)[OF M(1)]]
  show ?case
  proof (cases rd)
    case (Inl e)
    then have "r = Inl (EDatabase e)" using GetStorage.prems(1) g by (simp add: answer_def)
    then show ?thesis using A(3) Inl by blast
  next
    case (Inr x)
    then have "run_evm R D (c x) mems (Suc k) db1 = (r, db')" using GetStorage.prems(1) g by (simp add: answer_def)
    then show ?thesis using GetStorage.IH[OF rangeI, of x "Suc k" db1] GetStorage.prems(2,3) A(1,2) by simp
  qed
next
  case (GetBlockHash n c)
  show ?case
  proof (cases "block_hash_ref D n")
    case (Inl err)
    then show ?thesis using GetBlockHash.prems(1) by (simp add: answer_def vmdb_block_hash_def lift_storage_def) fastforce
  next
    case (Inr x)
    then have "run_evm R D (c x) mems (Suc k) db = (r, db')"
      using GetBlockHash.prems(1) by (simp add: answer_def vmdb_block_hash_def lift_storage_def)
    then show ?thesis using GetBlockHash.IH[OF rangeI, of x "Suc k" db] GetBlockHash.prems(2,3) by simp
  qed
qed simp

lemma read_phase_sound:
  assumes V: "revm_sound R transact K V" "i < length (vm_txs V)"
    and M: "right_mems K mems" "stored_codes (vm_db V) K"
  shows "vm_read_phase R transact V i mems = Inl e \<Longrightarrow> blocks_lower i e"
    and "vm_read_phase R transact V i mems = Inr (r, db) \<Longrightarrow>
      (\<exists>e. r = Inl (EDatabase e) \<and> blocks_lower i e) \<or> outcome_sound R K r"
proof -
  let ?tx = "vm_txs V ! i" and ?lz = "lazy_candidate R (vm_txs V ! i) (mems 1) (mems 2)"
  let ?new = "vmdb_new_with R (vm_db V) (mems 0) ?lz i ?tx (hash_location R (Basic (te_caller ?tx))) (to_location R ?tx)"
  have rp: "vm_read_phase R transact V i mems = (case ?new of Inl e \<Rightarrow> Inl e
      | Inr db \<Rightarrow> Inr (run_evm R (vm_db V) (transact (vm_evm_env V) ?tx) mems 1 db))"
    by (simp add: vm_read_phase_with read_phase_with_def Let_def)
  show "vm_read_phase R transact V i mems = Inl e \<Longrightarrow> blocks_lower i e"
    using get_code_hash_answer(3)
    by (auto simp: rp vmdb_new_with_def Let_def split: sum.splits tx_kind.splits prod.splits)
  assume "vm_read_phase R transact V i mems = Inr (r, db)"
  then obtain db0 where n: "?new = Inr db0" and run: "run_evm R (vm_db V) (transact (vm_evm_env V) ?tx) mems 1 db0 = (r, db)"
    by (auto simp: rp split: sum.splits)
  have "db_tx_idx db0 = i \<and> code_known (vm_db V) (mems 0) (to_code_hash db0)"
  proof (cases "te_kind ?tx")
    case Create
    then show ?thesis using n by (auto simp: vmdb_new_with_def Let_def code_known_def)
  next
    case (Call to)
    obtain h db1 dbi where g: "get_code_hash R (vm_db V) (mems 0) to dbi = (Inr h, db1)" "db_tx_idx dbi = i"
        "db_tx_idx db0 = db_tx_idx db1" "to_code_hash db0 = h"
      using n Call by (auto simp: vmdb_new_with_def Let_def split: sum.splits prod.splits)
    then show ?thesis
      using get_code_hash_answer(1)[OF g(1)] get_code_hash_known[OF g(1) right_memsD(1,2)[OF M(1), of 0]] by simp
  qed
  moreover have "results_in (has_code R K) (outcome_sound R K) (transact (vm_evm_env V) ?tx)"
    using V by (simp add: revm_sound_def)
  ultimately show "(\<exists>e. r = Inl (EDatabase e) \<and> blocks_lower i e) \<or> outcome_sound R K r"
    using run_sound[OF run _ M, of "outcome_sound R K"] by simp
qed

lemma vm_error_blocking: "vm_error_of_read_error e = VmBlocking b \<Longrightarrow> e = Blocking b"
  by (cases e) auto

lemma vm_execute_blocking:
  assumes V: "revm_sound R transact K V" "tv_idx v < length (vm_txs V)"
    and M: "right_mems K mems" "stored_codes (vm_db V) K"
    and e: "vm_execute R transact V v mems m = (Inl (VmBlocking b), m')"
  shows "b < tv_idx v \<and> m' = m"
proof (cases "vm_read_phase R transact V (tv_idx v) mems")
  case (Inl er)
  then show ?thesis
    using e read_phase_sound(1)[OF V M Inl] vm_error_blocking by (auto simp: vm_execute_def blocks_lower_def)
next
  case (Inr p)
  obtain r db where p: "p = (r, db)" by force
  note S = read_phase_sound(2)[OF V M Inr[unfolded p]]
  show ?thesis
  proof (cases r)
    case (Inl err)
    then have "execution_failed (tv_idx v) err = VmBlocking b" "m' = m"
      using e Inr p by (auto simp: vm_execute_def)
    then show ?thesis
      using S Inl vm_error_blocking
      by (auto simp: execution_failed_def outcome_sound_def blocks_lower_def
          split: evm_error.splits invalid_transaction.splits if_splits)
  next
    case out: (Inr out)
    have nb: "apply_reward_list rs ws \<noteq> Inl (VmBlocking b)" for rs ws
      by (induction rs ws rule: apply_reward_list.induct) (auto split: option.splits)
    show ?thesis
      using e Inr p out nb
      by (auto simp: vm_execute_def execution_succeeded_def apply_rewards_def Let_def split: prod.splits sum.splits)
  qed
qed

lemma vm_execute_retry:
  assumes "vm_execute R transact V v mems m = (Inl VmRetry, m')"
  shows "m' = m"
proof -
  have nb: "apply_reward_list rs ws \<noteq> Inl VmRetry" for rs ws
    by (induction rs ws rule: apply_reward_list.induct) (auto split: option.splits)
  then show ?thesis
    using assms
    by (auto simp: vm_execute_def execution_succeeded_def apply_rewards_def Let_def split: prod.splits sum.splits)
qed

text \<open>What a successful execution has read, and what it has written.\<close>

definition vm_ran ::
    "revm \<Rightarrow> (evm_env \<Rightarrow> tx_env \<Rightarrow> evm_outcome evm) \<Rightarrow> vm \<Rightarrow> nat \<Rightarrow> (nat \<Rightarrow> mv_memory)
      \<Rightarrow> execution_result \<times> evm_state \<Rightarrow> vmdb \<Rightarrow> write_set \<Rightarrow> bool" where
  "vm_ran R transact V i mems out db ws \<longleftrightarrow>
     vm_read_phase R transact V i mems = Inr (Inr out, db) \<and> final_writes R V i db out = Inr ws"

lemma vm_execute_success:
  assumes e: "vm_execute R transact V v mems m = (Inr res, m')"
  obtains result state db ws ty where
    "vm_ran R transact V (tv_idx v) mems (result, state) db ws"
    "tx_type_try_from R (te_tx_type (vm_txs V ! tv_idx v)) = Inr ty"
    "vr_execution_result res = from_raw ty result state"
    "execution_succeeded R (apply_rewards V (vm_txs V ! tv_idx v) (ucast (er_gas_used result))) (vm_evm_env V)
      (vm_txs V ! tv_idx v) v db result state m = (Inr res, m')"
proof -
  obtain result state db where r: "vm_read_phase R transact V (tv_idx v) mems = Inr (Inr (result, state), db)"
    and x: "execution_succeeded R (apply_rewards V (vm_txs V ! tv_idx v) (ucast (er_gas_used result))) (vm_evm_env V)
      (vm_txs V ! tv_idx v) v db result state m = (Inr res, m')"
    using e by (auto simp: vm_execute_def Let_def split: sum.splits prod.splits)
  obtain ws0 codes where wa: "write_accounts R (vm_evm_env V) (vm_txs V ! tv_idx v) db state (new_bytecodes m) = (ws0, codes)" by force
  have "fst (write_accounts R (vm_evm_env V) (vm_txs V ! tv_idx v) db state Map.empty) = ws0"
    using write_accounts_fst[of R "vm_evm_env V" "vm_txs V ! tv_idx v" db state "new_bytecodes m" Map.empty] wa by simp
  then have fw: "final_writes R V (tv_idx v) db (result, state)
      = apply_rewards V (vm_txs V ! tv_idx v) (ucast (er_gas_used result)) ws0"
    by (simp add: final_writes_def)
  then obtain ws where w: "final_writes R V (tv_idx v) db (result, state) = Inr ws"
    using x unfolding execution_succeeded_def wa prod.case Let_def fw by (auto split: sum.splits)
  show thesis
  proof (rule execution_succeeded_record[OF w x])
    fix flags
    assume "Inr res = (case tx_type_try_from R (te_tx_type (vm_txs V ! tv_idx v)) of
       Inl err \<Rightarrow> Inl (VmExecutionError (ECustom err))
     | Inr ty \<Rightarrow> Inr \<lparr>vr_execution_result = from_raw ty result state, vr_flags = flags\<rparr>)"
    then obtain ty where "tx_type_try_from R (te_tx_type (vm_txs V ! tv_idx v)) = Inr ty"
        "vr_execution_result res = from_raw ty result state"
      by (auto split: sum.splits)
    then show thesis using that r w x by (auto simp: vm_ran_def)
  qed
qed

end
