(* ===== verification/Mv_Stability.thy ===== *)
theory Mv_Stability
  imports Mv_Memory
begin

text \<open>
  Which changes of the memory keep a validated read valid. A read of transaction \<open>i\<close> looks only at
  entries below \<open>i\<close>, from the top, and never past an estimate: replacing an estimate, or removing
  it, cannot invalidate a read that was valid. This is why \<open>finish_execution\<close> need not revalidate
  the higher transactions when an execution has written no new location.
\<close>

lemma read_valid_walk:
  "read_valid d i (loc, os) \<longleftrightarrow>
     (if d loc = None then os = [OriginStorage] else origins_valid os (bt_below i (entries_of d loc)))"
proof -
  have "(length os = 1 \<and> last os = OriginStorage) \<longleftrightarrow> os = [OriginStorage]"
    by (cases os rule: rev_cases) auto
  then show ?thesis by (auto simp: read_valid_def entries_of_def split: option.splits)
qed

text \<open>Entries at or above the reader do not matter.\<close>

lemma read_valid_below:
  assumes srt: "data_sorted d" "data_sorted d'" and dom: "d loc \<noteq> None \<Longrightarrow> d' loc \<noteq> None"
    and same: "\<And>k. k < i \<Longrightarrow> entry_at d' loc k = entry_at d loc k"
    and v: "read_valid d i (loc, os)"
  shows "read_valid d' i (loc, os)"
proof -
  have w: "bt_below i (entries_of d' loc) = bt_below i (entries_of d loc)"
    using same by (intro bt.below_cong) (auto simp: data_sorted_entries[OF srt(1)] data_sorted_entries[OF srt(2)] entry_at_def)
  show ?thesis
  proof (cases "d loc = None")
    case True
    then have "bt_below i (entries_of d loc) = []" by (simp add: entries_of_def bt_below_def bt_range_def)
    then show ?thesis using v w True by (simp add: read_valid_walk)
  next
    case False
    then show ?thesis using v w dom[OF False] by (auto simp: read_valid_walk)
  qed
qed

lemma origins_valid_cut: "origins_valid os (hi @ (j, Estimate) # lo) \<Longrightarrow> origins_valid os (hi @ rest)"
proof (induction hi arbitrary: os)
  case Nil
  then show ?case by (cases "(os, (j, Estimate) # lo)" rule: origins_valid.cases) auto
next
  case (Cons p hi)
  then show ?case
    by (cases "(os, p # hi)" rule: origins_valid.cases) (auto split: prod.splits entry.splits if_splits)
qed

lemma desc_split:
  assumes "sorted_wrt (>) (map fst (it :: (nat \<times> 'a) list))"
  shows "it = filter (\<lambda>p. j < fst p) it @ filter (\<lambda>p. \<not> j < fst p) it"
  using assms
proof (induction it)
  case (Cons p it)
  then show ?case
  proof (cases "j < fst p")
    case False
    then have "\<forall>q \<in> set it. \<not> j < fst q" using Cons.prems by auto
    then have "filter (\<lambda>p. j < fst p) it = []" by (simp add: filter_empty_conv)
    then show ?thesis using Cons False by simp
  qed simp
qed simp

text \<open>Changing entries of one transaction that are estimates.\<close>

lemma read_valid_fill:
  assumes srt: "data_sorted d" "data_sorted d'" and dom: "d loc \<noteq> None \<Longrightarrow> d' loc \<noteq> None"
    and same: "\<And>k. k \<noteq> j \<Longrightarrow> entry_at d' loc k = entry_at d loc k"
    and est: "entry_at d' loc j = entry_at d loc j \<or> entry_at d loc j = Some Estimate"
    and v: "read_valid d i (loc, os)"
  shows "read_valid d' i (loc, os)"
proof (cases "j < i \<and> entry_at d' loc j \<noteq> entry_at d loc j")
  case False
  have "entry_at d' loc k = entry_at d loc k" if "k < i" for k
    using same[of k] False that by (cases "k = j") auto
  then show ?thesis using read_valid_below[OF srt dom _ v] by blast
next
  case True
  let ?w = "bt_below i (entries_of d loc)" and ?w' = "bt_below i (entries_of d' loc)"
  let ?hi = "filter (\<lambda>p. j < fst p)" and ?lo = "filter (\<lambda>p. \<not> j < fst p)"
  note sd = data_sorted_entries[OF srt(1), of loc] and sd' = data_sorted_entries[OF srt(2), of loc]
  note desc = bt_below_desc[OF sd, of i] and desc' = bt_below_desc[OF sd', of i]
  have e: "entry_at d loc j = Some Estimate" using True est by blast
  have hi: "?hi ?w' = ?hi ?w"
  proof (rule desc_alist_unique)
    show "sorted_wrt (>) (map fst (?hi ?w'))" "sorted_wrt (>) (map fst (?hi ?w))"
      using desc desc' by (simp_all add: sorted_wrt_map sorted_wrt_filter)
    have "p \<in> set (?hi ?w') \<longleftrightarrow> p \<in> set (?hi ?w)" for p
      using same[of "fst p"] set_bt_below[OF sd] set_bt_below[OF sd'] by (cases p) (auto simp: entry_at_def)
    then show "set (?hi ?w') = set (?hi ?w)" by blast
  qed
  have mem: "(j, Estimate) \<in> set (?lo ?w)"
    using e True set_bt_below[OF sd] by (simp add: entry_at_def)
  obtain rest where lo: "?lo ?w = (j, Estimate) # rest"
  proof (cases "?lo ?w")
    case Nil
    then show thesis using mem by simp
  next
    case (Cons p rest)
    have "sorted_wrt (>) (map fst (?lo ?w))" using desc by (simp add: sorted_wrt_map sorted_wrt_filter)
    then have low: "q = p \<or> fst q < fst p" if "q \<in> set (?lo ?w)" for q using that unfolding Cons by auto
    have "p \<in> set (?lo ?w)" unfolding Cons by simp
    then have "\<not> j < fst p" by simp
    then have "p = (j, Estimate)" using low[OF mem] by auto
    then show thesis using that Cons by blast
  qed
  have "d loc \<noteq> None" using e entry_at_some_data by fastforce
  then have "origins_valid os (?hi ?w @ (j, Estimate) # rest)" "d' loc \<noteq> None"
    using v dom desc_split[OF desc, of j] lo by (simp_all add: read_valid_walk)
  then show ?thesis
    using origins_valid_cut[of os "?hi ?w" j rest "?lo ?w'"] desc_split[OF desc', of j] hi by (auto simp: read_valid_walk)
qed

lemma mv_record_dom:
  assumes inv: "mv_inv m" and i: "tv_idx v < length (mv_locations m)" and ws: "distinct (map fst ws)"
    and r: "mv_record v rs ws m = (b, m')"
  shows "mv_data m loc \<noteq> None \<Longrightarrow> mv_data m' loc \<noteq> None"
proof -
  obtain wl d where p: "record_prune (tv_idx v) ws 0 (writes_of m (tv_idx v)) (mv_data m) = (wl, d)" by force
  obtain w wl' d' where q: "record_writes v ws wl d False = (w, wl', d')" by (cases "record_writes v ws wl d False")
  have P: "distinct wl" "\<And>loc. d loc = None \<longleftrightarrow> mv_data m loc = None"
    using record_prune_effect[OF mv_invD(2)[OF inv i] _ p] by auto
  have "\<And>loc. d' loc = None \<longleftrightarrow> d loc = None \<and> map_of ws loc = None"
    using record_writes_effect[OF ws P(1) q] by blast
  moreover have "mv_data m' = d'"
    using r p q by (auto simp: mv_record_def Let_def index_mutex_def writes_of_def)
  ultimately show "mv_data m loc \<noteq> None \<Longrightarrow> mv_data m' loc \<noteq> None" using P(2) by simp
qed

lemma convert_writes_dom: "mv_data m loc \<noteq> None \<Longrightarrow> mv_data (convert_writes_to_estimates i m) loc \<noteq> None"
proof -
  have "mark_estimate i l d loc = None \<longleftrightarrow> d loc = None" for l d by (auto simp: mark_estimate_def split: option.splits)
  then have "fold (mark_estimate i) wl d loc = None \<longleftrightarrow> d loc = None" for wl d by (induction wl arbitrary: d) simp_all
  then show "mv_data m loc \<noteq> None \<Longrightarrow> ?thesis" by (simp add: convert_writes_to_estimates_def)
qed

end
