(* ===== verification/Parallel_Run.thy ===== *)
theory Parallel_Run
  imports Scheduler_Progress Executor Vm_Soundness Mv_Stability
begin

text \<open>
  The threads of \<open>ParallelExecutor::execute\<close> with everything they share: the scheduler, the
  multi-version memory and the list of results (\<open>crates/pe/src/executor.rs\<close>, the \<open>thread::scope\<close>
  block with \<open>try_execute\<close> and \<open>try_validate\<close>; \<open>crates/pe/src/mv_memory.rs\<close>, \<open>record\<close>,
  \<open>validate_read_locations\<close> and \<open>convert_writes_to_estimates\<close>).

  \<open>pe_step\<close> is one step of one thread, named by an event. The scheduler makes the steps of theory
  \<open>Scheduler_Steps\<close>. The operations of the memory that touch several locations are not atomic:
  \<open>record\<close> changes one location per step, \<open>validate_read_locations\<close> checks one read per step and
  \<open>convert_writes_to_estimates\<close> marks one location per step, and any other thread may step in
  between. An execution reads at any number of moments: the event carries for each access of the
  memory the position in the history of the memory at which it happened, in ascending order. The
  locks of \<open>record\<close> and of the validation on the sets of one transaction are not used, and the
  order in which \<open>record\<close> visits the locations is arbitrary; both allow more interleavings than
  the code. The sets of a transaction and the new bytecodes are stored before the first location is
  changed, in one step. An execution that is retried changes nothing and is not a step.

  The history of the memory and the log of the recorded executions are not in the code; they are
  kept to state the invariant.
\<close>

section \<open>The system\<close>

type_synonym mem_op = "location_hash \<times> entry option"

datatype job =
    NoJob
  | Recording "mem_op list" vm_execution_result
  | Checking read_set
  | Invalid
  | Converting "location_hash list"

record log_entry =
  le_mems :: "nat \<Rightarrow> mv_memory"
  le_out :: "execution_result \<times> evm_state"
  le_db :: vmdb
  le_ws :: write_set

record pe_run =
  pr_sched :: scheduler
  pr_pcs :: "nat \<Rightarrow> pc"
  pr_finished :: "tx_version set"
  pr_mem :: mv_memory
  pr_exec :: parallel_executor
  pr_jobs :: "nat \<Rightarrow> job"
  pr_hist :: "mv_memory list"
  pr_log :: "tx_version \<rightharpoonup> log_entry"

definition pe_init :: "revm \<Rightarrow> evm_env \<Rightarrow> tx_env list \<Rightarrow> nat \<Rightarrow> parallel_executor \<Rightarrow> pe_run" where
  "pe_init R env txs concurrency_level E =
     (let m = build_mv_memory (hash_location R) (ee_beneficiary env) txs in
      \<lparr>pr_sched = scheduler_new (length txs),
       pr_pcs = (\<lambda>t. if t < concurrency_level then Idle else Exited), pr_finished = {},
       pr_mem = m, pr_exec = reserve_results (length txs) E, pr_jobs = (\<lambda>_. NoJob),
       pr_hist = [m], pr_log = Map.empty\<rparr>)"

definition sys_of :: "pe_run \<Rightarrow> sys" where
  "sys_of X = mk_sys (pr_sched X) (pr_pcs X) (pr_finished X)"

text \<open>The memory at each access of an execution, by positions in the history.\<close>

definition mems_of :: "mv_memory list \<Rightarrow> nat list \<Rightarrow> nat \<Rightarrow> mv_memory" where
  "mems_of H ks j = H ! (if j < length ks then ks ! j else last ks)"

definition moments :: "nat list \<Rightarrow> mv_memory list \<Rightarrow> bool" where
  "moments ks H \<longleftrightarrow> ks \<noteq> [] \<and> sorted ks \<and> last ks < length H"

text \<open>The single changes of \<open>record\<close>: locations that are no longer written, then the writes.\<close>

definition record_ops :: "tx_version \<Rightarrow> write_set \<Rightarrow> location_hash list \<Rightarrow> mem_op list" where
  "record_ops v ws wl =
     map (\<lambda>l. (l, None)) (filter (\<lambda>l. map_of ws l = None) wl)
     @ map (\<lambda>(l, val). (l, Some (Data (tv_incarnation v) val))) ws"

definition apply_op ::
    "nat \<Rightarrow> mem_op \<Rightarrow> (location_hash \<rightharpoonup> (nat, entry) btree) \<Rightarrow> (location_hash \<rightharpoonup> (nat, entry) btree)" where
  "apply_op i op d =
     (case op of (l, None) \<Rightarrow> remove_entry i l d | (l, Some e) \<Rightarrow> insert_entry i l e d)"

definition put_mem :: "mv_memory \<Rightarrow> pe_run \<Rightarrow> pe_run" where
  "put_mem m X = X\<lparr>pr_mem := m, pr_hist := pr_hist X @ [m]\<rparr>"

definition put_job :: "nat \<Rightarrow> job \<Rightarrow> pe_run \<Rightarrow> pe_run" where
  "put_job t j X = X\<lparr>pr_jobs := (pr_jobs X)(t := j)\<rparr>"

definition sched_event :: "event \<Rightarrow> pe_run \<Rightarrow> pe_run option" where
  "sched_event e X =
     map_option (\<lambda>(s, P, F). X\<lparr>pr_sched := s, pr_pcs := P, pr_finished := F\<rparr>)
       (event_step e (pr_sched X) (pr_pcs X) (pr_finished X))"

text \<open>The events of the scheduler that involve neither the memory nor the virtual machine.\<close>

fun quiet :: "event \<Rightarrow> bool" where
  "quiet (ClaimValidation t) = True"
| "quiet (TakeValidation t) = True"
| "quiet (ClaimExecution t) = True"
| "quiet (TakeExecution t) = True"
| "quiet (Settled t) = True"
| "quiet (Retaken t) = True"
| "quiet (Leaves t) = True"
| "quiet _ = False"

datatype pe_event =
    Schedule event
  | LeavesEarly nat nat
  | RunBlocked nat "nat list"
  | RunFatal nat "nat list"
  | RunRecords nat "nat list" "mem_op list"
  | RecordOne nat
  | RunFinishes nat
  | CheckBegins nat
  | CheckOne nat
  | CheckPasses nat
  | CheckFails nat
  | ConvertBegins nat
  | ConvertOne nat
  | ConvertEnds nat

fun live_step ::
    "revm \<Rightarrow> (evm_env \<Rightarrow> tx_env \<Rightarrow> evm_outcome evm) \<Rightarrow> vm \<Rightarrow> pe_event \<Rightarrow> pe_run \<Rightarrow> pe_run option" where
  "live_step R transact V (Schedule e) X = (if quiet e then sched_event e X else None)"
| "live_step R transact V (LeavesEarly t t') X =
     (if pr_pcs X t = Idle \<and> t' \<noteq> t \<and> pr_pcs X t' \<noteq> Exited
      then Some (X\<lparr>pr_pcs := (pr_pcs X)(t := Exited)\<rparr>) else None)"
| "live_step R transact V (RunBlocked t ks) X =
     (case (pr_pcs X t, pr_jobs X t) of
        (Busy (Execution v), NoJob) \<Rightarrow>
          (if moments ks (pr_hist X) then
             (case fst (vm_execute R transact V v (mems_of (pr_hist X) ks) (pr_mem X)) of
                Inl (VmBlocking b) \<Rightarrow> sched_event (Blocked t b) X
              | _ \<Rightarrow> None)
           else None)
      | _ \<Rightarrow> None)"
| "live_step R transact V (RunFatal t ks) X =
     (case (pr_pcs X t, pr_jobs X t) of
        (Busy (Execution v), NoJob) \<Rightarrow>
          (if moments ks (pr_hist X) then
             (case vm_execute R transact V v (mems_of (pr_hist X) ks) (pr_mem X) of
                (r, m') \<Rightarrow>
                  (case try_execute_attempt v r (pr_exec X) (pr_sched X) of
                     (_, E', s') \<Rightarrow>
                       if aborted s' then
                         Some (put_mem m' (X\<lparr>pr_sched := s', pr_exec := E', pr_pcs := (pr_pcs X)(t := Exited)\<rparr>))
                       else None))
           else None)
      | _ \<Rightarrow> None)"
| "live_step R transact V (RunRecords t ks ops) X =
     (case (pr_pcs X t, pr_jobs X t) of
        (Busy (Execution v), NoJob) \<Rightarrow>
          (let mems = mems_of (pr_hist X) ks; m = pr_mem X in
           case (vm_read_phase R transact V (tv_idx v) mems, vm_execute R transact V v mems m) of
             (Inr (Inr out, db), (Inr res, m')) \<Rightarrow>
               (case final_writes R V (tv_idx v) db out of
                  Inr ws \<Rightarrow>
                    (if moments ks (pr_hist X) \<and> distinct ops
                        \<and> set ops = set (record_ops v ws (rw_write (index_mutex (mv_locations m) (tv_idx v))))
                     then
                       Some (put_job t (Recording ops res) (put_mem (m'\<lparr>mv_data := mv_data m\<rparr>)
                         (X\<lparr>pr_log := (pr_log X)(v \<mapsto> \<lparr>le_mems = mems, le_out = out, le_db = db, le_ws = ws\<rparr>)\<rparr>)))
                     else None)
                | _ \<Rightarrow> None)
           | _ \<Rightarrow> None)
      | _ \<Rightarrow> None)"
| "live_step R transact V (RecordOne t) X =
     (case (pr_pcs X t, pr_jobs X t) of
        (Busy (Execution v), Recording (op # ops) res) \<Rightarrow>
          Some (put_job t (Recording ops res)
            (put_mem ((pr_mem X)\<lparr>mv_data := apply_op (tv_idx v) op (mv_data (pr_mem X))\<rparr>) X))
      | _ \<Rightarrow> None)"
| "live_step R transact V (RunFinishes t) X =
     (case (pr_pcs X t, pr_jobs X t) of
        (Busy (Execution v), Recording [] res) \<Rightarrow>
          sched_event (Finished t (vr_flags res))
            (put_job t NoJob (X\<lparr>pr_exec := (pr_exec X)\<lparr>execution_results :=
               (execution_results (pr_exec X))[tv_idx v := Some (vr_execution_result res)]\<rparr>\<rparr>))
      | _ \<Rightarrow> None)"
| "live_step R transact V (CheckBegins t) X =
     (case (pr_pcs X t, pr_jobs X t) of
        (Busy (Validation v), NoJob) \<Rightarrow>
          Some (put_job t (Checking (rw_read (index_mutex (mv_locations (pr_mem X)) (tv_idx v)))) X)
      | _ \<Rightarrow> None)"
| "live_step R transact V (CheckOne t) X =
     (case (pr_pcs X t, pr_jobs X t) of
        (Busy (Validation v), Checking (r # rs)) \<Rightarrow>
          Some (put_job t (if read_valid (mv_data (pr_mem X)) (tv_idx v) r then Checking rs else Invalid) X)
      | _ \<Rightarrow> None)"
| "live_step R transact V (CheckPasses t) X =
     (case (pr_pcs X t, pr_jobs X t) of
        (Busy (Validation v), Checking []) \<Rightarrow> sched_event (Passed t) (put_job t NoJob X)
      | _ \<Rightarrow> None)"
| "live_step R transact V (CheckFails t) X =
     (case (pr_pcs X t, pr_jobs X t) of
        (Busy (Validation v), Invalid) \<Rightarrow> sched_event (Failed t) (put_job t NoJob X)
      | _ \<Rightarrow> None)"
| "live_step R transact V (ConvertBegins t) X =
     (case (pr_pcs X t, pr_jobs X t) of
        (Aborting v, NoJob) \<Rightarrow>
          Some (put_job t (Converting (rw_write (index_mutex (mv_locations (pr_mem X)) (tv_idx v)))) X)
      | _ \<Rightarrow> None)"
| "live_step R transact V (ConvertOne t) X =
     (case (pr_pcs X t, pr_jobs X t) of
        (Aborting v, Converting (l # ls)) \<Rightarrow>
          Some (put_job t (Converting ls)
            (put_mem ((pr_mem X)\<lparr>mv_data := mark_estimate (tv_idx v) l (mv_data (pr_mem X))\<rparr>) X))
      | _ \<Rightarrow> None)"
| "live_step R transact V (ConvertEnds t) X =
     (case (pr_pcs X t, pr_jobs X t) of
        (Aborting v, Converting []) \<Rightarrow> sched_event (Rescheduled t) (put_job t NoJob X)
      | _ \<Rightarrow> None)"

text \<open>After an abort the threads leave.\<close>

definition pe_step ::
    "revm \<Rightarrow> (evm_env \<Rightarrow> tx_env \<Rightarrow> evm_outcome evm) \<Rightarrow> vm \<Rightarrow> pe_event \<Rightarrow> pe_run \<Rightarrow> pe_run option" where
  "pe_step R transact V e X =
     (if aborted (pr_sched X) then
        (case e of Schedule (Leaves t) \<Rightarrow> Some (X\<lparr>pr_pcs := (pr_pcs X)(t := Exited)\<rparr>) | _ \<Rightarrow> None)
      else live_step R transact V e X)"

fun pe_run_events ::
    "revm \<Rightarrow> (evm_env \<Rightarrow> tx_env \<Rightarrow> evm_outcome evm) \<Rightarrow> vm \<Rightarrow> pe_event list \<Rightarrow> pe_run \<Rightarrow> pe_run option" where
  "pe_run_events R transact V [] X = Some X"
| "pe_run_events R transact V (e # es) X =
     (case pe_step R transact V e X of None \<Rightarrow> None | Some X' \<Rightarrow> pe_run_events R transact V es X')"

inductive pe_reachable ::
    "revm \<Rightarrow> (evm_env \<Rightarrow> tx_env \<Rightarrow> evm_outcome evm) \<Rightarrow> vm \<Rightarrow> pe_run \<Rightarrow> pe_run \<Rightarrow> bool"
  for R transact V X0 where
  pe_start: "pe_reachable R transact V X0 X0"
| pe_next: "pe_reachable R transact V X0 X \<Longrightarrow> pe_step R transact V e X = Some X' \<Longrightarrow>
    pe_reachable R transact V X0 X'"

section \<open>The scheduler in the system\<close>

text \<open>Every step is a step of the scheduler or leaves it alone.\<close>

lemma sched_event_worker:
  assumes "sched_event e X = Some X'" "\<not> aborted (pr_sched X)"
  shows "worker_step (sys_of X) (sys_of X')"
  using assms event_step_worker by (fastforce simp: sched_event_def sys_of_def)

lemma live_step_sched:
  assumes "live_step R transact V e X = Some X'" "\<not> aborted (pr_sched X)"
  shows "sys_of X' = sys_of X \<or> worker_step (sys_of X) (sys_of X')"
proof -
  have leave: "worker_step (mk_sys s P F) (mk_sys s (P(t := Exited)) F)"
    if "P t = Idle" "t' \<noteq> t" "P t' \<noteq> Exited" "\<not> aborted s" for s P F t t'
    using worker_step.worker_leaves[of "mk_sys s P F" t] that by (auto simp: mk_sys_def)
  have fatal: "worker_step (mk_sys s P F) (mk_sys s' (P(t := Exited)) F)"
    if "P t = Busy (Execution v)" "\<not> aborted s" "aborted s'" "try_execute_attempt v r E s = (a, E', s')" for s P F t v s' r E a E'
  proof -
    have "s' = sched_abort s"
      using that(2-4)
      by (auto simp: try_execute_attempt_def sched_abort_def add_dependency_def finish_execution_def settle_execution_def
          Let_def sched_simps split: sum.splits vm_execution_error.splits prod.splits if_splits)
    then show ?thesis using worker_step.execution_fatal[of "mk_sys s P F" t v] that by (simp add: mk_sys_def)
  qed
  show ?thesis
    using assms leave fatal
    by (cases "(R, transact, V, e, X)" rule: live_step.cases)
      (auto simp: sys_of_def put_job_def put_mem_def Let_def dest!: sched_event_worker[unfolded sys_of_def]
        split: if_splits pc.splits task.splits job.splits list.splits sum.splits prod.splits vm_execution_error.splits)
qed

lemma pe_step_sched:
  assumes "pe_step R transact V e X = Some X'"
  shows "sys_of X' = sys_of X \<or> worker_step (sys_of X) (sys_of X')"
proof (cases "aborted (pr_sched X)")
  case True
  then obtain t where "X' = X\<lparr>pr_pcs := (pr_pcs X)(t := Exited)\<rparr>"
    using assms by (auto simp: pe_step_def split: pe_event.splits event.splits)
  then show ?thesis using worker_step.worker_stops[of "sys_of X" t] True by (simp add: sys_of_def mk_sys_def)
next
  case False
  then show ?thesis using assms live_step_sched by (simp add: pe_step_def)
qed

lemma pe_reachable_sched:
  assumes "pe_reachable R transact V (pe_init R env txs k E) X"
  shows "reachable (length txs) k (sys_of X)"
  using assms
proof induction
  case pe_start
  have "sys_of (pe_init R env txs k E) = sys_init (length txs) k"
    by (simp add: sys_of_def pe_init_def sys_init_def mk_sys_def Let_def)
  then show ?case by (simp add: reachable.start)
next
  case (pe_next X e X')
  then show ?case using pe_step_sched reachable.step by metis
qed

section \<open>Recording one transaction\<close>

text \<open>What \<open>mv_record\<close> does to the sets of its transaction, whatever the others are doing.\<close>

lemma mv_record_local:
  assumes wl: "distinct (writes_of m (tv_idx v))" and i: "tv_idx v < length (mv_locations m)"
    and ws: "distinct (map fst ws)" and r: "mv_record v rs ws m = (b, m')"
  shows "b = (\<exists>loc \<in> fst ` set ws. loc \<notin> set (writes_of m (tv_idx v)))"
    and "length (mv_locations m') = length (mv_locations m)" "new_bytecodes m' = new_bytecodes m"
    and "reads_of m' (tv_idx v) = rs" "set (writes_of m' (tv_idx v)) = fst ` set ws" "distinct (writes_of m' (tv_idx v))"
    and "j \<noteq> tv_idx v \<Longrightarrow> mv_locations m' ! j = mv_locations m ! j"
    and "entry_at (mv_data m') loc (tv_idx v) =
      (case map_of ws loc of
         Some val \<Rightarrow> Some (Data (tv_incarnation v) val)
       | None \<Rightarrow> if loc \<in> set (writes_of m (tv_idx v)) then None else entry_at (mv_data m) loc (tv_idx v))"
proof -
  let ?i = "tv_idx v"
  obtain wl d where p: "record_prune ?i ws 0 (writes_of m ?i) (mv_data m) = (wl, d)" by force
  obtain w wl' d' where q: "record_writes v ws wl d False = (w, wl', d')" by (cases "record_writes v ws wl d False")
  have m': "b = w" "m' = m\<lparr>mv_data := d', mv_locations := (mv_locations m)[?i := \<lparr>rw_read = rs, rw_write = wl'\<rparr>]\<rparr>"
    using r p q by (auto simp: mv_record_def Let_def index_mutex_def writes_of_def)
  have P: "set wl = {loc \<in> set (writes_of m ?i). map_of ws loc \<noteq> None}" "distinct wl"
      "\<And>loc j. entry_at d loc j = (if j = ?i \<and> loc \<in> set (writes_of m ?i) \<and> map_of ws loc = None then None
         else entry_at (mv_data m) loc j)"
    using record_prune_effect[OF wl _ p] by auto
  have Q: "w = (\<exists>loc \<in> fst ` set ws. loc \<notin> set wl)" "set wl' = set wl \<union> fst ` set ws" "distinct wl'"
      "\<And>loc j. entry_at d' loc j = (if j = ?i \<and> map_of ws loc \<noteq> None
        then Some (Data (tv_incarnation v) (the (map_of ws loc))) else entry_at d loc j)"
    using record_writes_effect[OF ws P(2) q] by auto
  have keys: "map_of ws loc \<noteq> None \<longleftrightarrow> loc \<in> fst ` set ws" for loc by (simp add: map_of_eq_None_iff)
  show "b = (\<exists>loc \<in> fst ` set ws. loc \<notin> set (writes_of m ?i))" unfolding m'(1) Q(1) P(1) keys by auto
  show "length (mv_locations m') = length (mv_locations m)" "new_bytecodes m' = new_bytecodes m"
    "reads_of m' ?i = rs" "set (writes_of m' ?i) = fst ` set ws" "distinct (writes_of m' ?i)"
    "j \<noteq> ?i \<Longrightarrow> mv_locations m' ! j = mv_locations m ! j"
    using i Q(2,3) unfolding m'(2) P(1) keys by (auto simp: reads_of_def writes_of_def)
  show "entry_at (mv_data m') loc ?i =
      (case map_of ws loc of
         Some val \<Rightarrow> Some (Data (tv_incarnation v) val)
       | None \<Rightarrow> if loc \<in> set (writes_of m ?i) then None else entry_at (mv_data m) loc ?i)"
    using m'(2) Q(4)[of loc ?i] P(3)[of loc ?i] by (auto split: option.splits)
qed

lemma entry_at_apply_op:
  "entry_at (apply_op i op d) l j = (if l = fst op \<and> j = i then snd op else entry_at d l j)"
  by (auto simp: apply_op_def mv_simps split: prod.splits option.splits)

lemma apply_op_sorted: "data_sorted d \<Longrightarrow> data_sorted (apply_op i op d)"
  by (auto simp: apply_op_def data_sorted_ops split: prod.splits option.splits)

lemma apply_op_dom: "d l \<noteq> None \<Longrightarrow> apply_op i op d l \<noteq> None"
  by (auto simp: apply_op_def remove_entry_def insert_entry_def split: prod.splits option.splits)

lemma record_ops_keys:
  assumes "distinct (map fst ws)" "distinct wl"
  shows "(l, x) \<in> set (record_ops v ws wl) \<longleftrightarrow>
    (l \<in> set wl \<or> l \<in> fst ` set ws) \<and> x = map_option (Data (tv_incarnation v)) (map_of ws l)"
proof -
  have mem: "(l, x) \<in> set (record_ops v ws wl) \<longleftrightarrow> l \<in> set wl \<and> map_of ws l = None \<and> x = None
      \<or> (\<exists>val. (l, val) \<in> set ws \<and> x = Some (Data (tv_incarnation v) val))"
    by (auto simp: record_ops_def)
  show ?thesis
  proof (cases "map_of ws l")
    case None
    then have "(l, val) \<notin> set ws" for val using weak_map_of_SomeI by fastforce
    then show ?thesis unfolding mem using None by (auto simp: map_of_eq_None_iff)
  next
    case (Some a)
    then have "(l, val) \<in> set ws \<longleftrightarrow> val = a" for val using map_of_eq_Some_iff[OF assms(1), of l] by (metis option.inject)
    moreover have "l \<in> fst ` set ws" using Some weak_map_of_SomeI map_of_SomeD by force
    ultimately show ?thesis unfolding mem using Some by auto
  qed
qed

text \<open>The changes one after the other are those of \<open>mv_record\<close>.\<close>

lemma fold_apply_op:
  assumes "distinct (map fst ops)"
  shows "entry_at (fold (apply_op i) ops d) l j = (if j = i \<and> l \<in> fst ` set ops then the (map_of ops l) else entry_at d l j)"
  using assms
proof (induction ops arbitrary: d)
  case (Cons op ops)
  then show ?case by (cases op) (auto simp: entry_at_apply_op)
qed simp

lemma record_ops_record:
  assumes wl: "distinct (writes_of m (tv_idx v))" and i: "tv_idx v < length (mv_locations m)"
    and ws: "distinct (map fst ws)" and r: "mv_record v rs ws m = (b, m')"
    and ops: "distinct ops" "set ops = set (record_ops v ws (writes_of m (tv_idx v)))"
  shows "entry_at (fold (apply_op (tv_idx v)) ops (mv_data m)) l (tv_idx v) = entry_at (mv_data m') l (tv_idx v)"
proof -
  have fn: "(l, x) \<in> set ops \<longleftrightarrow> (l \<in> set (writes_of m (tv_idx v)) \<or> l \<in> fst ` set ws)
      \<and> x = map_option (Data (tv_incarnation v)) (map_of ws l)" for l x
    using ops(2) record_ops_keys[OF ws wl] by simp
  then have d: "distinct (map fst ops)"
    using ops(1) by (auto simp: distinct_map inj_on_def)
  then have "l \<in> fst ` set ops \<Longrightarrow> map_of ops l = Some (map_option (Data (tv_incarnation v)) (map_of ws l))"
    using fn by (auto simp: image_iff)
  moreover have "l \<in> fst ` set ops \<longleftrightarrow> (\<exists>x. (l, x) \<in> set ops)" by force
  then have "l \<in> fst ` set ops \<longleftrightarrow> l \<in> set (writes_of m (tv_idx v)) \<or> l \<in> fst ` set ws" using fn by auto
  moreover have "l \<in> fst ` set ws \<longleftrightarrow> map_of ws l \<noteq> None" by (simp add: map_of_eq_None_iff)
  ultimately show ?thesis
    using mv_record_local(8)[OF wl i ws r, of l]
    by (cases "map_of ws l") (simp_all add: fold_apply_op[OF d])
qed

section \<open>The invariant\<close>

text \<open>The jobs a thread can have at a program point.\<close>

fun job_ok :: "pc \<Rightarrow> job \<Rightarrow> bool" where
  "job_ok (Busy (Execution v)) j \<longleftrightarrow> j = NoJob \<or> (\<exists>ops res. j = Recording ops res)"
| "job_ok (Busy (Validation v)) j \<longleftrightarrow> j = NoJob \<or> j = Invalid \<or> (\<exists>rs. j = Checking rs)"
| "job_ok (Aborting v) j \<longleftrightarrow> j = NoJob \<or> (\<exists>ls. j = Converting ls)"
| "job_ok _ j \<longleftrightarrow> j = NoJob"

text \<open>
  The entries of one transaction: only estimates before a recording, the write set of the version
  after it, a mixture in between and while the writes are converted to estimates.
\<close>

definition raw_entries :: "location_hash \<Rightarrow> mv_memory \<Rightarrow> nat \<Rightarrow> bool" where
  "raw_entries b m i \<longleftrightarrow>
     (\<forall>l. entry_at (mv_data m) l i = None
        \<or> entry_at (mv_data m) l i = Some Estimate \<and> (l \<in> set (writes_of m i) \<or> l = b))
     \<and> (\<forall>l \<in> set (writes_of m i). entry_at (mv_data m) l i = Some Estimate)"

definition written :: "tx_version \<Rightarrow> log_entry \<Rightarrow> location_hash \<Rightarrow> entry option" where
  "written v e l = map_option (Data (tv_incarnation v)) (map_of (le_ws e) l)"

definition logged :: "mv_memory \<Rightarrow> (tx_version \<rightharpoonup> log_entry) \<Rightarrow> tx_version \<Rightarrow> log_entry \<Rightarrow> bool" where
  "logged m L v e \<longleftrightarrow> L v = Some e \<and> reads_of m (tv_idx v) = db_read_set (le_db e)
     \<and> set (writes_of m (tv_idx v)) = fst ` set (le_ws e)"

definition full_entries :: "mv_memory \<Rightarrow> (tx_version \<rightharpoonup> log_entry) \<Rightarrow> tx_version \<Rightarrow> bool" where
  "full_entries m L v \<longleftrightarrow> (\<exists>e. logged m L v e \<and> (\<forall>l. entry_at (mv_data m) l (tv_idx v) = written v e l))"

definition result_of :: "revm \<Rightarrow> vm \<Rightarrow> nat \<Rightarrow> log_entry \<Rightarrow> tx_execution_result \<Rightarrow> bool" where
  "result_of R V i e r \<longleftrightarrow> (\<exists>ty. tx_type_try_from R (te_tx_type (vm_txs V ! i)) = Inr ty
     \<and> r = from_raw ty (fst (le_out e)) (snd (le_out e)))"

definition recording ::
    "revm \<Rightarrow> vm \<Rightarrow> mv_memory \<Rightarrow> (tx_version \<rightharpoonup> log_entry) \<Rightarrow> tx_version \<Rightarrow> mem_op list \<Rightarrow> vm_execution_result \<Rightarrow> bool" where
  "recording R V m L v ops res \<longleftrightarrow> (\<exists>e. logged m L v e \<and> result_of R V (tv_idx v) e (vr_execution_result res)
     \<and> distinct (map fst ops)
     \<and> (\<forall>l. l \<notin> fst ` set ops \<longrightarrow> entry_at (mv_data m) l (tv_idx v) = written v e l)
     \<and> (\<forall>(l, x) \<in> set ops. x = written v e l
          \<and> (entry_at (mv_data m) l (tv_idx v) = Some Estimate
             \<or> entry_at (mv_data m) l (tv_idx v) = None \<and> flags_contains (vr_flags res) WroteNewLocation)))"

definition converting :: "mv_memory \<Rightarrow> (tx_version \<rightharpoonup> log_entry) \<Rightarrow> tx_version \<Rightarrow> location_hash list \<Rightarrow> bool" where
  "converting m L v ls \<longleftrightarrow> (\<exists>e. logged m L v e \<and> set ls \<subseteq> fst ` set (le_ws e)
     \<and> (\<forall>l. l \<notin> fst ` set (le_ws e) \<longrightarrow> entry_at (mv_data m) l (tv_idx v) = None)
     \<and> (\<forall>l \<in> fst ` set (le_ws e). entry_at (mv_data m) l (tv_idx v) = Some Estimate
          \<or> l \<in> set ls \<and> entry_at (mv_data m) l (tv_idx v) = written v e l))"

fun owner_entries ::
    "revm \<Rightarrow> vm \<Rightarrow> mv_memory \<Rightarrow> (tx_version \<rightharpoonup> log_entry) \<Rightarrow> tx_version \<Rightarrow> pc \<Rightarrow> job \<Rightarrow> bool" where
  "owner_entries R V m L v p (Recording ops res) \<longleftrightarrow> recording R V m L v ops res"
| "owner_entries R V m L v p (Converting ls) \<longleftrightarrow> converting m L v ls"
| "owner_entries R V m L v (Aborting w) j \<longleftrightarrow> full_entries m L v"
| "owner_entries R V m L v p j \<longleftrightarrow> raw_entries (beneficiary_location_hash V) m (tv_idx v)"

definition tx_entries :: "revm \<Rightarrow> vm \<Rightarrow> pe_run \<Rightarrow> nat \<Rightarrow> bool" where
  "tx_entries R V X i \<longleftrightarrow>
     (let v = version_of (pr_sched X) i; m = pr_mem X; L = pr_log X in
      (\<forall>t. owned (pr_pcs X t) = Some i \<longrightarrow> owner_entries R V m L v (pr_pcs X t) (pr_jobs X t))
      \<and> (\<not> held (pr_pcs X) i \<longrightarrow>
           (if is_done (st_of (pr_sched X) i)
            then full_entries m L v \<and> (\<exists>e r. L v = Some e \<and> execution_results (pr_exec X) ! i = Some r \<and> result_of R V i e r)
            else raw_entries (beneficiary_location_hash V) m i)))"

text \<open>The history: it ends with the memory, and all values come from logged executions.\<close>

definition hist_inv :: "(b256 \<Rightarrow> bytecode) \<Rightarrow> pe_run \<Rightarrow> bool" where
  "hist_inv K X \<longleftrightarrow> pr_hist X \<noteq> [] \<and> last (pr_hist X) = pr_mem X
     \<and> sorted_wrt (\<lambda>m m'. new_bytecodes m \<subseteq>\<^sub>m new_bytecodes m') (pr_hist X)
     \<and> (\<forall>m \<in> set (pr_hist X). data_sorted (mv_data m) \<and> codes_ok K m
          \<and> (\<forall>l i inc val. entry_at (mv_data m) l i = Some (Data inc val) \<longrightarrow>
               (\<exists>e. pr_log X \<lparr>tv_idx = i, tv_incarnation = inc\<rparr> = Some e \<and> map_of (le_ws e) l = Some val)))"

definition log_inv ::
    "revm \<Rightarrow> (evm_env \<Rightarrow> tx_env \<Rightarrow> evm_outcome evm) \<Rightarrow> (b256 \<Rightarrow> bytecode) \<Rightarrow> vm \<Rightarrow> pe_run \<Rightarrow> bool" where
  "log_inv R transact K V X \<longleftrightarrow> (\<forall>v e. pr_log X v = Some e \<longrightarrow>
     vm_ran R transact V (tv_idx v) (le_mems e) (le_out e) (le_db e) (le_ws e)
     \<and> range (le_mems e) \<subseteq> set (pr_hist X)
     \<and> (\<forall>j k. j \<le> k \<longrightarrow> new_bytecodes (le_mems e j) \<subseteq>\<^sub>m new_bytecodes (le_mems e k))
     \<and> state_codes R K (snd (le_out e))
     \<and> (\<forall>l h. map_of (le_ws e) l = Some (VCodeHash h) \<longrightarrow> new_bytecodes (pr_mem X) h \<noteq> None)
     \<and> (v \<in> pr_finished X
        \<or> (\<exists>t ops res. pr_pcs X t = Busy (Execution v) \<and> pr_jobs X t = Recording ops res)))"

text \<open>
  Why a read that is not valid now will still be dealt with: its transaction is going to be
  validated, the thread validating it has not yet come to this read, or a lower transaction is
  being aborted or is recording a new location, which sends the higher ones to validation.
\<close>

fun waits :: "pc \<Rightarrow> job \<Rightarrow> nat \<Rightarrow> location_hash \<times> read_origins \<Rightarrow> bool" where
  "waits (ClaimV k) j i r \<longleftrightarrow> k = i"
| "waits (Busy (Validation v)) (Checking rs) i r \<longleftrightarrow> tv_idx v = i \<and> r \<in> set rs"
| "waits (Busy (Validation v)) j i r \<longleftrightarrow> tv_idx v = i"
| "waits (Aborting v) j i r \<longleftrightarrow> tv_idx v < i"
| "waits (Busy (Execution v)) (Recording ops res) i r \<longleftrightarrow>
     tv_idx v < i \<and> flags_contains (vr_flags res) WroteNewLocation"
| "waits p j i r \<longleftrightarrow> False"

definition unsettled :: "pe_run \<Rightarrow> nat \<Rightarrow> location_hash \<times> read_origins \<Rightarrow> bool" where
  "unsettled X i r \<longleftrightarrow> validation_idx (pr_sched X) \<le> i \<or> (\<exists>t. waits (pr_pcs X t) (pr_jobs X t) i r)"

definition fresh :: "pe_run \<Rightarrow> nat \<Rightarrow> bool" where
  "fresh X i \<longleftrightarrow> (is_done (st_of (pr_sched X) i) \<longrightarrow>
     (\<forall>r \<in> set (reads_of (pr_mem X) i). read_valid (mv_data (pr_mem X)) i r \<or> unsettled X i r))"

definition run_inv ::
    "revm \<Rightarrow> (evm_env \<Rightarrow> tx_env \<Rightarrow> evm_outcome evm) \<Rightarrow> (b256 \<Rightarrow> bytecode) \<Rightarrow> vm \<Rightarrow> pe_run \<Rightarrow> bool" where
  "run_inv R transact K V X \<longleftrightarrow>
     length (mv_locations (pr_mem X)) = sc_block_size (pr_sched X)
     \<and> sc_block_size (pr_sched X) \<le> length (execution_results (pr_exec X))
     \<and> (\<forall>i < sc_block_size (pr_sched X). distinct (writes_of (pr_mem X) i))
     \<and> (\<forall>t. job_ok (pr_pcs X t) (pr_jobs X t))
     \<and> hist_inv K X \<and> log_inv R transact K V X
     \<and> (\<forall>i < sc_block_size (pr_sched X). tx_entries R V X i \<and> fresh X i)"

end
