(* ===== verification/Parallel_Invariant.thy ===== *)
theory Parallel_Invariant
  imports Parallel_Run
begin

text \<open>
  The invariant of the parallel run is kept by every step. The memory steps are treated first, then
  the steps of the scheduler; each changes the entries of at most one transaction, and a read of a
  higher transaction can become invalid only while that transaction is going to be validated again.
\<close>

section \<open>Entries of the other transactions\<close>

definition same_at :: "mv_memory \<Rightarrow> mv_memory \<Rightarrow> nat \<Rightarrow> bool" where
  "same_at m m' i \<longleftrightarrow> mv_locations m' ! i = mv_locations m ! i
     \<and> (\<forall>l. entry_at (mv_data m') l i = entry_at (mv_data m) l i)"

lemma same_atD:
  assumes "same_at m m' i"
  shows "reads_of m' i = reads_of m i" "writes_of m' i = writes_of m i"
    "entry_at (mv_data m') l i = entry_at (mv_data m) l i"
  using assms by (simp_all add: same_at_def reads_of_def writes_of_def)

lemma same_at_refl [simp]: "same_at m m i"
  by (simp add: same_at_def)

lemma entries_frame:
  assumes same: "same_at m m' (tv_idx v)" and log: "L \<subseteq>\<^sub>m L'"
  shows "raw_entries b m (tv_idx v) \<Longrightarrow> raw_entries b m' (tv_idx v)"
    and "full_entries m L v \<Longrightarrow> full_entries m' L' v"
    and "recording R V m L v ops res \<Longrightarrow> recording R V m' L' v ops res"
    and "converting m L v ls \<Longrightarrow> converting m' L' v ls"
proof -
  have e: "logged m L v e \<Longrightarrow> logged m' L' v e" for e
    using log by (auto simp: logged_def same_atD[OF same] map_le_def dom_def)
  show "raw_entries b m (tv_idx v) \<Longrightarrow> raw_entries b m' (tv_idx v)"
    by (simp add: raw_entries_def same_atD[OF same])
  show "full_entries m L v \<Longrightarrow> full_entries m' L' v"
    unfolding full_entries_def same_atD[OF same] using e by blast
  show "recording R V m L v ops res \<Longrightarrow> recording R V m' L' v ops res"
    unfolding recording_def same_atD[OF same] using e by blast
  show "converting m L v ls \<Longrightarrow> converting m' L' v ls"
    unfolding converting_def same_atD[OF same] using e by blast
qed

lemma owner_entries_frame:
  assumes "owner_entries R V m L v p j" "same_at m m' (tv_idx v)" "L \<subseteq>\<^sub>m L'"
  shows "owner_entries R V m' L' v p j"
  using assms(1) entries_frame[OF assms(2,3)]
  by (cases "(R, V, m, L, v, p, j)" rule: owner_entries.cases) auto

lemma tx_entries_frame:
  assumes inv: "tx_entries R V X i" and same: "same_at (pr_mem X) (pr_mem X') i" and log: "pr_log X \<subseteq>\<^sub>m pr_log X'"
    and res: "execution_results (pr_exec X') ! i = execution_results (pr_exec X) ! i"
    and st: "is_done (st_of (pr_sched X') i) = is_done (st_of (pr_sched X) i)"
    and ver: "version_of (pr_sched X') i = version_of (pr_sched X) i
      \<or> \<not> held (pr_pcs X) i \<and> \<not> is_done (st_of (pr_sched X) i)"
    and own: "\<And>t. owned (pr_pcs X t) = Some i \<or> owned (pr_pcs X' t) = Some i \<Longrightarrow>
      pr_pcs X' t = pr_pcs X t \<and> pr_jobs X' t = pr_jobs X t"
  shows "tx_entries R V X' i"
proof -
  let ?v = "version_of (pr_sched X) i" and ?v' = "version_of (pr_sched X') i"
  have h: "held (pr_pcs X') i \<longleftrightarrow> held (pr_pcs X) i" unfolding held_def using own by metis
  have i: "tv_idx ?v = i" "tv_idx ?v' = i" by simp_all
  have O: "owner_entries R V (pr_mem X') (pr_log X') ?v' (pr_pcs X' t) (pr_jobs X' t)" if "owned (pr_pcs X' t) = Some i" for t
  proof -
    have t: "owned (pr_pcs X t) = Some i" "pr_pcs X' t = pr_pcs X t" "pr_jobs X' t = pr_jobs X t" using own that by metis+
    then have "?v' = ?v" using ver by (auto simp: held_def)
    moreover have "owner_entries R V (pr_mem X) (pr_log X) ?v (pr_pcs X t) (pr_jobs X t)"
      using inv t(1) unfolding tx_entries_def Let_def by blast
    ultimately show ?thesis using owner_entries_frame[of R V "pr_mem X" "pr_log X" ?v] same log t i by simp
  qed
  have N: "if is_done (st_of (pr_sched X') i) then full_entries (pr_mem X') (pr_log X') ?v'
      \<and> (\<exists>e r. pr_log X' ?v' = Some e \<and> execution_results (pr_exec X') ! i = Some r \<and> result_of R V i e r)
      else raw_entries (beneficiary_location_hash V) (pr_mem X') i" if nh: "\<not> held (pr_pcs X') i"
  proof (cases "is_done (st_of (pr_sched X) i)")
    case True
    then have v: "?v' = ?v" using ver by blast
    have f: "full_entries (pr_mem X) (pr_log X) ?v"
      and e: "\<exists>e r. pr_log X ?v = Some e \<and> execution_results (pr_exec X) ! i = Some r \<and> result_of R V i e r"
      using inv nh h True unfolding tx_entries_def Let_def by auto
    have "\<exists>e r. pr_log X' ?v = Some e \<and> execution_results (pr_exec X') ! i = Some r \<and> result_of R V i e r"
      using e log res unfolding map_le_def dom_def by (metis (mono_tags, lifting) mem_Collect_eq option.distinct(1))
    then show ?thesis using entries_frame(2)[OF _ log f] same i True st unfolding v by simp
  next
    case False
    then have "raw_entries (beneficiary_location_hash V) (pr_mem X) i"
      using inv nh h unfolding tx_entries_def Let_def by auto
    then show ?thesis using entries_frame(1)[of "pr_mem X" "pr_mem X'" ?v] same log i False st by simp
  qed
  show ?thesis unfolding tx_entries_def Let_def using O N by blast
qed

lemma tx_entries_other:
  assumes "tx_entries R V X i" "pr_pcs X' = (pr_pcs X)(t := p)" "pr_jobs X' = (pr_jobs X)(t := j)"
    and "owned (pr_pcs X t) \<noteq> Some i" "owned p \<noteq> Some i"
    and "same_at (pr_mem X) (pr_mem X') i" "pr_log X \<subseteq>\<^sub>m pr_log X'"
    and "execution_results (pr_exec X') ! i = execution_results (pr_exec X) ! i"
    and "is_done (st_of (pr_sched X') i) = is_done (st_of (pr_sched X) i)"
    and "version_of (pr_sched X') i = version_of (pr_sched X) i
      \<or> \<not> held (pr_pcs X) i \<and> \<not> is_done (st_of (pr_sched X) i)"
  shows "tx_entries R V X' i"
proof (rule tx_entries_frame[OF assms(1,6-10)])
  fix t' assume "owned (pr_pcs X t') = Some i \<or> owned (pr_pcs X' t') = Some i"
  then have "t' \<noteq> t" using assms(2,4,5) by (metis fun_upd_same)
  then show "pr_pcs X' t' = pr_pcs X t' \<and> pr_jobs X' t' = pr_jobs X t'" using assms(2,3) by simp
qed

section \<open>Reads that stay settled\<close>

lemma unsettled_keep:
  assumes u: "unsettled X i r"
    and P: "pr_pcs X' = (pr_pcs X)(t := p)" "pr_jobs X' = (pr_jobs X)(t := j)"
    and idx: "validation_idx (pr_sched X) \<le> i \<Longrightarrow> validation_idx (pr_sched X') \<le> i \<or> waits p j i r"
    and wt: "waits (pr_pcs X t) (pr_jobs X t) i r \<Longrightarrow> validation_idx (pr_sched X') \<le> i \<or> waits p j i r"
  shows "unsettled X' i r"
proof -
  have new: "validation_idx (pr_sched X') \<le> i \<or> waits p j i r \<Longrightarrow> ?thesis"
    unfolding unsettled_def P by (metis fun_upd_same)
  have "\<exists>t'. t' \<noteq> t \<and> waits (pr_pcs X t') (pr_jobs X t') i r \<Longrightarrow> ?thesis"
    unfolding unsettled_def P by (metis fun_upd_other)
  then show ?thesis using u idx wt new unfolding unsettled_def by metis
qed

lemma fresh_frame:
  assumes inv: "fresh X i" and reads: "reads_of (pr_mem X') i = reads_of (pr_mem X) i"
    and st: "is_done (st_of (pr_sched X') i) \<Longrightarrow> is_done (st_of (pr_sched X) i)"
    and P: "pr_pcs X' = (pr_pcs X)(t := p)" "pr_jobs X' = (pr_jobs X)(t := j)"
    and idx: "\<And>r. is_done (st_of (pr_sched X') i) \<Longrightarrow> validation_idx (pr_sched X) \<le> i \<Longrightarrow>
      validation_idx (pr_sched X') \<le> i \<or> waits p j i r"
    and wt: "\<And>r. is_done (st_of (pr_sched X') i) \<Longrightarrow> r \<in> set (reads_of (pr_mem X) i) \<Longrightarrow> waits (pr_pcs X t) (pr_jobs X t) i r \<Longrightarrow>
      read_valid (mv_data (pr_mem X')) i r \<or> validation_idx (pr_sched X') \<le> i \<or> waits p j i r"
    and valid: "\<And>r. is_done (st_of (pr_sched X') i) \<Longrightarrow> read_valid (mv_data (pr_mem X)) i r \<Longrightarrow>
      read_valid (mv_data (pr_mem X')) i r \<or> validation_idx (pr_sched X') \<le> i \<or> waits p j i r"
  shows "fresh X' i"
  unfolding fresh_def reads
proof (intro impI ballI)
  fix r assume d: "is_done (st_of (pr_sched X') i)" and r: "r \<in> set (reads_of (pr_mem X) i)"
  have new: "validation_idx (pr_sched X') \<le> i \<or> waits p j i r \<Longrightarrow> unsettled X' i r"
    unfolding unsettled_def P by (metis fun_upd_same)
  consider (v) "read_valid (mv_data (pr_mem X)) i r" | (w) "waits (pr_pcs X t) (pr_jobs X t) i r"
    | (u) "unsettled X i r" "\<not> waits (pr_pcs X t) (pr_jobs X t) i r"
    using inv st[OF d] r unfolding fresh_def by blast
  then show "read_valid (mv_data (pr_mem X')) i r \<or> unsettled X' i r"
  proof cases
    case v
    then show ?thesis using valid[OF d] new by blast
  next
    case w
    then show ?thesis using wt[OF d r] new by blast
  next
    case u
    then show ?thesis using unsettled_keep[OF u(1) P] idx[OF d] by blast
  qed
qed

section \<open>The history and the log\<close>

lemma hist_last:
  assumes "hist_inv K X" "m \<in> set (pr_hist X)"
  shows "new_bytecodes m \<subseteq>\<^sub>m new_bytecodes (pr_mem X)"
proof -
  have H: "pr_hist X \<noteq> []" "last (pr_hist X) = pr_mem X" "sorted_wrt (\<lambda>m m'. new_bytecodes m \<subseteq>\<^sub>m new_bytecodes m') (pr_hist X)"
    using assms(1) by (simp_all add: hist_inv_def)
  then obtain H' where h: "pr_hist X = H' @ [pr_mem X]" by (metis append_butlast_last_id)
  then show ?thesis using H(3) assms(2) by (auto simp: sorted_wrt_append)
qed

lemma hist_push:
  assumes inv: "hist_inv K X" and h: "pr_hist X' = pr_hist X @ [pr_mem X']" and log: "pr_log X \<subseteq>\<^sub>m pr_log X'"
    and codes: "new_bytecodes (pr_mem X) \<subseteq>\<^sub>m new_bytecodes (pr_mem X')" "codes_ok K (pr_mem X')"
    and srt: "data_sorted (mv_data (pr_mem X'))"
    and src: "\<And>l i inc val. entry_at (mv_data (pr_mem X')) l i = Some (Data inc val) \<Longrightarrow>
      \<exists>e. pr_log X' \<lparr>tv_idx = i, tv_incarnation = inc\<rparr> = Some e \<and> map_of (le_ws e) l = Some val"
  shows "hist_inv K X'"
proof -
  have old: "\<exists>e. pr_log X' v = Some e \<and> map_of (le_ws e) l = Some val"
    if "\<exists>e. pr_log X v = Some e \<and> map_of (le_ws e) l = Some val" for v l val
    using that log unfolding map_le_def dom_def by (metis (mono_tags, lifting) mem_Collect_eq option.distinct(1))
  have le: "new_bytecodes m \<subseteq>\<^sub>m new_bytecodes (pr_mem X')" if "m \<in> set (pr_hist X)" for m
    using map_le_trans[OF hist_last[OF inv that] codes(1)] .
  have "sorted_wrt (\<lambda>m m'. new_bytecodes m \<subseteq>\<^sub>m new_bytecodes m') (pr_hist X')"
    using inv le unfolding h hist_inv_def by (simp add: sorted_wrt_append)
  moreover have "data_sorted (mv_data m) \<and> codes_ok K m
      \<and> (\<forall>l i inc val. entry_at (mv_data m) l i = Some (Data inc val) \<longrightarrow>
           (\<exists>e. pr_log X' \<lparr>tv_idx = i, tv_incarnation = inc\<rparr> = Some e \<and> map_of (le_ws e) l = Some val))"
    if m: "m \<in> set (pr_hist X')" for m
  proof (cases "m = pr_mem X'")
    case True
    then show ?thesis using srt codes(2) src by blast
  next
    case False
    then have "m \<in> set (pr_hist X)" using m h by simp
    then have "data_sorted (mv_data m) \<and> codes_ok K m
      \<and> (\<forall>l i inc val. entry_at (mv_data m) l i = Some (Data inc val) \<longrightarrow>
           (\<exists>e. pr_log X \<lparr>tv_idx = i, tv_incarnation = inc\<rparr> = Some e \<and> map_of (le_ws e) l = Some val))"
      using inv unfolding hist_inv_def by blast
    then show ?thesis using old by blast
  qed
  ultimately show ?thesis unfolding hist_inv_def using h by simp
qed

lemma hist_mem:
  assumes "hist_inv K X"
  shows "data_sorted (mv_data (pr_mem X))" "codes_ok K (pr_mem X)" "pr_mem X \<in> set (pr_hist X)"
    and "entry_at (mv_data (pr_mem X)) l i = Some (Data inc val) \<Longrightarrow>
      \<exists>e. pr_log X \<lparr>tv_idx = i, tv_incarnation = inc\<rparr> = Some e \<and> map_of (le_ws e) l = Some val"
proof -
  show m: "pr_mem X \<in> set (pr_hist X)" using assms unfolding hist_inv_def by (metis last_in_set)
  show "data_sorted (mv_data (pr_mem X))" "codes_ok K (pr_mem X)"
    "entry_at (mv_data (pr_mem X)) l i = Some (Data inc val) \<Longrightarrow>
      \<exists>e. pr_log X \<lparr>tv_idx = i, tv_incarnation = inc\<rparr> = Some e \<and> map_of (le_ws e) l = Some val"
    using assms m unfolding hist_inv_def by blast+
qed

lemma hist_right_mems:
  assumes "hist_inv K X" "moments ks (pr_hist X)"
  shows "right_mems K (mems_of (pr_hist X) ks)" "range (mems_of (pr_hist X) ks) \<subseteq> set (pr_hist X)"
proof -
  let ?f = "\<lambda>j. if j < length ks then ks ! j else last ks"
  have ks: "ks \<noteq> []" "sorted ks" "last ks < length (pr_hist X)" using assms(2) by (auto simp: moments_def)
  have le: "?f j \<le> last ks" for j
    using ks(1,2) sorted_nth_mono[of ks j "length ks - 1"] by (simp add: last_conv_nth)
  then have lt: "?f j < length (pr_hist X)" for j using ks(3) le_less_trans by blast
  then have mem: "mems_of (pr_hist X) ks j \<in> set (pr_hist X)" for j unfolding mems_of_def by (rule nth_mem)
  then show "range (mems_of (pr_hist X) ks) \<subseteq> set (pr_hist X)" by blast
  have mono: "?f j \<le> ?f k" if "j \<le> k" for j k
    using that ks(2) le[of j] by (auto simp: sorted_nth_mono)
  have srt: "sorted_wrt (\<lambda>m m'. new_bytecodes m \<subseteq>\<^sub>m new_bytecodes m') (pr_hist X)"
    using assms(1) by (simp add: hist_inv_def)
  have "new_bytecodes (pr_hist X ! a) \<subseteq>\<^sub>m new_bytecodes (pr_hist X ! b)" if "a \<le> b" "b < length (pr_hist X)" for a b
    using that sorted_wrt_nth_less[OF srt, of a b] by (cases "a = b") simp_all
  then have "new_bytecodes (mems_of (pr_hist X) ks j) \<subseteq>\<^sub>m new_bytecodes (mems_of (pr_hist X) ks k)" if "j \<le> k" for j k
    using mono[OF that] lt[of k] unfolding mems_of_def by blast
  then show "right_mems K (mems_of (pr_hist X) ks)"
    using assms(1) mem unfolding right_mems_def hist_inv_def by blast
qed

lemma log_keep:
  assumes inv: "log_inv R transact K V X" and log: "pr_log X' = pr_log X"
    and hist: "set (pr_hist X) \<subseteq> set (pr_hist X')" and codes: "new_bytecodes (pr_mem X) \<subseteq>\<^sub>m new_bytecodes (pr_mem X')"
    and fin: "pr_finished X \<subseteq> pr_finished X'"
    and P: "pr_pcs X' = (pr_pcs X)(t := p)" "pr_jobs X' = (pr_jobs X)(t := j)"
    and own: "\<And>v ops res. pr_pcs X t = Busy (Execution v) \<Longrightarrow> pr_jobs X t = Recording ops res \<Longrightarrow>
      v \<in> pr_finished X' \<or> p = Busy (Execution v) \<and> (\<exists>ops' res'. j = Recording ops' res')"
  shows "log_inv R transact K V X'"
  unfolding log_inv_def log
proof (intro allI impI)
  fix v e assume "pr_log X v = Some e"
  then have I: "vm_ran R transact V (tv_idx v) (le_mems e) (le_out e) (le_db e) (le_ws e)"
      "range (le_mems e) \<subseteq> set (pr_hist X)"
      "\<forall>j k. j \<le> k \<longrightarrow> new_bytecodes (le_mems e j) \<subseteq>\<^sub>m new_bytecodes (le_mems e k)"
      "state_codes R K (snd (le_out e))"
      "\<forall>l h. map_of (le_ws e) l = Some (VCodeHash h) \<longrightarrow> new_bytecodes (pr_mem X) h \<noteq> None"
      "v \<in> pr_finished X \<or> (\<exists>t ops res. pr_pcs X t = Busy (Execution v) \<and> pr_jobs X t = Recording ops res)"
    using inv unfolding log_inv_def by blast+
  have "new_bytecodes (pr_mem X) h \<noteq> None \<Longrightarrow> new_bytecodes (pr_mem X') h \<noteq> None" for h
    using codes unfolding map_le_def dom_def by (metis (mono_tags, lifting) mem_Collect_eq)
  then have c: "\<forall>l h. map_of (le_ws e) l = Some (VCodeHash h) \<longrightarrow> new_bytecodes (pr_mem X') h \<noteq> None" using I(5) by blast
  have w: "v \<in> pr_finished X' \<or> (\<exists>t ops res. pr_pcs X' t = Busy (Execution v) \<and> pr_jobs X' t = Recording ops res)"
  proof (cases "v \<in> pr_finished X")
    case True
    then show ?thesis using fin by blast
  next
    case False
    then obtain t' ops res where t': "pr_pcs X t' = Busy (Execution v)" "pr_jobs X t' = Recording ops res" using I(6) by blast
    show ?thesis
    proof (cases "t' = t")
      case True
      then show ?thesis using own[of v ops res] t' unfolding P by (metis fun_upd_same)
    next
      case False
      then show ?thesis using t' unfolding P by (metis fun_upd_other)
    qed
  qed
  show "vm_ran R transact V (tv_idx v) (le_mems e) (le_out e) (le_db e) (le_ws e)
     \<and> range (le_mems e) \<subseteq> set (pr_hist X')
     \<and> (\<forall>j k. j \<le> k \<longrightarrow> new_bytecodes (le_mems e j) \<subseteq>\<^sub>m new_bytecodes (le_mems e k))
     \<and> state_codes R K (snd (le_out e))
     \<and> (\<forall>l h. map_of (le_ws e) l = Some (VCodeHash h) \<longrightarrow> new_bytecodes (pr_mem X') h \<noteq> None)
     \<and> (v \<in> pr_finished X' \<or> (\<exists>t ops res. pr_pcs X' t = Busy (Execution v) \<and> pr_jobs X' t = Recording ops res))"
    using I(1-4) hist c w by blast
qed

section \<open>Steps on the memory\<close>

lemma run_invD:
  assumes "run_inv R transact K V X"
  shows "length (mv_locations (pr_mem X)) = sc_block_size (pr_sched X)"
    and "sc_block_size (pr_sched X) \<le> length (execution_results (pr_exec X))"
    and "i < sc_block_size (pr_sched X) \<Longrightarrow> distinct (writes_of (pr_mem X) i)"
    and "job_ok (pr_pcs X t) (pr_jobs X t)" and "hist_inv K X" and "log_inv R transact K V X"
    and "i < sc_block_size (pr_sched X) \<Longrightarrow> tx_entries R V X i" and "i < sc_block_size (pr_sched X) \<Longrightarrow> fresh X i"
  using assms unfolding run_inv_def by blast+

lemma run_invI:
  assumes inv: "run_inv R transact K V X"
    and size: "sc_block_size (pr_sched X') = sc_block_size (pr_sched X)"
      "length (mv_locations (pr_mem X')) = length (mv_locations (pr_mem X))"
      "length (execution_results (pr_exec X')) = length (execution_results (pr_exec X))"
    and wl: "\<And>i. i < sc_block_size (pr_sched X) \<Longrightarrow> distinct (writes_of (pr_mem X') i)"
    and P: "pr_pcs X' = (pr_pcs X)(t := p)" "pr_jobs X' = (pr_jobs X)(t := j)" and job: "job_ok p j"
    and parts: "hist_inv K X'" "log_inv R transact K V X'"
    and tx: "\<And>i. i < sc_block_size (pr_sched X) \<Longrightarrow> tx_entries R V X' i"
    and fr: "\<And>i. i < sc_block_size (pr_sched X) \<Longrightarrow> fresh X' i"
  shows "run_inv R transact K V X'"
proof -
  have "job_ok (pr_pcs X' t') (pr_jobs X' t')" for t' using run_invD(4)[OF inv, of t'] job unfolding P by simp
  then show ?thesis unfolding run_inv_def size using run_invD(1,2)[OF inv] wl parts tx fr by blast
qed

lemma upd_same: "P t = p \<Longrightarrow> P = P(t := p)"
  by auto

lemma tx_entriesD:
  assumes "tx_entries R V X i"
  shows "owned (pr_pcs X t) = Some i \<Longrightarrow>
      owner_entries R V (pr_mem X) (pr_log X) (version_of (pr_sched X) i) (pr_pcs X t) (pr_jobs X t)"
    and "\<not> held (pr_pcs X) i \<Longrightarrow> is_done (st_of (pr_sched X) i) \<Longrightarrow> full_entries (pr_mem X) (pr_log X) (version_of (pr_sched X) i)
      \<and> (\<exists>e r. pr_log X (version_of (pr_sched X) i) = Some e \<and> execution_results (pr_exec X) ! i = Some r \<and> result_of R V i e r)"
    and "\<not> held (pr_pcs X) i \<Longrightarrow> \<not> is_done (st_of (pr_sched X) i) \<Longrightarrow> raw_entries (beneficiary_location_hash V) (pr_mem X) i"
  using assms unfolding tx_entries_def Let_def by simp_all

text \<open>A transaction owned by a thread: its entries are those the thread says.\<close>

lemma tx_entries_owned:
  assumes inv: "inv_pcs (pr_sched X') (pr_pcs X')" and own: "owned (pr_pcs X' t) = Some i"
    and e: "owner_entries R V (pr_mem X') (pr_log X') (version_of (pr_sched X') i) (pr_pcs X' t) (pr_jobs X' t)"
  shows "tx_entries R V X' i"
proof -
  have "t' = t" if "owned (pr_pcs X' t') = Some i" for t' using inv own that unfolding inv_pcs_def by blast
  moreover have "held (pr_pcs X') i" using own by (auto simp: held_def)
  ultimately show ?thesis using e unfolding tx_entries_def Let_def by blast
qed

lemma executing_version:
  assumes "inv_pcs s P" "P t = Busy (Execution v)"
  shows "tv_idx v < sc_block_size s" "version_of s (tv_idx v) = v" "st_of s (tv_idx v) = Executing"
proof -
  have ok: "pc_ok s (P t)" using assms(1) by (simp add: inv_pcs_def)
  then show "tv_idx v < sc_block_size s" "st_of s (tv_idx v) = Executing" using assms(2) by auto
  show "version_of s (tv_idx v) = v" using ok assms(2) by (cases v) (simp add: version_of_def)
qed

lemma aborting_version:
  assumes "inv_pcs s P" "P t = Aborting v"
  shows "tv_idx v < sc_block_size s" "st_of s (tv_idx v) = Aborted"
proof -
  have "pc_ok s (P t)" using assms(1) by (simp add: inv_pcs_def)
  then show "tv_idx v < sc_block_size s" "st_of s (tv_idx v) = Aborted" using assms(2) by auto
qed

lemma check_step_inv:
  assumes inv: "run_inv R transact K V X" and P: "pr_pcs X t = Busy (Validation v)"
    and j: "job_ok (Busy (Validation v)) j"
    and w: "\<And>r. r \<in> set (reads_of (pr_mem X) (tv_idx v)) \<Longrightarrow> waits (Busy (Validation v)) (pr_jobs X t) (tv_idx v) r \<Longrightarrow>
      read_valid (mv_data (pr_mem X)) (tv_idx v) r \<or> waits (Busy (Validation v)) j (tv_idx v) r"
  shows "run_inv R transact K V (put_job t j X)"
proof -
  have P': "pr_pcs (put_job t j X) = (pr_pcs X)(t := Busy (Validation v))" "pr_jobs (put_job t j X) = (pr_jobs X)(t := j)"
    using P by (auto simp: put_job_def)
  have idx: "i = tv_idx v" if "waits (Busy (Validation v)) (pr_jobs X t) i r" for i r
    using that by (cases "pr_jobs X t") auto
  show ?thesis
  proof (rule run_invI[OF inv _ _ _ _ P' j])
    show "hist_inv K (put_job t j X)" using run_invD(5)[OF inv] by (simp add: hist_inv_def put_job_def)
    show "log_inv R transact K V (put_job t j X)"
      using run_invD(6)[OF inv] P by (intro log_keep[OF _ _ _ _ _ P']) (auto simp: put_job_def)
    fix i assume i: "i < sc_block_size (pr_sched X)"
    show "distinct (writes_of (pr_mem (put_job t j X)) i)" using run_invD(3)[OF inv i] by (simp add: put_job_def)
    show "tx_entries R V (put_job t j X) i"
      by (rule tx_entries_other[OF run_invD(7)[OF inv i] P']) (simp_all add: P put_job_def)
    show "fresh (put_job t j X) i"
    proof (rule fresh_frame[OF run_invD(8)[OF inv i] _ _ P'])
      fix r assume r: "r \<in> set (reads_of (pr_mem X) i)" "waits (pr_pcs X t) (pr_jobs X t) i r"
      then have "i = tv_idx v" using idx[of i r] P by simp
      then show "read_valid (mv_data (pr_mem (put_job t j X))) i r \<or> validation_idx (pr_sched (put_job t j X)) \<le> i
          \<or> waits (Busy (Validation v)) j i r"
        using w[of r] r P by (auto simp: put_job_def)
    qed (auto simp: put_job_def)
  qed (auto simp: put_job_def)
qed

lemma convert_begins_inv:
  assumes inv: "run_inv R transact K V X" and s: "inv_pcs (pr_sched X) (pr_pcs X)"
    and P: "pr_pcs X t = Aborting v" "pr_jobs X t = NoJob"
  shows "run_inv R transact K V (put_job t (Converting (writes_of (pr_mem X) (tv_idx v))) X)" (is "run_inv _ _ _ _ ?X")
proof -
  let ?j = "Converting (writes_of (pr_mem X) (tv_idx v))"
  have P': "pr_pcs ?X = (pr_pcs X)(t := Aborting v)" "pr_jobs ?X = (pr_jobs X)(t := ?j)"
    using P by (auto simp: put_job_def)
  show ?thesis
  proof (rule run_invI[OF inv _ _ _ _ P'])
    show "hist_inv K ?X" using run_invD(5)[OF inv] by (simp add: hist_inv_def put_job_def)
    show "log_inv R transact K V ?X"
      using run_invD(6)[OF inv] P by (intro log_keep[OF _ _ _ _ _ P']) (auto simp: put_job_def)
    fix i assume i: "i < sc_block_size (pr_sched X)"
    show "distinct (writes_of (pr_mem ?X) i)" using run_invD(3)[OF inv i] by (simp add: put_job_def)
    show "tx_entries R V ?X i"
    proof (cases "i = tv_idx v")
      case True
      let ?w = "version_of (pr_sched X) i"
      have "full_entries (pr_mem X) (pr_log X) ?w"
        using tx_entriesD(1)[OF run_invD(7)[OF inv i], of t] P True by simp
      then obtain e where e: "logged (pr_mem X) (pr_log X) ?w e" "\<And>l. entry_at (mv_data (pr_mem X)) l i = written ?w e l"
        by (auto simp: full_entries_def)
      have "converting (pr_mem X) (pr_log X) ?w (writes_of (pr_mem X) i)"
        unfolding converting_def
      proof (intro exI conjI allI ballI impI)
        show "logged (pr_mem X) (pr_log X) ?w e" by (rule e)
        show "set (writes_of (pr_mem X) i) \<subseteq> fst ` set (le_ws e)" using e(1) by (simp add: logged_def)
        show "entry_at (mv_data (pr_mem X)) l (tv_idx ?w) = None" if "l \<notin> fst ` set (le_ws e)" for l
          using that e(2)[of l] by (simp add: written_def map_of_eq_None_iff)
        show "entry_at (mv_data (pr_mem X)) l (tv_idx ?w) = Some Estimate
            \<or> l \<in> set (writes_of (pr_mem X) i) \<and> entry_at (mv_data (pr_mem X)) l (tv_idx ?w) = written ?w e l"
          if "l \<in> fst ` set (le_ws e)" for l
          using that e by (simp add: logged_def)
      qed
      then show ?thesis
        using s P True by (intro tx_entries_owned[where t = t]) (simp_all add: put_job_def)
    next
      case False
      then show ?thesis
        by (intro tx_entries_other[OF run_invD(7)[OF inv i] P']) (simp_all add: P put_job_def)
    qed
    show "fresh ?X i"
      using P by (intro fresh_frame[OF run_invD(8)[OF inv i] _ _ P']) (auto simp: put_job_def)
  qed (auto simp: put_job_def)
qed

text \<open>A step that changes the data of the memory at one transaction, which is not done.\<close>

lemma data_step_inv:
  assumes inv: "run_inv R transact K V X"
    and P: "pr_pcs X t = p" and own: "owned p = Some k" and s: "inv_pcs (pr_sched X) (pr_pcs X)"
    and d: "data_sorted d" "\<And>l. mv_data (pr_mem X) l \<noteq> None \<Longrightarrow> d l \<noteq> None"
    and same: "\<And>l i. i \<noteq> k \<Longrightarrow> entry_at d l i = entry_at (mv_data (pr_mem X)) l i"
    and val: "\<And>l inc val. entry_at d l k = Some (Data inc val) \<Longrightarrow>
      \<exists>e. pr_log X \<lparr>tv_idx = k, tv_incarnation = inc\<rparr> = Some e \<and> map_of (le_ws e) l = Some val"
    and j: "job_ok p j" "\<And>v ops res. p = Busy (Execution v) \<Longrightarrow> pr_jobs X t = Recording ops res \<Longrightarrow> \<exists>ops res. j = Recording ops res"
    and w: "\<And>i r. waits p (pr_jobs X t) i r \<Longrightarrow> waits p j i r"
    and e: "owner_entries R V ((pr_mem X)\<lparr>mv_data := d\<rparr>) (pr_log X) (version_of (pr_sched X) k) p j"
    and valid: "\<And>i r. k < i \<Longrightarrow> read_valid (mv_data (pr_mem X)) i r \<Longrightarrow> read_valid d i r \<or> waits p j i r"
  shows "run_inv R transact K V (put_job t j (put_mem ((pr_mem X)\<lparr>mv_data := d\<rparr>) X))" (is "run_inv _ _ _ _ ?X")
proof -
  let ?m = "(pr_mem X)\<lparr>mv_data := d\<rparr>"
  have P': "pr_pcs ?X = (pr_pcs X)(t := p)" "pr_jobs ?X = (pr_jobs X)(t := j)"
    using P by (auto simp: put_job_def put_mem_def)
  have X: "pr_mem ?X = ?m" "pr_log ?X = pr_log X" "pr_sched ?X = pr_sched X" "pr_hist ?X = pr_hist X @ [?m]"
      "pr_exec ?X = pr_exec X" "pr_finished ?X = pr_finished X"
    by (simp_all add: put_job_def put_mem_def)
  note H = run_invD(5)[OF inv]
  have k: "\<not> is_done (st_of (pr_sched X) k)"
    using owned_status[OF s, of t k] P own by auto
  have src: "\<exists>e. pr_log X \<lparr>tv_idx = i, tv_incarnation = inc\<rparr> = Some e \<and> map_of (le_ws e) l = Some val"
    if "entry_at d l i = Some (Data inc val)" for l i inc val
  proof (cases "i = k")
    case True
    then show ?thesis using val[of l inc val] that by simp
  next
    case False
    then show ?thesis using same[OF False, of l] hist_mem(4)[OF H, of l i inc val] that by simp
  qed
  have "new_bytecodes (pr_mem X) h \<noteq> None" if "entry_at d l i = Some (Data inc (VCodeHash h))" for l i inc h
    using src[OF that] run_invD(6)[OF inv] unfolding log_inv_def by blast
  then have codes: "codes_ok K ?m" using hist_mem(2)[OF H] by (simp add: codes_ok_def)
  show ?thesis
  proof (rule run_invI[OF inv _ _ _ _ P' j(1)])
    show "hist_inv K ?X"
      by (rule hist_push[OF H]) (use X codes d(1) src in auto)
    show "log_inv R transact K V ?X"
      using run_invD(6)[OF inv] P j(2) X by (intro log_keep[OF _ _ _ _ _ P']) auto
    fix i assume i: "i < sc_block_size (pr_sched X)"
    show "distinct (writes_of (pr_mem ?X) i)" using run_invD(3)[OF inv i] X by (simp add: writes_of_def)
    show "tx_entries R V ?X i"
    proof (cases "i = k")
      case True
      show ?thesis unfolding True
        by (rule tx_entries_owned[where t = t]) (use s P own e X P' in \<open>simp_all add: fun_upd_idem\<close>)
    next
      case False
      have sm: "same_at (pr_mem X) (pr_mem ?X) i" using same[OF False] X by (simp add: same_at_def)
      show ?thesis
        by (rule tx_entries_other[OF run_invD(7)[OF inv i] P' _ _ sm]) (use False own X P in simp_all)
    qed
    show "fresh ?X i"
    proof (cases "i = k")
      case True
      then show ?thesis using k X by (simp add: fresh_def)
    next
      case False
      show ?thesis
      proof (rule fresh_frame[OF run_invD(8)[OF inv i] _ _ P'])
        fix r assume v: "read_valid (mv_data (pr_mem X)) i r"
        show "read_valid (mv_data (pr_mem ?X)) i r \<or> validation_idx (pr_sched ?X) \<le> i \<or> waits p j i r"
        proof (cases "k < i")
          case True
          then show ?thesis using valid[OF True v] X by auto
        next
          case below: False
          have "read_valid d i r"
          proof (cases r)
            case (Pair l os)
            have "entry_at d l i' = entry_at (mv_data (pr_mem X)) l i'" if "i' < i" for i'
              using same[of i'] below that by simp
            then show ?thesis using read_valid_below[OF hist_mem(1)[OF H] d(1)] d(2) v Pair by blast
          qed
          then show ?thesis using X by simp
        qed
      qed (use X P w in \<open>auto simp: reads_of_def\<close>)
    qed
  qed (use X in auto)
qed

lemma record_one_inv:
  assumes inv: "run_inv R transact K V X" and s: "inv_pcs (pr_sched X) (pr_pcs X)"
    and P: "pr_pcs X t = Busy (Execution v)" "pr_jobs X t = Recording (op # ops) res"
  shows "run_inv R transact K V (put_job t (Recording ops res)
    (put_mem ((pr_mem X)\<lparr>mv_data := apply_op (tv_idx v) op (mv_data (pr_mem X))\<rparr>) X))"
proof -
  let ?d = "mv_data (pr_mem X)" and ?i = "tv_idx v"
  note E = executing_version[OF s P(1)] and srt = hist_mem(1)[OF run_invD(5)[OF inv]]
  have "recording R V (pr_mem X) (pr_log X) v (op # ops) res"
    using tx_entriesD(1)[OF run_invD(7)[OF inv E(1)], of t] P E(2) by simp
  then obtain e where e: "logged (pr_mem X) (pr_log X) v e" "result_of R V ?i e (vr_execution_result res)"
      "distinct (map fst (op # ops))" "\<And>l. l \<notin> fst ` set (op # ops) \<Longrightarrow> entry_at ?d l ?i = written v e l"
      "\<And>l x. (l, x) \<in> set (op # ops) \<Longrightarrow> x = written v e l \<and> (entry_at ?d l ?i = Some Estimate
             \<or> entry_at ?d l ?i = None \<and> flags_contains (vr_flags res) WroteNewLocation)"
    unfolding recording_def by blast
  have op: "snd op = written v e (fst op)" "entry_at ?d (fst op) ?i = Some Estimate
      \<or> entry_at ?d (fst op) ?i = None \<and> flags_contains (vr_flags res) WroteNewLocation"
    using e(5)[of "fst op" "snd op"] by simp_all
  show ?thesis
  proof (rule data_step_inv[OF inv P(1) _ s])
    show "owned (Busy (Execution v)) = Some ?i" by simp
    show "data_sorted (apply_op ?i op ?d)" by (rule apply_op_sorted[OF srt])
    show "?d l \<noteq> None \<Longrightarrow> apply_op ?i op ?d l \<noteq> None" for l by (rule apply_op_dom)
    show "i \<noteq> ?i \<Longrightarrow> entry_at (apply_op ?i op ?d) l i = entry_at ?d l i" for l i by (simp add: entry_at_apply_op)
    show "\<exists>e. pr_log X \<lparr>tv_idx = ?i, tv_incarnation = inc\<rparr> = Some e \<and> map_of (le_ws e) l = Some val"
      if "entry_at (apply_op ?i op ?d) l ?i = Some (Data inc val)" for l inc val
    proof (cases "l = fst op")
      case True
      then have "written v e l = Some (Data inc val)" using that op(1) by (simp add: entry_at_apply_op)
      then have "\<lparr>tv_idx = ?i, tv_incarnation = inc\<rparr> = v" "map_of (le_ws e) l = Some val"
        by (auto simp: written_def)
      then show ?thesis using e(1) by (simp add: logged_def)
    next
      case False
      then show ?thesis using that hist_mem(4)[OF run_invD(5)[OF inv]] by (simp add: entry_at_apply_op)
    qed
    show "owner_entries R V ((pr_mem X)\<lparr>mv_data := apply_op ?i op ?d\<rparr>) (pr_log X) (version_of (pr_sched X) ?i)
        (Busy (Execution v)) (Recording ops res)"
      unfolding E(2) owner_entries.simps recording_def
    proof (intro exI conjI allI impI ballI)
      show "logged ((pr_mem X)\<lparr>mv_data := apply_op ?i op ?d\<rparr>) (pr_log X) v e"
        using e(1) by (simp add: logged_def reads_of_def writes_of_def)
      show "result_of R V ?i e (vr_execution_result res)" by (rule e(2))
      show "distinct (map fst ops)" using e(3) by simp
      show "entry_at (mv_data ((pr_mem X)\<lparr>mv_data := apply_op ?i op ?d\<rparr>)) l ?i = written v e l"
        if "l \<notin> fst ` set ops" for l
        using e(4)[of l] op(1) that by (simp add: entry_at_apply_op)
      fix p assume p: "p \<in> set ops"
      then have "fst p \<noteq> fst op" using e(3) by (metis distinct.simps(2) imageI list.set_map list.simps(9))
      then show "case p of (l, x) \<Rightarrow> x = written v e l
          \<and> (entry_at (mv_data ((pr_mem X)\<lparr>mv_data := apply_op ?i op ?d\<rparr>)) l ?i = Some Estimate
             \<or> entry_at (mv_data ((pr_mem X)\<lparr>mv_data := apply_op ?i op ?d\<rparr>)) l ?i = None
               \<and> flags_contains (vr_flags res) WroteNewLocation)"
        using e(5)[of "fst p" "snd p"] p by (cases p) (simp add: entry_at_apply_op)
    qed
    show "read_valid (apply_op ?i op ?d) i r \<or> waits (Busy (Execution v)) (Recording ops res) i r"
      if "?i < i" "read_valid ?d i r" for i r
    proof (cases "flags_contains (vr_flags res) WroteNewLocation")
      case True
      then show ?thesis using that(1) by simp
    next
      case False
      obtain l os where r: "r = (l, os)" by force
      have "read_valid (apply_op ?i op ?d) i (l, os)"
      proof (rule read_valid_fill[OF srt apply_op_sorted[OF srt] apply_op_dom])
        show "k \<noteq> ?i \<Longrightarrow> entry_at (apply_op ?i op ?d) l k = entry_at ?d l k" for k by (simp add: entry_at_apply_op)
        show "entry_at (apply_op ?i op ?d) l ?i = entry_at ?d l ?i \<or> entry_at ?d l ?i = Some Estimate"
          using op(2) False by (auto simp: entry_at_apply_op)
      qed (use that(2) r in simp_all)
      then show ?thesis using r by simp
    qed
  qed (simp_all add: P)
qed

lemma convert_one_inv:
  assumes inv: "run_inv R transact K V X" and s: "inv_pcs (pr_sched X) (pr_pcs X)"
    and P: "pr_pcs X t = Aborting v" "pr_jobs X t = Converting (l # ls)"
  shows "run_inv R transact K V (put_job t (Converting ls)
    (put_mem ((pr_mem X)\<lparr>mv_data := mark_estimate (tv_idx v) l (mv_data (pr_mem X))\<rparr>) X))"
proof -
  let ?d = "mv_data (pr_mem X)" and ?i = "tv_idx v" let ?w = "version_of (pr_sched X) ?i"
  note A = aborting_version[OF s P(1)] and srt = hist_mem(1)[OF run_invD(5)[OF inv]]
  have "converting (pr_mem X) (pr_log X) ?w (l # ls)"
    using tx_entriesD(1)[OF run_invD(7)[OF inv A(1)], of t] P by simp
  then obtain e where e: "logged (pr_mem X) (pr_log X) ?w e" "set (l # ls) \<subseteq> fst ` set (le_ws e)"
      "\<And>l. l \<notin> fst ` set (le_ws e) \<Longrightarrow> entry_at ?d l ?i = None"
      "\<And>l'. l' \<in> fst ` set (le_ws e) \<Longrightarrow> entry_at ?d l' ?i = Some Estimate
          \<or> l' \<in> set (l # ls) \<and> entry_at ?d l' ?i = written ?w e l'"
    unfolding converting_def by auto
  have l: "l \<in> fst ` set (le_ws e)" using e(2) by simp
  then have "map_of (le_ws e) l \<noteq> None" by (simp add: map_of_eq_None_iff)
  then have "entry_at ?d l ?i \<noteq> None" using e(4)[OF l] by (auto simp: written_def)
  then have dl: "?d l \<noteq> None" by (rule entry_at_some_data)
  have dom: "?d l' \<noteq> None \<Longrightarrow> mark_estimate ?i l ?d l' \<noteq> None" for l'
    by (auto simp: mark_estimate_def split: option.splits)
  note est = entry_at_estimate[of ?i l ?d]
  show ?thesis
  proof (rule data_step_inv[OF inv P(1) _ s])
    show "owned (Aborting v) = Some ?i" by simp
    show "data_sorted (mark_estimate ?i l ?d)" by (rule data_sorted_ops(3)[OF srt])
    show "?d l' \<noteq> None \<Longrightarrow> mark_estimate ?i l ?d l' \<noteq> None" for l' by (rule dom)
    show "i \<noteq> ?i \<Longrightarrow> entry_at (mark_estimate ?i l ?d) l' i = entry_at ?d l' i" for l' i by (simp add: est)
    show "\<exists>e. pr_log X \<lparr>tv_idx = ?i, tv_incarnation = inc\<rparr> = Some e \<and> map_of (le_ws e) l' = Some val"
      if "entry_at (mark_estimate ?i l ?d) l' ?i = Some (Data inc val)" for l' inc val
      using that hist_mem(4)[OF run_invD(5)[OF inv]] by (auto simp: est split: if_splits)
    show "owner_entries R V ((pr_mem X)\<lparr>mv_data := mark_estimate ?i l ?d\<rparr>) (pr_log X) ?w (Aborting v) (Converting ls)"
      unfolding owner_entries.simps converting_def
    proof (intro exI conjI allI impI ballI)
      show "logged ((pr_mem X)\<lparr>mv_data := mark_estimate ?i l ?d\<rparr>) (pr_log X) ?w e"
        using e(1) by (simp add: logged_def reads_of_def writes_of_def)
      show "set ls \<subseteq> fst ` set (le_ws e)" using e(2) by simp
      show "entry_at (mv_data ((pr_mem X)\<lparr>mv_data := mark_estimate ?i l ?d\<rparr>)) l' (tv_idx ?w) = None"
        if "l' \<notin> fst ` set (le_ws e)" for l'
        using e(2) e(3)[OF that] that by (auto simp: est)
      show "entry_at (mv_data ((pr_mem X)\<lparr>mv_data := mark_estimate ?i l ?d\<rparr>)) l' (tv_idx ?w) = Some Estimate
          \<or> l' \<in> set ls \<and> entry_at (mv_data ((pr_mem X)\<lparr>mv_data := mark_estimate ?i l ?d\<rparr>)) l' (tv_idx ?w) = written ?w e l'"
        if "l' \<in> fst ` set (le_ws e)" for l'
        using e(4)[OF that] dl by (auto simp: est)
    qed
  qed (simp_all add: P)
qed

section \<open>Starting to record\<close>

lemma records_effect:
  assumes e: "vm_execute R transact V v mems m = (Inr res, m')"
    and rp: "vm_read_phase R transact V (tv_idx v) mems = Inr (Inr out, db)"
    and fw: "final_writes R V (tv_idx v) db out = Inr ws"
    and wl: "distinct (writes_of m (tv_idx v))" "tv_idx v < length (mv_locations m)"
    and codes: "codes_ok K m" "state_codes R K (snd out)"
  shows "length (mv_locations m') = length (mv_locations m)"
    and "j \<noteq> tv_idx v \<Longrightarrow> mv_locations m' ! j = mv_locations m ! j"
    and "reads_of m' (tv_idx v) = db_read_set db" "set (writes_of m' (tv_idx v)) = fst ` set ws" "distinct (writes_of m' (tv_idx v))"
    and "flags_contains (vr_flags res) WroteNewLocation = (\<exists>l \<in> fst ` set ws. l \<notin> set (writes_of m (tv_idx v)))"
    and "result_of R V (tv_idx v) \<lparr>le_mems = mems, le_out = out, le_db = db, le_ws = ws\<rparr> (vr_execution_result res)"
    and "new_bytecodes m \<subseteq>\<^sub>m new_bytecodes m'" "set_codes_ok K ws (new_bytecodes m')"
proof -
  let ?tx = "vm_txs V ! tv_idx v"
  obtain result state where o: "out = (result, state)" by force
  have x: "execution_succeeded R (apply_rewards V ?tx (ucast (er_gas_used result))) (vm_evm_env V) ?tx v db result state m
      = (Inr res, m')"
    using e rp o by (simp add: vm_execute_def Let_def)
  obtain ws0 codes m2 b flags where wa: "write_accounts R (vm_evm_env V) ?tx db state (new_bytecodes m) = (ws0, codes)"
    and rw: "apply_rewards V ?tx (ucast (er_gas_used result)) ws0 = Inr ws"
    and same: "mv_data m2 = mv_data m" "mv_locations m2 = mv_locations m" "new_bytecodes m2 = codes"
    and rec: "mv_record v (db_read_set db) ws m2 = (b, m')" and fl: "flags_contains flags WroteNewLocation = b"
    and r: "Inr res = (case tx_type_try_from R (te_tx_type ?tx) of
       Inl err \<Rightarrow> Inl (VmExecutionError (ECustom err))
     | Inr ty \<Rightarrow> Inr \<lparr>vr_execution_result = from_raw ty result state, vr_flags = flags\<rparr>)"
    by (rule execution_succeeded_record[OF fw[unfolded o] x])
  have wl2: "distinct (writes_of m2 (tv_idx v))" "tv_idx v < length (mv_locations m2)"
    using wl same by (simp_all add: writes_of_def)
  note P = mv_record_local[OF wl2 final_writes_distinct[OF fw] rec]
  show "length (mv_locations m') = length (mv_locations m)" "j \<noteq> tv_idx v \<Longrightarrow> mv_locations m' ! j = mv_locations m ! j"
    "reads_of m' (tv_idx v) = db_read_set db" "set (writes_of m' (tv_idx v)) = fst ` set ws" "distinct (writes_of m' (tv_idx v))"
    using P(2,4,5,6,7) same by simp_all
  show "flags_contains (vr_flags res) WroteNewLocation = (\<exists>l \<in> fst ` set ws. l \<notin> set (writes_of m (tv_idx v)))"
    using fl P(1) r same by (auto simp: writes_of_def split: sum.splits)
  show "result_of R V (tv_idx v) \<lparr>le_mems = mems, le_out = out, le_db = db, le_ws = ws\<rparr> (vr_execution_result res)"
    using r o by (auto simp: result_of_def split: sum.splits)
  have C: "set_codes_ok K ws0 codes" "new_bytecodes m \<subseteq>\<^sub>m codes"
    using write_accounts_codes[OF _ _ wa, of K] codes o by (auto simp: codes_ok_def)
  show "new_bytecodes m \<subseteq>\<^sub>m new_bytecodes m'" using C(2) P(3) same by simp
  show "set_codes_ok K ws (new_bytecodes m')"
    using apply_reward_list_codes[OF rw[unfolded apply_rewards_def] C(1)] P(3) same by simp
qed

lemma raw_starts_recording:
  assumes raw: "raw_entries (beneficiary_location_hash V) m (tv_idx v)" and wl: "distinct (writes_of m (tv_idx v))"
    and fw: "final_writes R V (tv_idx v) db out = Inr ws"
    and ops: "distinct ops" "set ops = set (record_ops v ws (writes_of m (tv_idx v)))"
    and L: "logged m' L v e" "le_ws e = ws" "result_of R V (tv_idx v) e (vr_execution_result res)"
    and d: "mv_data m' = mv_data m"
    and fl: "flags_contains (vr_flags res) WroteNewLocation = (\<exists>l \<in> fst ` set ws. l \<notin> set (writes_of m (tv_idx v)))"
  shows "recording R V m' L v ops res"
proof -
  let ?i = "tv_idx v" and ?d = "mv_data m"
  have fn: "(l, x) \<in> set ops \<longleftrightarrow> (l \<in> set (writes_of m ?i) \<or> l \<in> fst ` set ws) \<and> x = written v e l" for l x
    using ops(2) record_ops_keys[OF final_writes_distinct[OF fw] wl] L(2) by (simp add: written_def)
  have est: "entry_at ?d l ?i = None \<and> l \<notin> set (writes_of m ?i)
      \<or> entry_at ?d l ?i = Some Estimate \<and> (l \<in> set (writes_of m ?i) \<or> l = beneficiary_location_hash V)" for l
    using raw unfolding raw_entries_def by (metis option.distinct(1))
  have ben: "beneficiary_location_hash V \<in> fst ` set ws"
    using final_writes_beneficiary[OF fw] by (simp add: map_of_eq_None_iff)
  have keys: "l \<in> fst ` set ops \<longleftrightarrow> l \<in> set (writes_of m ?i) \<or> l \<in> fst ` set ws" for l
  proof -
    have "l \<in> fst ` set ops \<longleftrightarrow> (\<exists>x. (l, x) \<in> set ops)" by force
    then show ?thesis using fn by auto
  qed
  show ?thesis
    unfolding recording_def
  proof (intro exI conjI allI impI ballI)
    show "logged m' L v e" "result_of R V ?i e (vr_execution_result res)" by (rule L)+
    show "distinct (map fst ops)" using ops(1) fn by (auto simp: distinct_map inj_on_def)
    show "entry_at (mv_data m') l ?i = written v e l" if "l \<notin> fst ` set ops" for l
      using that keys[of l] est[of l] ben L(2) d by (auto simp: written_def map_of_eq_None_iff)
    show "case p of (l, x) \<Rightarrow> x = written v e l \<and> (entry_at (mv_data m') l ?i = Some Estimate
             \<or> entry_at (mv_data m') l ?i = None \<and> flags_contains (vr_flags res) WroteNewLocation)"
      if "p \<in> set ops" for p
    proof (cases p)
      case (Pair l x)
      then have "l \<in> set (writes_of m ?i) \<or> l \<in> fst ` set ws" "x = written v e l" using fn[of l x] that by auto
      then show ?thesis using est[of l] fl d Pair by auto
    qed
  qed
qed

lemma records_inv:
  assumes inv: "run_inv R transact K V X" and s: "inv_sched (pr_sched X) (pr_pcs X) (pr_finished X)"
    and V: "revm_sound R transact K V" "stored_codes (vm_db V) K" "length (vm_txs V) = sc_block_size (pr_sched X)"
    and P: "pr_pcs X t = Busy (Execution v)" "pr_jobs X t = NoJob"
    and ks: "moments ks (pr_hist X)" and mems: "mems = mems_of (pr_hist X) ks"
    and e: "vm_execute R transact V v mems (pr_mem X) = (Inr res, m')"
    and rp: "vm_read_phase R transact V (tv_idx v) mems = Inr (Inr out, db)"
    and fw: "final_writes R V (tv_idx v) db out = Inr ws"
    and ops: "distinct ops" "set ops = set (record_ops v ws (writes_of (pr_mem X) (tv_idx v)))"
    and X': "X' = put_job t (Recording ops res) (put_mem (m'\<lparr>mv_data := mv_data (pr_mem X)\<rparr>)
      (X\<lparr>pr_log := (pr_log X)(v \<mapsto> \<lparr>le_mems = mems, le_out = out, le_db = db, le_ws = ws\<rparr>)\<rparr>))"
  shows "run_inv R transact K V X'"
proof -
  let ?i = "tv_idx v" and ?m = "m'\<lparr>mv_data := mv_data (pr_mem X)\<rparr>"
  let ?e = "\<lparr>le_mems = mems, le_out = out, le_db = db, le_ws = ws\<rparr>"
  have ip: "inv_pcs (pr_sched X) (pr_pcs X)" and ifin: "inv_finished (pr_sched X) (pr_finished X)"
    using s by (simp_all add: inv_sched_def)
  note E = executing_version[OF ip P(1)] and H = run_invD(5)[OF inv]
  note M = hist_right_mems[OF H ks, folded mems]
  have "state_codes R K (snd out)"
    using read_phase_sound(2)[OF V(1) _ M(1) V(2) rp] E(1) V(3) by (auto simp: outcome_sound_def split: prod.splits)
  note G = records_effect[OF e rp fw run_invD(3)[OF inv E(1)] _ hist_mem(2)[OF H] this]
  have len: "?i < length (mv_locations (pr_mem X))" using run_invD(1)[OF inv] E(1) by simp
  note G = G[OF len]
  have x: "pr_mem X' = ?m" "pr_log X' = (pr_log X)(v \<mapsto> ?e)" "pr_sched X' = pr_sched X" "pr_hist X' = pr_hist X @ [?m]"
      "pr_exec X' = pr_exec X" "pr_finished X' = pr_finished X" "pr_pcs X' = (pr_pcs X)(t := Busy (Execution v))"
      "pr_jobs X' = (pr_jobs X)(t := Recording ops res)"
    using P(1) by (auto simp: X' put_job_def put_mem_def)
  have unlogged: "pr_log X v = None"
  proof (rule ccontr)
    assume "pr_log X v \<noteq> None"
    then have "v \<in> pr_finished X \<or> (\<exists>t ops res. pr_pcs X t = Busy (Execution v) \<and> pr_jobs X t = Recording ops res)"
      using run_invD(6)[OF inv] unfolding log_inv_def by blast
    moreover have "v \<notin> pr_finished X"
      using ifin E by (auto simp: inv_finished_def version_of_def) (metis E(2) less_irrefl version_of_simps(2))
    moreover have "t' = t" if "pr_pcs X t' = Busy (Execution v)" for t'
      using ip P(1) that unfolding inv_pcs_def by (metis owned.simps(1))
    ultimately show False using P(2) by (metis job.distinct(1))
  qed
  have log: "pr_log X \<subseteq>\<^sub>m pr_log X'" unfolding x using unlogged by (auto simp: map_le_def)
  have codes: "codes_ok K ?m"
    using hist_mem(2)[OF H] G(8,9) unfolding codes_ok_def set_codes_ok_def map_le_def dom_def by fastforce
  have data: "mv_data ?m = mv_data (pr_mem X)" by simp
  have locs: "reads_of ?m i = reads_of m' i" "writes_of ?m i = writes_of m' i" for i by (simp_all add: reads_of_def writes_of_def)
  have old: "\<exists>e. pr_log X' w = Some e \<and> map_of (le_ws e) l = Some val"
    if "\<exists>e. pr_log X w = Some e \<and> map_of (le_ws e) l = Some val" for w l val
    using that log unfolding map_le_def dom_def by (metis (mono_tags, lifting) mem_Collect_eq option.distinct(1))
  show ?thesis
  proof (rule run_invI[OF inv _ _ _ _ x(7,8)])
    show "hist_inv K X'"
    proof (rule hist_push[OF H _ log])
      show "\<exists>e. pr_log X' \<lparr>tv_idx = i, tv_incarnation = inc\<rparr> = Some e \<and> map_of (le_ws e) l = Some val"
        if "entry_at (mv_data (pr_mem X')) l i = Some (Data inc val)" for l i inc val
        using old hist_mem(4)[OF H] that unfolding x(1) data by blast
    qed (use x codes G(8) hist_mem(1)[OF H] in simp_all)
    show "log_inv R transact K V X'"
    proof -
      let ?Y = "X'\<lparr>pr_log := pr_log X\<rparr>"
      have Y: "log_inv R transact K V ?Y"
        by (rule log_keep[OF run_invD(6)[OF inv], where t = t]) (use x G(8) P in auto)
      have "vm_ran R transact V ?i mems out db ws" using rp fw by (simp add: vm_ran_def)
      moreover have "range mems \<subseteq> set (pr_hist X')" using M(2) x by auto
      moreover have "\<forall>j k. j \<le> k \<longrightarrow> new_bytecodes (mems j) \<subseteq>\<^sub>m new_bytecodes (mems k)" using M(1) by (simp add: right_mems_def)
      moreover have "\<forall>l h. map_of ws l = Some (VCodeHash h) \<longrightarrow> new_bytecodes (pr_mem X') h \<noteq> None"
        using G(9) x by (simp add: set_codes_ok_def)
      moreover have "pr_pcs X' t = Busy (Execution v) \<and> pr_jobs X' t = Recording ops res" using x by simp
      ultimately show ?thesis
        using Y \<open>state_codes R K (snd out)\<close> unfolding log_inv_def x(2) by auto
    qed
    fix i assume i: "i < sc_block_size (pr_sched X)"
    show "distinct (writes_of (pr_mem X') i)"
      using run_invD(3)[OF inv i] G(2,5) x locs by (cases "i = ?i") (auto simp: writes_of_def)
    show "tx_entries R V X' i"
    proof (cases "i = ?i")
      case True
      have "raw_entries (beneficiary_location_hash V) (pr_mem X) ?i"
        using tx_entriesD(1)[OF run_invD(7)[OF inv E(1)], of t] P E(2) by simp
      moreover have "logged ?m (pr_log X') v ?e" using G(3,4) x locs by (simp add: logged_def)
      ultimately have "recording R V ?m (pr_log X') v ops res"
        using raw_starts_recording[OF _ run_invD(3)[OF inv E(1)] fw ops _ _ _ _ G(6), of ?m "pr_log X'" ?e] G(7) by simp
      then show ?thesis unfolding True
        by (intro tx_entries_owned[where t = t]) (use x E(2) ip P in \<open>simp_all add: fun_upd_idem\<close>)
    next
      case False
      then show ?thesis
        by (intro tx_entries_other[OF run_invD(7)[OF inv i] x(7,8)]) (use x P log G(2) in \<open>simp_all add: same_at_def\<close>)
    qed
    show "fresh X' i"
    proof (cases "i = ?i")
      case True
      then show ?thesis using E(3) x by (simp add: fresh_def)
    next
      case False
      then show ?thesis
        by (intro fresh_frame[OF run_invD(8)[OF inv i] _ _ x(7,8)]) (use x P G(2) in \<open>simp_all add: reads_of_def\<close>)
    qed
  qed (use x G(1) in simp_all)
qed

section \<open>Steps of the scheduler\<close>

lemma job_ok_NoJob [simp]: "job_ok p NoJob"
  by (cases "(p, NoJob)" rule: job_ok.cases) auto

lemma sched_step_inv:
  assumes inv: "run_inv R transact K V X" and size: "sc_block_size (pr_sched X') = sc_block_size (pr_sched X)"
    and P': "pr_pcs X' = (pr_pcs X)(t := p)" "pr_jobs X' = (pr_jobs X)(t := NoJob)"
    and x: "pr_mem X' = pr_mem X" "pr_hist X' = pr_hist X" "pr_log X' = pr_log X" "pr_finished X \<subseteq> pr_finished X'"
      "length (execution_results (pr_exec X')) = length (execution_results (pr_exec X))"
    and rec: "\<And>v ops res. pr_pcs X t = Busy (Execution v) \<Longrightarrow> pr_jobs X t = Recording ops res \<Longrightarrow> v \<in> pr_finished X'"
    and other: "\<And>i. i < sc_block_size (pr_sched X) \<Longrightarrow> owned (pr_pcs X t) \<noteq> Some i \<Longrightarrow> owned p \<noteq> Some i \<Longrightarrow>
      execution_results (pr_exec X') ! i = execution_results (pr_exec X) ! i
      \<and> is_done (st_of (pr_sched X') i) = is_done (st_of (pr_sched X) i)
      \<and> (version_of (pr_sched X') i = version_of (pr_sched X) i
         \<or> \<not> held (pr_pcs X) i \<and> \<not> is_done (st_of (pr_sched X) i))"
    and own: "\<And>i. i < sc_block_size (pr_sched X) \<Longrightarrow> owned (pr_pcs X t) = Some i \<or> owned p = Some i \<Longrightarrow> tx_entries R V X' i"
    and fr: "\<And>i r. i < sc_block_size (pr_sched X) \<Longrightarrow> is_done (st_of (pr_sched X') i) \<Longrightarrow>
      \<not> is_done (st_of (pr_sched X) i) \<or> validation_idx (pr_sched X) \<le> i \<or> waits (pr_pcs X t) (pr_jobs X t) i r \<Longrightarrow>
      validation_idx (pr_sched X') \<le> i \<or> waits p NoJob i r"
  shows "run_inv R transact K V X'"
proof (rule run_invI[OF inv size _ x(5) _ P'])
  show "hist_inv K X'" using run_invD(5)[OF inv] x by (simp add: hist_inv_def)
  show "log_inv R transact K V X'"
    by (rule log_keep[OF run_invD(6)[OF inv] x(3) _ _ x(4) P']) (use x rec in auto)
  fix i assume i: "i < sc_block_size (pr_sched X)"
  show "distinct (writes_of (pr_mem X') i)" using run_invD(3)[OF inv i] x by simp
  show "tx_entries R V X' i"
  proof (cases "owned (pr_pcs X t) = Some i \<or> owned p = Some i")
    case True
    then show ?thesis by (rule own[OF i])
  next
    case False
    then show ?thesis
      using other[OF i] x by (intro tx_entries_other[OF run_invD(7)[OF inv i] P']) simp_all
  qed
  show "fresh X' i"
  proof (cases "is_done (st_of (pr_sched X) i)")
    case True
    show ?thesis
      by (rule fresh_frame[OF run_invD(8)[OF inv i] _ _ P']) (use x fr[OF i] True in auto)
  next
    case False
    have "unsettled X' i r" if "is_done (st_of (pr_sched X') i)" for r
      using fr[OF i that, of r] False unfolding unsettled_def P' by (metis fun_upd_same)
    then show ?thesis by (simp add: fresh_def)
  qed
qed (use x in simp_all)

text \<open>A transaction that a thread takes or gives back.\<close>

lemma tx_entries_free:
  assumes "\<not> held (pr_pcs X') i" "\<not> is_done (st_of (pr_sched X') i)" "raw_entries (beneficiary_location_hash V) (pr_mem X') i"
  shows "tx_entries R V X' i"
proof -
  have "owned (pr_pcs X' t) \<noteq> Some i" for t using assms(1) by (auto simp: held_def)
  then show ?thesis using assms(2,3) by (simp add: tx_entries_def Let_def)
qed

lemma released:
  assumes "inv_pcs s P" "owned (P t) = Some i" "owned p \<noteq> Some i"
  shows "\<not> held (P(t := p)) i"
  using assms unfolding held_def inv_pcs_def by (metis fun_upd_other fun_upd_same)

lemma not_held:
  assumes "inv_pcs s P" "st_of s i = ReadyToExecute \<or> is_done (st_of s i)"
  shows "\<not> held P i"
  using owned_status[OF assms(1)] assms(2) unfolding held_def by (metis is_done_simps incarnation_status.distinct)

lemma taken_inv:
  assumes inv: "run_inv R transact K V X" and s: "inv_sched (pr_sched X) (pr_pcs X) (pr_finished X)"
    and ip': "inv_pcs (pr_sched X') (pr_pcs X')"
    and k: "k < sc_block_size (pr_sched X)" "st_of (pr_sched X) k = ReadyToExecute"
    and P: "owned (pr_pcs X t) = None" "pr_jobs X t = NoJob" "\<And>i r. i \<noteq> k \<Longrightarrow> \<not> waits (pr_pcs X t) NoJob i r"
    and X': "X' = X\<lparr>pr_sched := set_tx_status k Executing (pr_sched X),
      pr_pcs := (pr_pcs X)(t := Busy (Execution (version_of (pr_sched X) k)))\<rparr>"
  shows "run_inv R transact K V X'"
proof -
  have ip: "inv_pcs (pr_sched X) (pr_pcs X)" and sh: "sched_shape (pr_sched X)" using s by (simp_all add: inv_sched_def)
  have len: "k < length (tx_statuses (pr_sched X))" using sh k(1) by (simp add: sched_shape_def)
  have tx: "tx_at (pr_sched X') i = (if i = k then (tx_at (pr_sched X) k)\<lparr>status := Executing\<rparr> else tx_at (pr_sched X) i)" for i
    using len by (simp add: X' sched_simps)
  have ver: "version_of (pr_sched X') i = version_of (pr_sched X) i" for i by (simp add: version_of_def tx)
  show ?thesis
  proof (rule sched_step_inv[OF inv, where t = t and p = "Busy (Execution (version_of (pr_sched X) k))"])
    fix i assume i: "i < sc_block_size (pr_sched X)"
    assume "owned (pr_pcs X t) = Some i \<or> owned (Busy (Execution (version_of (pr_sched X) k))) = Some i"
    then have "i = k" using P(1) by simp
    moreover have "raw_entries (beneficiary_location_hash V) (pr_mem X) k"
      using tx_entriesD(3)[OF run_invD(7)[OF inv k(1)] not_held[OF ip]] k(2) by simp
    ultimately show "tx_entries R V X' i"
      using ip' P(2) by (intro tx_entries_owned[where t = t]) (simp_all add: X')
  next
    fix i r assume i: "i < sc_block_size (pr_sched X)" and d: "is_done (st_of (pr_sched X') i)"
      and w: "\<not> is_done (st_of (pr_sched X) i) \<or> validation_idx (pr_sched X) \<le> i \<or> waits (pr_pcs X t) (pr_jobs X t) i r"
    from d have "i \<noteq> k" "is_done (st_of (pr_sched X) i)" by (auto simp: tx split: if_splits)
    then show "validation_idx (pr_sched X') \<le> i \<or> waits (Busy (Execution (version_of (pr_sched X) k))) NoJob i r"
      using w P(2,3) by (auto simp: X' sched_simps)
  qed (use P(2) ver tx in \<open>auto simp: X' sched_simps fun_upd_idem\<close>)
qed

lemma idle_step_inv:
  assumes inv: "run_inv R transact K V X"
    and s: "tx_statuses s = tx_statuses (pr_sched X)" "sc_block_size s = sc_block_size (pr_sched X)"
    and P: "owned (pr_pcs X t) = None" "owned p = None" "pr_jobs X t = NoJob"
    and w: "\<And>i r. is_done (st_of (pr_sched X) i) \<Longrightarrow> i < sc_block_size (pr_sched X) \<Longrightarrow>
      validation_idx (pr_sched X) \<le> i \<or> waits (pr_pcs X t) NoJob i r \<Longrightarrow> validation_idx s \<le> i \<or> waits p NoJob i r"
  shows "run_inv R transact K V (X\<lparr>pr_sched := s, pr_pcs := (pr_pcs X)(t := p)\<rparr>)"
proof -
  have tx: "tx_at s i = tx_at (pr_sched X) i" for i by (rule tx_at_cong[OF s(1)])
  then have "version_of s i = version_of (pr_sched X) i" for i by (simp add: version_of_def)
  then show ?thesis
    by (intro sched_step_inv[OF inv, where t = t and p = p]) (use P s tx w in \<open>auto simp: fun_upd_idem\<close>)
qed

lemma blocked_inv:
  assumes inv: "run_inv R transact K V X" and s: "inv_sched (pr_sched X) (pr_pcs X) (pr_finished X)"
    and P: "pr_pcs X t = Busy (Execution v)" "pr_jobs X t = NoJob"
    and a: "add_dependency (tv_idx v) b (pr_sched X) = (True, s')"
  shows "run_inv R transact K V (X\<lparr>pr_sched := s', pr_pcs := (pr_pcs X)(t := Idle)\<rparr>)" (is "run_inv _ _ _ _ ?X")
proof -
  have ip: "inv_pcs (pr_sched X) (pr_pcs X)" and sh: "sched_shape (pr_sched X)" using s by (simp_all add: inv_sched_def)
  note E = executing_version[OF ip P(1)]
  have "tv_idx v < length (tx_statuses (pr_sched X))" using sh E(1) by (simp add: sched_shape_def)
  then have tx: "tx_at s' i = (if i = tv_idx v then (tx_at (pr_sched X) i)\<lparr>status := Aborted\<rparr> else tx_at (pr_sched X) i)" for i
    using a by (auto simp: add_dependency_def Let_def sched_simps split: if_splits)
  have v: "validation_idx s' = validation_idx (pr_sched X)" "sc_block_size s' = sc_block_size (pr_sched X)"
    using a by (auto simp: add_dependency_def Let_def sched_simps split: if_splits)
  have ver: "version_of s' i = version_of (pr_sched X) i" for i by (simp add: version_of_def tx)
  have raw: "raw_entries (beneficiary_location_hash V) (pr_mem X) (tv_idx v)"
    using tx_entriesD(1)[OF run_invD(7)[OF inv E(1)], of t] P E(2) by simp
  have nh: "\<not> held ((pr_pcs X)(t := Idle)) (tv_idx v)" by (rule released[OF ip]) (simp_all add: P)
  show ?thesis
  proof (rule sched_step_inv[OF inv, where t = t and p = Idle])
    fix i assume "owned (pr_pcs X t) = Some i \<or> owned Idle = Some i"
    then have "i = tv_idx v" using P by simp
    then show "tx_entries R V ?X i"
      using nh raw tx by (intro tx_entries_free) simp_all
  next
    fix i r assume "is_done (st_of (pr_sched ?X) i)"
      and "\<not> is_done (st_of (pr_sched X) i) \<or> validation_idx (pr_sched X) \<le> i \<or> waits (pr_pcs X t) (pr_jobs X t) i r"
    then show "validation_idx (pr_sched ?X) \<le> i \<or> waits Idle NoJob i r" using P v by (auto simp: tx split: if_splits)
  qed (use P v ver tx in \<open>auto simp: fun_upd_idem\<close>)
qed

lemma finished_inv:
  assumes inv: "run_inv R transact K V X" and s: "inv_sched (pr_sched X) (pr_pcs X) (pr_finished X)"
    and P: "pr_pcs X t = Busy (Execution v)" "pr_jobs X t = Recording [] res"
    and f: "finish_execution v (vr_flags res) (pr_sched X) = (r, s')"
    and X': "pr_sched X' = s'" "pr_pcs X' = (pr_pcs X)(t := pc_of_task r)" "pr_finished X' = insert v (pr_finished X)"
      "pr_jobs X' = (pr_jobs X)(t := NoJob)" "pr_mem X' = pr_mem X" "pr_hist X' = pr_hist X" "pr_log X' = pr_log X"
      "execution_results (pr_exec X') = (execution_results (pr_exec X))[tv_idx v := Some (vr_execution_result res)]"
  shows "run_inv R transact K V X'"
proof -
  have ip: "inv_pcs (pr_sched X) (pr_pcs X)" and id: "inv_deps (pr_sched X)" using s by (simp_all add: inv_sched_def)
  note E = executing_version[OF ip P(1)] and F = finish_execution_effect[OF s P(1) f]
    and W = finish_execution_validation_idx[OF f] and N = finish_execution_revalidates[OF f _ F(4)]
  have o: "owned (pc_of_task r) = None" using F(3) by (auto simp: pc_of_task_def)
  have nh: "\<not> held (pr_pcs X') (tv_idx v)" unfolding X' by (rule released[OF ip]) (simp_all add: P o)
  have "recording R V (pr_mem X) (pr_log X) v [] res"
    using tx_entriesD(1)[OF run_invD(7)[OF inv E(1)], of t] P E(2) by simp
  then obtain e where e: "logged (pr_mem X) (pr_log X) v e" "result_of R V (tv_idx v) e (vr_execution_result res)"
      "\<forall>l. entry_at (mv_data (pr_mem X)) l (tv_idx v) = written v e l"
    by (auto simp: recording_def)
  have ver: "version_of s' (tv_idx v) = v" using E(2) F(1) by (simp add: version_of_def)
  have len: "tv_idx v < length (execution_results (pr_exec X))" using run_invD(2)[OF inv] E(1) by simp
  have dep: "\<not> held (pr_pcs X) i \<and> \<not> is_done (st_of (pr_sched X) i)" if "i \<in> set (deps_of (pr_sched X) (tv_idx v))" for i
  proof -
    have "waiting (pr_sched X) i" unfolding waiting_def using that E(1) by blast
    moreover have "st_of (pr_sched X) i = Aborted" by (rule inv_depsD(3)[OF id E(1) that])
    ultimately show ?thesis using owned_status[OF ip, of _ i] by (auto simp: held_def)
  qed
  show ?thesis
  proof (rule sched_step_inv[OF inv, where t = t and p = "pc_of_task r"])
    fix i assume "owned (pr_pcs X t) = Some i \<or> owned (pc_of_task r) = Some i"
    then have i: "i = tv_idx v" using P o by simp
    have "full_entries (pr_mem X) (pr_log X) v" using e unfolding full_entries_def by blast
    moreover have "\<exists>e r. pr_log X v = Some e \<and> execution_results (pr_exec X') ! tv_idx v = Some r \<and> result_of R V (tv_idx v) e r"
      using e(1,2) X'(8) len by (simp add: logged_def)
    moreover have "is_done (st_of s' (tv_idx v))" by (simp add: F(1))
    moreover have "owned (pr_pcs X' t') \<noteq> Some (tv_idx v)" for t' using nh by (auto simp: held_def)
    ultimately show "tx_entries R V X' i" unfolding i tx_entries_def Let_def X'(1,5,7) ver by simp
  next
    fix i assume "owned (pr_pcs X t) \<noteq> Some i"
    then have "i \<noteq> tv_idx v" using P by simp
    then show "execution_results (pr_exec X') ! i = execution_results (pr_exec X) ! i
      \<and> is_done (st_of (pr_sched X') i) = is_done (st_of (pr_sched X) i)
      \<and> (version_of (pr_sched X') i = version_of (pr_sched X) i
         \<or> \<not> held (pr_pcs X) i \<and> \<not> is_done (st_of (pr_sched X) i))"
      using dep[of i] unfolding X'(1,8) by (auto simp: F(1) version_of_def)
  next
    fix i r' assume i: "i < sc_block_size (pr_sched X)" and d: "is_done (st_of (pr_sched X') i)"
      and c: "\<not> is_done (st_of (pr_sched X) i) \<or> validation_idx (pr_sched X) \<le> i \<or> waits (pr_pcs X t) (pr_jobs X t) i r'"
    consider (self) "i = tv_idx v" | (idx) "i \<noteq> tv_idx v" "validation_idx (pr_sched X) \<le> i"
      | (new) "tv_idx v < i" "flags_contains (vr_flags res) WroteNewLocation"
      using c d P unfolding X'(1) by (auto simp: F(1) split: if_splits)
    then show "validation_idx (pr_sched X') \<le> i \<or> waits (pc_of_task r) NoJob i r'"
    proof cases
      case self
      then show ?thesis using F(3) W E(1) X'(1) by (auto simp: pc_of_task_def)
    next
      case idx
      then show ?thesis using W(1) X'(1) by simp
    next
      case new
      then show ?thesis using N X'(1) by simp
    qed
  qed (use P X' F(2) in auto)
qed

lemma failed_inv:
  assumes inv: "run_inv R transact K V X" and s: "inv_sched (pr_sched X) (pr_pcs X) (pr_finished X)"
    and P: "pr_pcs X t = Busy (Validation v)" "pr_jobs X t = Invalid"
    and a: "try_validation_abort v (pr_sched X) = (ab, s')"
    and ip': "inv_pcs s' ((pr_pcs X)(t := if ab then Aborting v else Settling v))"
  shows "run_inv R transact K V (X\<lparr>pr_sched := s', pr_pcs := (pr_pcs X)(t := if ab then Aborting v else Settling v),
    pr_jobs := (pr_jobs X)(t := NoJob)\<rparr>)" (is "run_inv _ _ _ _ ?X")
proof -
  have ip: "inv_pcs (pr_sched X) (pr_pcs X)" and sh: "sched_shape (pr_sched X)" using s by (simp_all add: inv_sched_def)
  have "pc_ok (pr_sched X) (pr_pcs X t)" using ip by (simp add: inv_pcs_def)
  then have k: "tv_idx v < sc_block_size (pr_sched X)" using P by simp
  then have "tv_idx v < length (tx_statuses (pr_sched X))" using sh by (simp add: sched_shape_def)
  then have tx: "tx_at s' i = (if i = tv_idx v \<and> ab then (tx_at (pr_sched X) i)\<lparr>status := Aborted\<rparr> else tx_at (pr_sched X) i)"
    and ab: "ab = is_done (st_of (pr_sched X) (tv_idx v))" for i
    using a by (auto simp: try_validation_abort_def Let_def sched_simps split: if_splits)
  have v: "validation_idx s' = validation_idx (pr_sched X)" "sc_block_size s' = sc_block_size (pr_sched X)"
    using a by (auto simp: try_validation_abort_def Let_def sched_simps split: if_splits)
  have ver: "version_of s' i = version_of (pr_sched X) i" for i by (simp add: version_of_def tx)
  show ?thesis
  proof (rule sched_step_inv[OF inv, where t = t and p = "if ab then Aborting v else Settling v"])
    fix i assume "owned (pr_pcs X t) = Some i \<or> owned (if ab then Aborting v else Settling v) = Some i"
    then have i: "ab" "i = tv_idx v" using P by (auto split: if_splits)
    have "full_entries (pr_mem X) (pr_log X) (version_of (pr_sched X) (tv_idx v))"
      using tx_entriesD(2)[OF run_invD(7)[OF inv k] not_held[OF ip]] ab i by simp
    then show "tx_entries R V ?X i"
      using ip' i ver by (intro tx_entries_owned[where t = t]) simp_all
  next
    fix i r assume "is_done (st_of (pr_sched ?X) i)"
      and "\<not> is_done (st_of (pr_sched X) i) \<or> validation_idx (pr_sched X) \<le> i \<or> waits (pr_pcs X t) (pr_jobs X t) i r"
    then show "validation_idx (pr_sched ?X) \<le> i \<or> waits (if ab then Aborting v else Settling v) NoJob i r"
      using P v ab by (auto simp: tx split: if_splits)
  qed (use P v ver tx in auto)
qed

lemma converted_inv:
  assumes inv: "run_inv R transact K V X" and s: "inv_sched (pr_sched X) (pr_pcs X) (pr_finished X)"
    and P: "pr_pcs X t = Aborting v" "pr_jobs X t = Converting []"
  shows "run_inv R transact K V (X\<lparr>pr_sched := reschedule_aborted v (pr_sched X), pr_pcs := (pr_pcs X)(t := Requeue v),
    pr_jobs := (pr_jobs X)(t := NoJob)\<rparr>)" (is "run_inv _ _ _ _ ?X")
proof -
  let ?s = "reschedule_aborted v (pr_sched X)"
  have ip: "inv_pcs (pr_sched X) (pr_pcs X)" and sh: "sched_shape (pr_sched X)" using s by (simp_all add: inv_sched_def)
  note A = aborting_version[OF ip P(1)]
  have "tv_idx v < length (tx_statuses (pr_sched X))" using sh A(1) by (simp add: sched_shape_def)
  then have tx: "tx_at ?s i = (if i = tv_idx v then \<lparr>incarnation = inc_of (pr_sched X) i + 1, status = ReadyToExecute\<rparr>
      else tx_at (pr_sched X) i)" for i
    by (auto simp: reschedule_aborted_def sched_simps)
  have v: "validation_idx ?s \<le> validation_idx (pr_sched X)" "validation_idx ?s \<le> tv_idx v + 1"
      "sc_block_size ?s = sc_block_size (pr_sched X)"
    by (simp_all add: reschedule_aborted_def lower_validation_idx_def sched_simps)
  have "converting (pr_mem X) (pr_log X) (version_of (pr_sched X) (tv_idx v)) []"
    using tx_entriesD(1)[OF run_invD(7)[OF inv A(1)], of t] P by simp
  then obtain e :: log_entry where "set (writes_of (pr_mem X) (tv_idx v)) = fst ` set (le_ws e)"
      "\<And>l. l \<notin> fst ` set (le_ws e) \<Longrightarrow> entry_at (mv_data (pr_mem X)) l (tv_idx v) = None"
      "\<And>l. l \<in> fst ` set (le_ws e) \<Longrightarrow> entry_at (mv_data (pr_mem X)) l (tv_idx v) = Some Estimate"
    unfolding converting_def logged_def version_of_simps list.set(1) by (metis empty_iff)
  then have raw: "raw_entries (beneficiary_location_hash V) (pr_mem X) (tv_idx v)"
    unfolding raw_entries_def by metis
  have nh: "\<not> held ((pr_pcs X)(t := Requeue v)) (tv_idx v)" by (rule released[OF ip]) (simp_all add: P)
  show ?thesis
  proof (rule sched_step_inv[OF inv, where t = t and p = "Requeue v"])
    fix i assume "owned (pr_pcs X t) = Some i \<or> owned (Requeue v) = Some i"
    then have "i = tv_idx v" using P by simp
    then show "tx_entries R V ?X i"
      using nh raw tx by (intro tx_entries_free) simp_all
  next
    fix i r assume "is_done (st_of (pr_sched ?X) i)"
      and "\<not> is_done (st_of (pr_sched X) i) \<or> validation_idx (pr_sched X) \<le> i \<or> waits (pr_pcs X t) (pr_jobs X t) i r"
    then show "validation_idx (pr_sched ?X) \<le> i \<or> waits (Requeue v) NoJob i r"
      using P v(1,2) by (auto simp: tx split: if_splits)
  qed (use P v(3) in \<open>auto simp: tx version_of_def\<close>)
qed

lemma settled_inv:
  assumes inv: "run_inv R transact K V X" and s: "inv_sched (pr_sched X) (pr_pcs X) (pr_finished X)"
    and P: "pr_pcs X t = Settling v" "pr_jobs X t = NoJob"
  shows "run_inv R transact K V (X\<lparr>pr_sched := mark_validated v (pr_sched X), pr_pcs := (pr_pcs X)(t := Idle)\<rparr>)"
proof -
  let ?s = "mark_validated v (pr_sched X)"
  have ip: "inv_pcs (pr_sched X) (pr_pcs X)" and sh: "sched_shape (pr_sched X)" using s by (simp_all add: inv_sched_def)
  have "pc_ok (pr_sched X) (pr_pcs X t)" using ip by (simp add: inv_pcs_def)
  then have "tv_idx v < length (tx_statuses (pr_sched X))" using P sh by (simp add: sched_shape_def)
  then have tx: "tx_at ?s i = (if i = tv_idx v \<and> st_of (pr_sched X) i = Executed
      then (tx_at (pr_sched X) i)\<lparr>status := Validated\<rparr> else tx_at (pr_sched X) i)" for i
    by (auto simp: mark_validated_def sched_simps)
  have v: "validation_idx ?s = validation_idx (pr_sched X)" "sc_block_size ?s = sc_block_size (pr_sched X)"
    by (simp_all add: mark_validated_def sched_simps)
  have d: "is_done (st_of ?s i) = is_done (st_of (pr_sched X) i)" "version_of ?s i = version_of (pr_sched X) i" for i
    by (auto simp: tx version_of_def)
  show ?thesis
    by (rule sched_step_inv[OF inv, where t = t and p = Idle]) (use P v d in \<open>auto simp: fun_upd_idem\<close>)
qed

lemma try_execute_inv:
  assumes inv: "run_inv R transact K V X" and s: "inv_sched (pr_sched X) (pr_pcs X) (pr_finished X)"
    and te: "try_execute k (pr_sched X) = (r, s')" and p: "p = pc_of_task (map_option Execution r)"
    and P: "owned (pr_pcs X t) = None" "pr_jobs X t = NoJob" "\<And>i r. \<not> waits (pr_pcs X t) NoJob i r"
    and ip': "inv_pcs s' ((pr_pcs X)(t := p))"
  shows "run_inv R transact K V (X\<lparr>pr_sched := s', pr_pcs := (pr_pcs X)(t := p)\<rparr>)"
proof (rule try_execute_cases[of k "pr_sched X"])
  assume k: "k < sc_block_size (pr_sched X)" "st_of (pr_sched X) k = ReadyToExecute"
    and e: "try_execute k (pr_sched X) = (Some (version_of (pr_sched X) k), set_tx_status k Executing (pr_sched X))"
  then have r: "s' = set_tx_status k Executing (pr_sched X)" "p = Busy (Execution (version_of (pr_sched X) k))"
    using te p by (simp_all add: pc_of_task_def)
  show ?thesis by (rule taken_inv[OF inv s _ k P(1,2)]) (use P(3) r ip' in simp_all)
next
  assume "try_execute k (pr_sched X) = (None, pr_sched X)"
  then have r: "s' = pr_sched X" "p = Idle" using te p by (simp_all add: pc_of_task_def)
  show ?thesis unfolding r by (rule idle_step_inv[OF inv]) (use P in auto)
qed

lemma claimed_inv:
  assumes inv: "run_inv R transact K V X" and s: "inv_sched (pr_sched X) (pr_pcs X) (pr_finished X)"
    and l: "look_at_claim k (pr_sched X) = (p, s')" and P: "pr_pcs X t = ClaimV k" "pr_jobs X t = NoJob"
    and ip': "inv_pcs s' ((pr_pcs X)(t := p))"
  shows "run_inv R transact K V (X\<lparr>pr_sched := s', pr_pcs := (pr_pcs X)(t := p)\<rparr>)"
proof (cases "k < sc_block_size (pr_sched X) \<and> st_of (pr_sched X) k = ReadyToExecute")
  case True
  then have r: "s' = set_tx_status k Executing (pr_sched X)" "p = Busy (Execution (version_of (pr_sched X) k))"
    using l by (simp_all add: look_at_claim_def)
  show ?thesis by (rule taken_inv[OF inv s, where k = k and t = t]) (use P r ip' True in simp_all)
next
  case False
  then have r: "s' = pr_sched X" "owned p = None"
      "k < sc_block_size (pr_sched X) \<Longrightarrow> is_done (st_of (pr_sched X) k) \<Longrightarrow> waits p NoJob k r" for r
    using l by (auto simp: look_at_claim_def split: if_splits)
  show ?thesis unfolding r(1) by (rule idle_step_inv[OF inv]) (use P r in auto)
qed

lemma same_finished: "X\<lparr>pr_sched := s, pr_pcs := P, pr_finished := pr_finished X\<rparr> = X\<lparr>pr_sched := s, pr_pcs := P\<rparr>"
  by (cases X) simp

lemma quiet_inv:
  assumes inv: "run_inv R transact K V X" and s: "inv_sched (pr_sched X) (pr_pcs X) (pr_finished X)"
    and e: "sched_event e X = Some X'" "quiet e" and ip': "inv_pcs (pr_sched X') (pr_pcs X')"
  shows "run_inv R transact K V X'"
proof -
  note J = run_invD(4)[OF inv]
  note step = e(1)[unfolded sched_event_def]
  show ?thesis
  proof (cases e)
    case (ClaimValidation t)
    then have P: "pr_pcs X t = Idle" and X': "X' = X\<lparr>pr_sched := (pr_sched X)\<lparr>validation_idx := usize_fetch_add (validation_idx (pr_sched X)) 1\<rparr>,
        pr_pcs := (pr_pcs X)(t := ClaimV (validation_idx (pr_sched X)))\<rparr>"
      using step by (auto simp: same_finished split: pc.splits)
    show ?thesis unfolding X'
      by (rule idle_step_inv[OF inv]) (use P J[of t] in \<open>auto dest: usize_fetch_add_le\<close>)
  next
    case (TakeValidation t)
    then obtain k p s' where P: "pr_pcs X t = ClaimV k" and l: "look_at_claim k (pr_sched X) = (p, s')"
      and X': "X' = X\<lparr>pr_sched := s', pr_pcs := (pr_pcs X)(t := p)\<rparr>"
      using step by (auto simp: same_finished split: pc.splits prod.splits)
    show ?thesis unfolding X' by (rule claimed_inv[OF inv s l P]) (use P J[of t] ip' X' in simp_all)
  next
    case (ClaimExecution t)
    then have P: "pr_pcs X t = Idle" and X': "X' = X\<lparr>pr_sched := (pr_sched X)\<lparr>execution_idx := usize_fetch_add (execution_idx (pr_sched X)) 1\<rparr>,
        pr_pcs := (pr_pcs X)(t := ClaimE (execution_idx (pr_sched X)))\<rparr>"
      using step by (auto simp: same_finished split: pc.splits)
    show ?thesis unfolding X' by (rule idle_step_inv[OF inv]) (use P J[of t] in auto)
  next
    case (TakeExecution t)
    then obtain k r s' where P: "pr_pcs X t = ClaimE k" and l: "try_execute k (pr_sched X) = (r, s')"
      and X': "X' = X\<lparr>pr_sched := s', pr_pcs := (pr_pcs X)(t := pc_of_task (map_option Execution r))\<rparr>"
      using step by (auto simp: same_finished split: pc.splits prod.splits)
    show ?thesis unfolding X' by (rule try_execute_inv[OF inv s l refl]) (use P J[of t] ip' X' in simp_all)
  next
    case (Settled t)
    then obtain v where P: "pr_pcs X t = Settling v"
      and X': "X' = X\<lparr>pr_sched := mark_validated v (pr_sched X), pr_pcs := (pr_pcs X)(t := Idle)\<rparr>"
      using step by (auto simp: same_finished split: pc.splits)
    show ?thesis unfolding X' by (rule settled_inv[OF inv s P]) (use P J[of t] in simp)
  next
    case (Retaken t)
    then obtain v r s' where P: "pr_pcs X t = Requeue v" and l: "retake_aborted v (pr_sched X) = (r, s')"
      and X': "X' = X\<lparr>pr_sched := s', pr_pcs := (pr_pcs X)(t := pc_of_task r)\<rparr>"
      using step by (auto simp: same_finished split: pc.splits prod.splits)
    show ?thesis
    proof (cases "tv_idx v < execution_idx (pr_sched X)")
      case True
      then obtain r' where te: "try_execute (tv_idx v) (pr_sched X) = (r', s')" "r = map_option Execution r'"
        using l by (auto simp: retake_aborted_def split: prod.splits)
      show ?thesis unfolding X' te(2) by (rule try_execute_inv[OF inv s te(1) refl]) (use P J[of t] ip' X' te in simp_all)
    next
      case False
      then have r: "r = None" "s' = pr_sched X" using l by (auto simp: retake_aborted_def)
      show ?thesis unfolding X' r by (rule idle_step_inv[OF inv]) (use P J[of t] in \<open>auto simp: pc_of_task_def\<close>)
    qed
  next
    case (Leaves t)
    then have P: "pr_pcs X t = Idle" and X': "X' = X\<lparr>pr_sched := pr_sched X, pr_pcs := (pr_pcs X)(t := Exited)\<rparr>"
      using step by (auto simp: same_finished split: pc.splits if_splits)
    show ?thesis unfolding X' by (rule idle_step_inv[OF inv]) (use P J[of t] in auto)
  qed (use e(2) in auto)
qed

section \<open>All steps\<close>

lemma live_step_inv:
  assumes step: "live_step R transact V e X = Some X'" and inv: "run_inv R transact K V X"
    and s: "inv_sched (pr_sched X) (pr_pcs X) (pr_finished X)" and ip': "inv_pcs (pr_sched X') (pr_pcs X')"
    and live: "\<not> aborted (pr_sched X')"
    and V: "revm_sound R transact K V" "stored_codes (vm_db V) K" "length (vm_txs V) = sc_block_size (pr_sched X)"
  shows "run_inv R transact K V X'"
proof -
  have ip: "inv_pcs (pr_sched X) (pr_pcs X)" using s by (simp add: inv_sched_def)
  note J = run_invD(4)[OF inv]
  show ?thesis
  proof (cases e)
    case (Schedule e')
    then show ?thesis using step quiet_inv[OF inv s _ _ ip'] by (simp split: if_splits)
  next
    case (LeavesEarly t t')
    then have P: "pr_pcs X t = Idle" and X': "X' = X\<lparr>pr_sched := pr_sched X, pr_pcs := (pr_pcs X)(t := Exited)\<rparr>"
      using step by (auto split: if_splits)
    show ?thesis unfolding X' by (rule idle_step_inv[OF inv]) (use P J[of t] in auto)
  next
    case (RunBlocked t ks)
    then obtain v b where P: "pr_pcs X t = Busy (Execution v)" "pr_jobs X t = NoJob" and e': "sched_event (Blocked t b) X = Some X'"
      using step by (auto split: pc.splits task.splits job.splits if_splits sum.splits vm_execution_error.splits)
    obtain s' where "add_dependency (tv_idx v) b (pr_sched X) = (True, s')"
        "X' = X\<lparr>pr_sched := s', pr_pcs := (pr_pcs X)(t := Idle)\<rparr>"
      using e' P by (auto simp: sched_event_def same_finished split: if_splits prod.splits bool.splits)
    then show ?thesis using blocked_inv[OF inv s P] by simp
  next
    case (RunFatal t ks)
    then show ?thesis
      using step live by (auto simp: put_mem_def split: pc.splits task.splits job.splits if_splits prod.splits)
  next
    case (RunRecords t ks ops)
    then obtain v out db res m' ws where "pr_pcs X t = Busy (Execution v)" "pr_jobs X t = NoJob" "moments ks (pr_hist X)"
        "vm_execute R transact V v (mems_of (pr_hist X) ks) (pr_mem X) = (Inr res, m')"
        "vm_read_phase R transact V (tv_idx v) (mems_of (pr_hist X) ks) = Inr (Inr out, db)"
        "final_writes R V (tv_idx v) db out = Inr ws" "distinct ops"
        "set ops = set (record_ops v ws (writes_of (pr_mem X) (tv_idx v)))"
        "X' = put_job t (Recording ops res) (put_mem (m'\<lparr>mv_data := mv_data (pr_mem X)\<rparr>)
          (X\<lparr>pr_log := (pr_log X)(v \<mapsto> \<lparr>le_mems = mems_of (pr_hist X) ks, le_out = out, le_db = db, le_ws = ws\<rparr>)\<rparr>))"
      using step by (auto simp: Let_def writes_of_def index_mutex_def
          split: pc.splits task.splits job.splits if_splits sum.splits prod.splits)
    then show ?thesis using records_inv[OF inv s V _ _ _ refl] by blast
  next
    case (RecordOne t)
    then show ?thesis
      using step record_one_inv[OF inv ip] by (auto split: pc.splits task.splits job.splits list.splits)
  next
    case (RunFinishes t)
    then obtain v res where P: "pr_pcs X t = Busy (Execution v)" "pr_jobs X t = Recording [] res"
      and e': "sched_event (Finished t (vr_flags res)) (put_job t NoJob (X\<lparr>pr_exec := (pr_exec X)\<lparr>execution_results :=
               (execution_results (pr_exec X))[tv_idx v := Some (vr_execution_result res)]\<rparr>\<rparr>)) = Some X'"
      using step by (auto split: pc.splits task.splits job.splits list.splits)
    obtain r s' where f: "finish_execution v (vr_flags res) (pr_sched X) = (r, s')" by force
    then show ?thesis
      using finished_inv[OF inv s P f, of X'] e' P by (auto simp: sched_event_def put_job_def)
  next
    case (CheckBegins t)
    then obtain v where P: "pr_pcs X t = Busy (Validation v)" "pr_jobs X t = NoJob"
      and X': "X' = put_job t (Checking (reads_of (pr_mem X) (tv_idx v))) X"
      using step by (auto simp: reads_of_def index_mutex_def split: pc.splits task.splits job.splits)
    show ?thesis unfolding X' by (rule check_step_inv[OF inv P(1)]) simp_all
  next
    case (CheckOne t)
    then obtain v r rs where P: "pr_pcs X t = Busy (Validation v)" "pr_jobs X t = Checking (r # rs)"
      and X': "X' = put_job t (if read_valid (mv_data (pr_mem X)) (tv_idx v) r then Checking rs else Invalid) X"
      using step by (auto split: pc.splits task.splits job.splits list.splits)
    show ?thesis unfolding X' by (rule check_step_inv[OF inv P(1)]) (auto simp: P(2))
  next
    case (CheckPasses t)
    then obtain v where P: "pr_pcs X t = Busy (Validation v)" "pr_jobs X t = Checking []"
      and X': "X' = X\<lparr>pr_jobs := (pr_jobs X)(t := NoJob), pr_pcs := (pr_pcs X)(t := Settling v)\<rparr>"
      using step by (auto simp: sched_event_def put_job_def split: pc.splits task.splits job.splits list.splits)
    show ?thesis by (rule sched_step_inv[OF inv, where t = t and p = "Settling v"]) (use P in \<open>auto simp: X'\<close>)
  next
    case (CheckFails t)
    then obtain v where P: "pr_pcs X t = Busy (Validation v)" "pr_jobs X t = Invalid"
      and e': "sched_event (Failed t) (put_job t NoJob X) = Some X'"
      using step by (auto split: pc.splits task.splits job.splits list.splits)
    obtain ab s' where a: "try_validation_abort v (pr_sched X) = (ab, s')" by force
    have X': "X' = X\<lparr>pr_sched := s', pr_pcs := (pr_pcs X)(t := if ab then Aborting v else Settling v),
        pr_jobs := (pr_jobs X)(t := NoJob)\<rparr>"
      using e' P a by (cases X) (auto simp: sched_event_def put_job_def)
    show ?thesis unfolding X' by (rule failed_inv[OF inv s P a]) (use ip' X' in simp)
  next
    case (ConvertBegins t)
    then obtain v where P: "pr_pcs X t = Aborting v" "pr_jobs X t = NoJob"
      and X': "X' = put_job t (Converting (writes_of (pr_mem X) (tv_idx v))) X"
      using step by (auto simp: writes_of_def index_mutex_def split: pc.splits job.splits)
    show ?thesis unfolding X' by (rule convert_begins_inv[OF inv ip P])
  next
    case (ConvertOne t)
    then show ?thesis
      using step convert_one_inv[OF inv ip] by (auto split: pc.splits job.splits list.splits)
  next
    case (ConvertEnds t)
    then obtain v where P: "pr_pcs X t = Aborting v" "pr_jobs X t = Converting []"
      and e': "sched_event (Rescheduled t) (put_job t NoJob X) = Some X'"
      using step by (auto split: pc.splits job.splits list.splits)
    have X': "X' = X\<lparr>pr_sched := reschedule_aborted v (pr_sched X), pr_pcs := (pr_pcs X)(t := Requeue v),
        pr_jobs := (pr_jobs X)(t := NoJob)\<rparr>"
      using e' P by (cases X) (auto simp: sched_event_def put_job_def)
    show ?thesis unfolding X' by (rule converted_inv[OF inv s P])
  qed
qed

end
