(* ===== verification/Parallel_Sample.thy ===== *)
theory Parallel_Sample
  imports Parallel_Run
begin

text \<open>
  A run of two threads on a block of two transactions. The second transaction is executed first and
  reads a slot from the storage; then the first one writes the slot, the validation of the second
  fails, its writes become estimates, and it is executed again on the value of the first.
\<close>

section \<open>The run\<close>

definition sample_start :: pe_run where
  "sample_start = pe_init sample_R sample_env [sample_tx 0, sample_tx 1] 2 parallel_executor_default"

definition sample_speculates :: "pe_event list" where
  "sample_speculates = [Schedule (ClaimExecution 0), Schedule (TakeExecution 0), Schedule (ClaimExecution 1), Schedule (TakeExecution 1),
     RunRecords 1 [0] [(36, Some (Data 0 (LazyRecipient 6)))], RecordOne 1, RunFinishes 1,
     CheckBegins 1, CheckOne 1, CheckPasses 1, Schedule (Settled 1)]"

definition sample_aborts :: "pe_event list" where
  "sample_aborts = [RunRecords 0 [0] [(22, Some (Data 0 (VStorage 7))), (36, Some (Data 0 (LazyRecipient 6)))],
     RecordOne 0, RecordOne 0, RunFinishes 0, CheckBegins 0, CheckPasses 0, Schedule (Settled 0),
     Schedule (ClaimValidation 1), Schedule (TakeValidation 1), CheckBegins 1, CheckOne 1, CheckFails 1,
     ConvertBegins 1, ConvertOne 1, ConvertEnds 1, Schedule (Retaken 1)]"

definition sample_reruns :: "pe_event list" where
  "sample_reruns = [RunRecords 1 [6] [(36, Some (Data 1 (LazyRecipient 6)))], RecordOne 1, RunFinishes 1,
     CheckBegins 1, CheckOne 1, CheckPasses 1, Schedule (Settled 1), Schedule (Leaves 0), Schedule (Leaves 1)]"


lemma sample_start_state:
  "sample_start = \<lparr>pr_sched = scheduler_new 2, pr_pcs = (\<lambda>t. if t < 2 then Idle else Exited), pr_finished = {},
     pr_mem = sample_m0, pr_exec = \<lparr>execution_results = [None, None], pe_abort_reason = None\<rparr>,
     pr_jobs = (\<lambda>_. NoJob), pr_hist = [sample_m0], pr_log = Map.empty\<rparr>"
  by (simp add: sample_start_def pe_init_def Let_def sample_m0_def sample_env_def reserve_results_def parallel_executor_default_def
    numeral_2_eq_2)

lemmas pe_run_simps = pe_step_def sched_event_def put_job_def put_mem_def apply_op_def insert_entry_def remove_entry_def record_ops_def

definition sample_db' :: vmdb where
  "sample_db' = (sample_db 1)\<lparr>db_read_set := [(22, [OriginStorage])]\<rparr>"

lemma sample_reads:
  "vm_read_phase sample_R sample_transact sample_V 0 mems = Inr (Inr (sample_out 0), sample_db 0)"
  "mv_data (mems 3) 22 = Some [(0, Data 0 (VStorage 7))] \<Longrightarrow>
     vm_read_phase sample_R sample_transact sample_V 1 mems = Inr (Inr (sample_out 1), sample_db 1)"
  "mv_data (mems 3) 22 = None \<Longrightarrow>
     vm_read_phase sample_R sample_transact sample_V 1 mems = Inr (Inr (sample_out 1), sample_db')"
proof -
  show "vm_read_phase sample_R sample_transact sample_V 0 mems = Inr (Inr (sample_out 0), sample_db 0)"
    by (simp only: vm_read_phase_with sample_read_phase_0)
  show "vm_read_phase sample_R sample_transact sample_V 1 mems = Inr (Inr (sample_out 1), sample_db 1)"
    if "mv_data (mems 3) 22 = Some [(0, Data 0 (VStorage 7))]"
    by (simp only: vm_read_phase_with sample_read_phase_1[of mems, OF that])
  show "vm_read_phase sample_R sample_transact sample_V 1 mems = Inr (Inr (sample_out 1), sample_db')"
    if "mv_data (mems 3) 22 = None"
    using that
    by (simp add: vm_read_phase_def vmdb_new_def Let_def sample_block_simps sample_transact_def sample_db'_def
      vmdb_storage_def closest_def push_origin_def origins_at_def put_origins_def answer_def lift_storage_def)
qed

lemma sample_final_writes':
  "final_writes sample_R sample_V 1 sample_db' (sample_out 1) = Inr (sample_ws 1)"
  by (simp_all add: final_writes_def apply_rewards_def rewards_of_def write_accounts_def write_account_def sample_db'_def
      write_slots_def sample_block_simps effective_gas_price_def reward_policy_def saturating_mul_def Let_def)

lemma sample_execute:
  assumes "vm_read_phase sample_R sample_transact sample_V (tv_idx v) mems = Inr (Inr out, db)"
    "tv_idx v = 0 \<and> out = sample_out 0 \<and> db = sample_db 0
      \<or> tv_idx v = 1 \<and> out = sample_out 1 \<and> (db = sample_db 1 \<or> db = sample_db')"
    "mv_record v (db_read_set db) (sample_ws (tv_idx v)) m = (b, m')"
  shows "vm_execute sample_R sample_transact sample_V v mems m =
    (Inr \<lparr>vr_execution_result = from_raw 0 (fst out) (snd out), vr_flags = if b then WroteNewLocation else flags_empty\<rparr>, m')"
  using assms(2)
  apply (elim disjE conjE)
  using assms
  apply (auto simp: vm_execute_def Let_def execution_succeeded_def write_accounts_def write_account_def sample_db'_def apply_rewards_def rewards_of_def
      write_slots_def sample_block_simps effective_gas_price_def reward_policy_def saturating_mul_def flags_or_def NeedValidation_def flags_empty_def WroteNewLocation_def)
  done

lemma sample_db_reads:
  "db_read_set sample_db' = [(22, [OriginStorage])]" "db_read_set (sample_db 0) = []"
  "db_read_set (sample_db (Suc 0)) = [(22, [OriginMvMemory \<lparr>tv_idx = 0, tv_incarnation = 0\<rparr>])]"
  by (simp_all add: sample_db'_def sample_db_def)

lemmas sample_vm_simps = sample_execute[unfolded One_nat_def] sample_reads[unfolded One_nat_def]
  sample_final_writes[unfolded One_nat_def] sample_final_writes'[unfolded One_nat_def] sample_db_reads sample_ws_def

lemmas sample_run_simps = pe_run_simps sample_simps sample_vm_simps
     mems_of_def moments_def sample_record_simps read_valid_def bt_below_def bt_range_def mark_estimate_def
     try_validation_abort_def usize_fetch_sub_def reschedule_aborted_def retake_aborted_def

lemma sample_runs:
  assumes "vm_read_phase sample_R sample_transact sample_V (tv_idx v) (mems_of H ks) = Inr (Inr out, db)"
    "tv_idx v = 0 \<and> out = sample_out 0 \<and> db = sample_db 0
      \<or> tv_idx v = 1 \<and> out = sample_out 1 \<and> (db = sample_db 1 \<or> db = sample_db')"
    "mv_record v (db_read_set db) (sample_ws (tv_idx v)) m = (b, m')"
    "P t = Busy (Execution v)" "J t = NoJob" "moments ks H"
    "ops = record_ops v (sample_ws (tv_idx v)) (rw_write (index_mutex (mv_locations m) (tv_idx v)))" "distinct ops"
  shows "live_step sample_R sample_transact sample_V (RunRecords t ks ops)
     \<lparr>pr_sched = S, pr_pcs = P, pr_finished = F, pr_mem = m, pr_exec = E, pr_jobs = J, pr_hist = H, pr_log = L\<rparr>
   = Some \<lparr>pr_sched = S, pr_pcs = P, pr_finished = F, pr_mem = m'\<lparr>mv_data := mv_data m\<rparr>, pr_exec = E,
       pr_jobs = J(t := Recording ops \<lparr>vr_execution_result = from_raw 0 (fst out) (snd out),
         vr_flags = if b then WroteNewLocation else flags_empty\<rparr>),
       pr_hist = H @ [m'\<lparr>mv_data := mv_data m\<rparr>],
       pr_log = L(v \<mapsto> \<lparr>le_mems = mems_of H ks, le_out = out, le_db = db, le_ws = sample_ws (tv_idx v)\<rparr>)\<rparr>"
proof -
  have "final_writes sample_R sample_V (tv_idx v) db out = Inr (sample_ws (tv_idx v))"
    using assms(2) sample_final_writes sample_final_writes' by auto
  then show ?thesis
    using assms(1,4-8) sample_execute[OF assms(1-3)] by (simp add: Let_def put_job_def put_mem_def)
qed



definition sample_memory :: "(nat, entry) btree option \<Rightarrow> (nat, entry) btree \<Rightarrow> read_write_set list \<Rightarrow> mv_memory" where
  "sample_memory b bs ls = \<lparr>mv_data = [36 \<mapsto> bs](22 := b), mv_locations = ls,
     lazy_addresses = [9], new_bytecodes = Map.empty\<rparr>"

lemma sample_memory_simps:
  "mv_data (sample_memory b bs ls) 22 = b" "mv_data (sample_memory b bs ls) 36 = Some bs"
  "mv_locations (sample_memory b bs ls) = ls"
  "(mv_data (sample_memory b bs ls))(22 \<mapsto> c) = mv_data (sample_memory (Some c) bs ls)"
  "(mv_data (sample_memory b bs ls))(36 \<mapsto> bs') = mv_data (sample_memory b bs' ls)"
  "(sample_memory b bs ls)\<lparr>mv_data := mv_data (sample_memory b' bs' ls')\<rparr> = sample_memory b' bs' ls"
  "(sample_memory b bs ls)\<lparr>mv_locations := ls'\<rparr> = sample_memory b bs ls'"
  "(sample_memory b bs ls)\<lparr>mv_locations := ls', mv_data := mv_data (sample_memory b' bs' ls'')\<rparr> = sample_memory b' bs' ls'"
  by (auto simp: sample_memory_def)

lemmas sample_records_simps = sample_record_simps sample_db_reads sample_ws_def sample_memory_simps

abbreviation sample_rw0 :: "read_write_set" where
  "sample_rw0 \<equiv> \<lparr>rw_read = [], rw_write = [22, 36]\<rparr>"

abbreviation sample_rw1 :: "read_origin \<Rightarrow> read_write_set" where
  "sample_rw1 r \<equiv> \<lparr>rw_read = [(22, [r])], rw_write = [36]\<rparr>"

abbreviation sample_val :: "nat \<Rightarrow> entry" where
  "sample_val k \<equiv> Data k (LazyRecipient 6)"

abbreviation sample_res :: "nat \<Rightarrow> bool \<Rightarrow> vm_execution_result" where
  "sample_res i new \<equiv> \<lparr>vr_execution_result = from_raw 0 (fst (sample_out i)) (snd (sample_out i)),
     vr_flags = if new then WroteNewLocation else flags_empty\<rparr>"

lemma sample_runs_0:
  assumes "H \<noteq> []" "P t = Busy (Execution \<lparr>tv_idx = 0, tv_incarnation = 0\<rparr>)" "J t = NoJob"
    "ops = [(22, Some (Data 0 (VStorage 7))), (36, Some (sample_val 0))]"
  shows "live_step sample_R sample_transact sample_V (RunRecords t [0] ops)
     \<lparr>pr_sched = S, pr_pcs = P, pr_finished = F, pr_mem = sample_memory b bs [\<lparr>rw_read = [], rw_write = []\<rparr>, rw],
      pr_exec = E, pr_jobs = J, pr_hist = H, pr_log = L\<rparr>
   = Some \<lparr>pr_sched = S, pr_pcs = P, pr_finished = F, pr_mem = sample_memory b bs [sample_rw0, rw], pr_exec = E,
       pr_jobs = J(t := Recording ops (sample_res 0 True)), pr_hist = H @ [sample_memory b bs [sample_rw0, rw]],
       pr_log = L(\<lparr>tv_idx = 0, tv_incarnation = 0\<rparr> \<mapsto> \<lparr>le_mems = mems_of H [0], le_out = sample_out 0,
         le_db = sample_db 0, le_ws = sample_ws 0\<rparr>)\<rparr>"
  by (subst sample_runs[where v = "\<lparr>tv_idx = 0, tv_incarnation = 0\<rparr>" and out = "sample_out 0"
        and db = "sample_db 0" and b = True
        and m' = "sample_memory (Some (bt_insert 0 (Data 0 (VStorage 7)) (case b of None \<Rightarrow> [] | Some t \<Rightarrow> t)))
          (bt_insert 0 (sample_val 0) bs) [sample_rw0, rw]"])
    (use assms in \<open>simp_all add: sample_reads mems_of_def moments_def record_ops_def sample_records_simps\<close>)

lemma sample_runs_1:
  assumes "H \<noteq> []" "mv_data (H ! 0) 22 = None" "P t = Busy (Execution \<lparr>tv_idx = 1, tv_incarnation = 0\<rparr>)" "J t = NoJob"
    "ops = [(36, Some (sample_val 0))]"
  shows "live_step sample_R sample_transact sample_V (RunRecords t [0] ops)
     \<lparr>pr_sched = S, pr_pcs = P, pr_finished = F, pr_mem = sample_memory b bs [rw, \<lparr>rw_read = [], rw_write = []\<rparr>],
      pr_exec = E, pr_jobs = J, pr_hist = H, pr_log = L\<rparr>
   = Some \<lparr>pr_sched = S, pr_pcs = P, pr_finished = F, pr_mem = sample_memory b bs [rw, sample_rw1 OriginStorage], pr_exec = E,
       pr_jobs = J(t := Recording ops (sample_res 1 True)),
       pr_hist = H @ [sample_memory b bs [rw, sample_rw1 OriginStorage]], pr_log = L(\<lparr>tv_idx = 1, tv_incarnation = 0\<rparr> \<mapsto> \<lparr>le_mems = mems_of H [0], le_out = sample_out 1,
         le_db = sample_db', le_ws = sample_ws 1\<rparr>)\<rparr>"
  by (subst sample_runs[where v = "\<lparr>tv_idx = 1, tv_incarnation = 0\<rparr>" and out = "sample_out 1"
        and db = sample_db' and b = True
        and m' = "sample_memory b (bt_insert 1 (sample_val 0) bs) [rw, sample_rw1 OriginStorage]"])
    (use assms in \<open>simp_all add: sample_reads[unfolded One_nat_def] mems_of_def moments_def record_ops_def sample_records_simps\<close>)

lemma sample_reruns_1:
  assumes "k < length H" "mv_data (H ! k) 22 = Some [(0, Data 0 (VStorage 7))]"
    "P t = Busy (Execution \<lparr>tv_idx = 1, tv_incarnation = 1\<rparr>)" "J t = NoJob"
    "ops = [(36, Some (sample_val 1))]"
  shows "live_step sample_R sample_transact sample_V (RunRecords t [k] ops)
     \<lparr>pr_sched = S, pr_pcs = P, pr_finished = F, pr_mem = sample_memory b bs [rw, sample_rw1 og],
      pr_exec = E, pr_jobs = J, pr_hist = H, pr_log = L\<rparr>
   = Some \<lparr>pr_sched = S, pr_pcs = P, pr_finished = F,
       pr_mem = sample_memory b bs [rw, sample_rw1 (OriginMvMemory \<lparr>tv_idx = 0, tv_incarnation = 0\<rparr>)], pr_exec = E,
       pr_jobs = J(t := Recording ops (sample_res 1 False)),
       pr_hist = H @ [sample_memory b bs [rw, sample_rw1 (OriginMvMemory \<lparr>tv_idx = 0, tv_incarnation = 0\<rparr>)]], pr_log = L(\<lparr>tv_idx = 1, tv_incarnation = 1\<rparr> \<mapsto> \<lparr>le_mems = mems_of H [k], le_out = sample_out 1,
         le_db = sample_db 1, le_ws = sample_ws 1\<rparr>)\<rparr>"
  by (subst sample_runs[where v = "\<lparr>tv_idx = 1, tv_incarnation = 1\<rparr>" and out = "sample_out 1"
        and db = "sample_db 1" and b = False
        and m' = "sample_memory b (bt_insert 1 (sample_val 1) bs) [rw, sample_rw1 (OriginMvMemory \<lparr>tv_idx = 0, tv_incarnation = 0\<rparr>)]"])
    (use assms in \<open>simp_all add: sample_reads[unfolded One_nat_def] mems_of_def moments_def record_ops_def sample_records_simps\<close>)


lemma sample_m0_memory: "sample_m0 = sample_memory None [(0, Estimate), (1, Estimate)] [\<lparr>rw_read = [], rw_write = []\<rparr>, \<lparr>rw_read = [], rw_write = []\<rparr>]"
  by (auto simp: sample_m0_state sample_memory_def)

lemmas sample_events = sample_runs_0[OF _ _ _ refl] sample_runs_1[OF _ _ _ _ refl, unfolded One_nat_def] sample_reruns_1[OF _ _ _ _ refl, unfolded One_nat_def] pe_step_def sched_event_def put_job_def put_mem_def apply_op_def
  insert_entry_def remove_entry_def sample_memory_simps sample_simps read_valid_def bt_below_def bt_range_def mark_estimate_def
     try_validation_abort_def usize_fetch_sub_def reschedule_aborted_def retake_aborted_def

declare live_step.simps(5)[simp del]


definition sample_final_memory :: mv_memory where
  "sample_final_memory = sample_memory (Some [(0, Data 0 (VStorage 7))]) [(0, sample_val 0), (1, sample_val 1)]
     [sample_rw0, sample_rw1 (OriginMvMemory \<lparr>tv_idx = 0, tv_incarnation = 0\<rparr>)]"

text \<open>Both threads leave, and the block is not aborted.\<close>

lemma sample_block_ends:
  "\<exists>X. pe_run_events sample_R sample_transact sample_V (sample_speculates @ sample_aborts @ sample_reruns) sample_start = Some X
     \<and> (\<forall>t. pr_pcs X t = Exited) \<and> \<not> aborted (pr_sched X) \<and> pe_abort_reason (pr_exec X) = None
     \<and> execution_results (pr_exec X)
         = [Some (from_raw 0 (fst (sample_out 0)) (snd (sample_out 0))), Some (from_raw 0 (fst (sample_out 1)) (snd (sample_out 1)))]
     \<and> pr_mem X = sample_final_memory"
  by (simp add: sample_final_memory_def sample_events sample_start_state sample_speculates_def sample_aborts_def sample_reruns_def sample_m0_memory
      less_2_cases_iff)

lemma pe_run_events_reachable:
  "pe_run_events R transact V es X = Some Y \<Longrightarrow> pe_reachable R transact V X0 X \<Longrightarrow> pe_reachable R transact V X0 Y"
proof (induction es arbitrary: X)
  case (Cons e es)
  then show ?case by (auto split: option.splits intro: pe_next)
qed simp

lemma sample_block_run:
  obtains X where "pe_reachable sample_R sample_transact sample_V (pe_init sample_R sample_env [sample_tx 0, sample_tx 1] 2 parallel_executor_default) X"
    "\<forall>t. pr_pcs X t = Exited" "\<not> aborted (pr_sched X)" "pe_abort_reason (pr_exec X) = None"
    "execution_results (pr_exec X) = [Some (from_raw 0 (fst (sample_out 0)) (snd (sample_out 0))), Some (from_raw 0 (fst (sample_out 1)) (snd (sample_out 1)))]"
    "pr_mem X = sample_final_memory"
  using sample_block_ends pe_run_events_reachable[OF _ pe_start] unfolding sample_start_def by blast

end
