(* ===== verification/Parallel_Serial.thy ===== *)
theory Parallel_Serial
  imports Parallel_Invariant Parallel_Sample
begin

text \<open>
  Parallel execution is serial execution. When all threads have left and none has aborted the
  block, every transaction has a result, and the results and the final memory are those of
  executing the transactions one after the other.
\<close>

section \<open>Reachable states\<close>

lemma pe_init_inv:
  assumes V: "V = vm_new R D env txs" and "length txs < usize_modulus"
  shows "run_inv R transact K V (pe_init R env txs k E)"
proof -
  let ?m = "build_mv_memory (hash_location R) (ee_beneficiary env) txs" and ?n = "length txs"
  let ?X = "pe_init R env txs k E"
  have x: "pr_mem ?X = ?m" "pr_sched ?X = scheduler_new ?n" "pr_hist ?X = [?m]" "pr_log ?X = Map.empty" "pr_jobs ?X = (\<lambda>_. NoJob)"
      "pr_pcs ?X = (\<lambda>t. if t < k then Idle else Exited)" "pr_exec ?X = reserve_results ?n E"
    by (simp_all add: pe_init_def Let_def)
  have b: "beneficiary_location_hash V = hash_location R (Basic (ee_beneficiary env))" using V by (simp add: vm_new_def Let_def)
  note I = build_mv_memory_initial[where txs = txs and h = "hash_location R" and b = "ee_beneficiary env"]
  have m: "mv_inv ?m" "length (mv_locations ?m) = ?n" "\<And>i. i < ?n \<Longrightarrow> writes_of ?m i = []"
      "\<And>l i inc val. entry_at (mv_data ?m) l i \<noteq> Some (Data inc val)"
    using I(1) by (simp_all add: initial_memory_def)
  have st: "sc_block_size (scheduler_new ?n) = ?n" "\<And>i. i < ?n \<Longrightarrow> st_of (scheduler_new ?n) i = ReadyToExecute"
    by (simp_all add: scheduler_new_def tx_at_def index_mutex_def)
  have nh: "\<not> held (pr_pcs ?X) i" "owned (pr_pcs ?X t) \<noteq> Some i" for i t by (simp_all add: held_def x)
  have raw: "raw_entries (beneficiary_location_hash V) ?m i" if "i < ?n" for i
    unfolding raw_entries_def b using I(2)[of _ i] m(3)[OF that] m(4)[of _ i]
    by (metis entry.exhaust list.set(1) empty_iff not_None_eq)
  have "hist_inv K ?X" using m(4) I(3)[of K] mv_invD(1)[OF m(1)] by (simp add: hist_inv_def x)
  moreover have "log_inv R transact K V ?X" by (simp add: log_inv_def x)
  moreover have "tx_entries R V ?X i \<and> fresh ?X i" if "i < ?n" for i
    using tx_entries_free[OF nh(1), of i V R] raw[OF that] st(2)[OF that] by (simp add: x fresh_def)
  moreover have "?n \<le> length (execution_results (reserve_results ?n E))" by (simp add: reserve_results_def Let_def)
  moreover have "job_ok (pr_pcs ?X t) (pr_jobs ?X t)" for t by (simp add: x)
  ultimately show ?thesis unfolding run_inv_def using m(2,3) st(1) by (simp add: x)
qed

lemma pe_step_live: "pe_step R transact V e X = Some X' \<Longrightarrow> \<not> aborted (pr_sched X') \<Longrightarrow>
    \<not> aborted (pr_sched X) \<and> live_step R transact V e X = Some X'"
  by (auto simp: pe_step_def split: if_splits pe_event.splits event.splits)

lemma pe_reachable_inv:
  assumes r: "pe_reachable R transact V (pe_init R env txs k E) X" and live: "\<not> aborted (pr_sched X)"
    and V: "V = vm_new R D env txs" and n: "length txs < usize_modulus" "0 < k"
    and K: "revm_sound R transact K V" "stored_codes D K"
  shows "run_inv R transact K V X"
  using r live
proof induction
  case pe_start
  then show ?case using pe_init_inv[OF V n(1)] by blast
next
  case (pe_next X e X')
  note L = pe_step_live[OF pe_next.hyps(2) pe_next.prems]
  have r: "reachable (length txs) k (sys_of X)" "reachable (length txs) k (sys_of X')"
    using pe_reachable_sched pe_next.hyps(1) pe_reachable.pe_next[OF pe_next.hyps] by blast+
  have i: "inv_sched (pr_sched X) (pr_pcs X) (pr_finished X)" "sc_block_size (pr_sched X) = length txs"
    using reachable_inv[OF r(1) n(2,1)] L by (simp_all add: sys_inv_def sys_of_def mk_sys_def)
  have i': "inv_pcs (pr_sched X') (pr_pcs X')"
    using reachable_inv[OF r(2) n(2,1)] pe_next.prems by (simp add: sys_inv_def sys_of_def mk_sys_def inv_sched_def)
  have v: "vm_db V = D" "vm_txs V = txs" using V by (simp_all add: vm_new_def Let_def)
  show ?case
    using live_step_inv[OF conjunct2[OF L] _ i(1) i' pe_next.prems K(1)] pe_next.IH L K(2) v i(2) by simp
qed

text \<open>The last thread to leave has seen the exit condition.\<close>

lemma reachable_exit:
  assumes "reachable n k S" "0 < k" "\<forall>t. pcs S t = Exited" "\<not> aborted (sched S)"
  shows "exit_condition (sched S)"
  using assms(1,3,4)
proof induction
  case start
  then have "pcs (sys_init n k) 0 = Exited" by blast
  then show ?case using assms(2) by (simp add: sys_init_def)
next
  case (step S S')
  have up: "p = Exited" if "pcs S' = (pcs S)(t := p)" for t p using step.prems(1) that by (metis fun_upd_same)
  from step.hyps(2) show ?case
  proof (cases rule: worker_step.cases)
    case (take_validation t i p s')
    then show ?thesis using up[of t p] by (auto simp: look_at_claim_def split: if_splits)
  next
    case (validation_failed t v ab s')
    then show ?thesis using up[of t "if ab then Aborting v else Settling v"] by (simp split: if_splits)
  next
    case (worker_leaves t)
    then show ?thesis using step.prems by (auto split: if_splits)
  next
    case (execution_fatal t v)
    then show ?thesis using step.prems by (simp add: sched_abort_def)
  qed (use up step.prems in fastforce)+
qed

section \<open>The end of a run\<close>

lemma finished_run_parts:
  assumes inv: "run_inv R transact K V X" and s: "inv_sched (pr_sched X) (pr_pcs X) (pr_finished X)"
    and gone: "\<forall>t. pr_pcs X t = Exited" and x: "exit_condition (pr_sched X)"
    and all: "\<forall>i < sc_block_size (pr_sched X). is_done (st_of (pr_sched X) i)" and i: "i < sc_block_size (pr_sched X)"
  obtains e r where "pr_log X (version_of (pr_sched X) i) = Some e"
    "vm_ran R transact V i (le_mems e) (le_out e) (le_db e) (le_ws e)" "compatible_run (vm_db V) K (le_mems e) (pr_mem X) \<or> \<not> stored_codes (vm_db V) K"
    "state_codes R K (snd (le_out e))" "reads_of (pr_mem X) i = db_read_set (le_db e)"
    "set (writes_of (pr_mem X) i) = fst ` set (le_ws e)"
    "validate_read_locations i (pr_mem X)"
    "\<And>l. entry_at (mv_data (pr_mem X)) l i = map_option (Data (inc_of (pr_sched X) i)) (map_of (le_ws e) l)"
    "execution_results (pr_exec X) ! i = Some r" "result_of R V i e r"
proof -
  let ?v = "version_of (pr_sched X) i" and ?m = "pr_mem X"
  have nh: "\<not> held (pr_pcs X) i" using gone by (simp add: held_def)
  have d: "is_done (st_of (pr_sched X) i)" using all i by blast
  obtain e where e: "logged ?m (pr_log X) ?v e" "\<And>l. entry_at (mv_data ?m) l i = written ?v e l"
    using tx_entriesD(2)[OF run_invD(7)[OF inv i] nh d] by (auto simp: full_entries_def)
  obtain r where r: "execution_results (pr_exec X) ! i = Some r" "result_of R V i e r"
    using tx_entriesD(2)[OF run_invD(7)[OF inv i] nh d] e(1) by (auto simp: logged_def)
  have L: "pr_log X ?v = Some e" using e(1) by (simp add: logged_def)
  have log: "vm_ran R transact V i (le_mems e) (le_out e) (le_db e) (le_ws e)" "range (le_mems e) \<subseteq> set (pr_hist X)"
      "\<forall>j k. j \<le> k \<longrightarrow> new_bytecodes (le_mems e j) \<subseteq>\<^sub>m new_bytecodes (le_mems e k)" "state_codes R K (snd (le_out e))"
    using run_invD(6)[OF inv] L unfolding log_inv_def by (metis version_of_simps(1))+
  note H = run_invD(5)[OF inv]
  have c: "compatible (vm_db V) K (le_mems e j) ?m" if "stored_codes (vm_db V) K" for j
  proof -
    have mem: "le_mems e j \<in> set (pr_hist X)" using log(2) by blast
    have "versions_agree (le_mems e j) ?m"
      unfolding versions_agree_def
    proof (intro allI impI)
      fix l i inc val val'
      assume "entry_at (mv_data (le_mems e j)) l i = Some (Data inc val)" "entry_at (mv_data ?m) l i = Some (Data inc val')"
      then have "\<exists>e. pr_log X \<lparr>tv_idx = i, tv_incarnation = inc\<rparr> = Some e \<and> map_of (le_ws e) l = Some val"
          "\<exists>e. pr_log X \<lparr>tv_idx = i, tv_incarnation = inc\<rparr> = Some e \<and> map_of (le_ws e) l = Some val'"
        using H mem hist_mem(4)[OF H] unfolding hist_inv_def by blast+
      then show "val = val'" by auto
    qed
    then show ?thesis using H mem hist_mem[OF H] that unfolding compatible_def hist_inv_def by blast
  qed
  then have cr: "compatible_run (vm_db V) K (le_mems e) ?m \<or> \<not> stored_codes (vm_db V) K"
    using log(3) by (auto simp: compatible_run_def)
  have "\<not> unsettled X i r" for r
    using gone x i by (auto simp: unsettled_def exit_condition_def)
  then have "validate_read_locations i ?m"
    using run_invD(8)[OF inv i] d by (auto simp: fresh_def validate_read_locations_def index_mutex_def reads_of_def list_all_iff)
  then show thesis using that[OF L log(1) cr log(4)] e r by (simp add: logged_def written_def)
qed

text \<open>The final memory with the logged executions is a validated block.\<close>

lemma finished_run_validated:
  assumes inv: "run_inv R transact K V X" and s: "inv_sched (pr_sched X) (pr_pcs X) (pr_finished X)"
    and gone: "\<forall>t. pr_pcs X t = Exited" and x: "exit_condition (pr_sched X)"
    and all: "\<forall>i < sc_block_size (pr_sched X). is_done (st_of (pr_sched X) i)" and D: "stored_codes (vm_db V) K"
  obtains lz ee where
    "validated_block R transact K V (sc_block_size (pr_sched X)) (inc_of (pr_sched X)) lz (\<lambda>i. le_out (ee i))
       (\<lambda>i. le_db (ee i)) (\<lambda>i. le_ws (ee i)) (pr_mem X)"
    "\<And>i. i < sc_block_size (pr_sched X) \<Longrightarrow> \<exists>r. execution_results (pr_exec X) ! i = Some r \<and> result_of R V i (ee i) r"
proof -
  let ?s = "pr_sched X" and ?m = "pr_mem X" let ?n = "sc_block_size ?s"
  define ee where "ee i = the (pr_log X (version_of ?s i))" for i
  define lz where "lz i = lazy_candidate R (vm_txs V ! i) (le_mems (ee i) 1) (le_mems (ee i) 2)" for i
  note parts = finished_run_parts[OF inv s gone x all]
  have A: "(\<exists>mems. read_phase_with R transact V i (lz i) mems = Inr (Inr (le_out (ee i)), le_db (ee i))
            \<and> compatible_run (vm_db V) K mems ?m)
        \<and> state_codes R K (snd (le_out (ee i)))
        \<and> final_writes R V i (le_db (ee i)) (le_out (ee i)) = Inr (le_ws (ee i))
        \<and> reads_of ?m i = db_read_set (le_db (ee i))
        \<and> validate_read_locations i ?m
        \<and> (\<forall>loc. entry_at (mv_data ?m) loc i = map_option (Data (inc_of ?s i)) (map_of (le_ws (ee i)) loc))
        \<and> set (writes_of ?m i) = fst ` set (le_ws (ee i))
        \<and> (\<exists>r. execution_results (pr_exec X) ! i = Some r \<and> result_of R V i (ee i) r)"
    if i: "i < ?n" for i
  proof -
    obtain e :: log_entry and r where p: "pr_log X (version_of ?s i) = Some e"
        "vm_ran R transact V i (le_mems e) (le_out e) (le_db e) (le_ws e)"
        "compatible_run (vm_db V) K (le_mems e) ?m \<or> \<not> stored_codes (vm_db V) K"
        "state_codes R K (snd (le_out e))" "reads_of ?m i = db_read_set (le_db e)"
        "set (writes_of ?m i) = fst ` set (le_ws e)" "validate_read_locations i ?m"
        "\<And>l. entry_at (mv_data ?m) l i = map_option (Data (inc_of ?s i)) (map_of (le_ws e) l)"
        "execution_results (pr_exec X) ! i = Some r" "result_of R V i e r"
      by (rule parts[OF i]) (rule that)
    have e: "ee i = e" using p(1) by (simp add: ee_def)
    have "read_phase_with R transact V i (lz i) (le_mems e) = Inr (Inr (le_out e), le_db e)"
      using p(2) by (simp add: vm_ran_def vm_read_phase_with lz_def e)
    then show ?thesis unfolding e using p D by (auto simp: vm_ran_def)
  qed
  have len: "length (mv_locations ?m) = ?n" by (rule run_invD(1)[OF inv])
  have "mv_inv ?m"
    unfolding mv_inv_def len
  proof (intro conjI allI impI ballI)
    show "data_sorted (mv_data ?m)" by (rule hist_mem(1)[OF run_invD(5)[OF inv]])
    show "distinct (writes_of ?m i)" if "i < ?n" for i by (rule run_invD(3)[OF inv that])
    show "entry_at (mv_data ?m) l i \<noteq> None" if "i < ?n" "l \<in> set (writes_of ?m i)" for i l
      using A[OF that(1)] that(2) by (auto simp: map_of_eq_None_iff)
    fix l i inc val assume e: "entry_at (mv_data ?m) l i = Some (Data inc val)"
    obtain e where "pr_log X \<lparr>tv_idx = i, tv_incarnation = inc\<rparr> = Some e"
      using hist_mem(4)[OF run_invD(5)[OF inv] e] by blast
    then have "\<lparr>tv_idx = i, tv_incarnation = inc\<rparr> \<in> pr_finished X"
      using run_invD(6)[OF inv] gone unfolding log_inv_def by (metis pc.distinct)
    then show i: "i < ?n" using s by (auto simp: inv_sched_def inv_finished_def)
    have "map_of (le_ws (ee i)) l \<noteq> None" using A[OF i] e by auto
    then show "l \<in> set (writes_of ?m i)" using A[OF i] by (simp add: map_of_eq_None_iff)
  qed
  then have "validated_block R transact K V ?n (inc_of ?s) lz (\<lambda>i. le_out (ee i)) (\<lambda>i. le_db (ee i)) (\<lambda>i. le_ws (ee i)) ?m"
    unfolding validated_block_def using A by blast
  then show thesis using that A by blast
qed

lemma finished_block:
  assumes V: "V = vm_new R D env txs" and r: "pe_reachable R transact V (pe_init R env txs k E) X"
    and k: "0 < k" "length txs < usize_modulus" and K: "revm_sound R transact K V" "stored_codes D K"
    and gone: "\<forall>t. pr_pcs X t = Exited" and live: "\<not> aborted (pr_sched X)"
  obtains lz ee where
    "validated_block R transact K V (length txs) (inc_of (pr_sched X)) lz (\<lambda>i. le_out (ee i))
       (\<lambda>i. le_db (ee i)) (\<lambda>i. le_ws (ee i)) (pr_mem X)"
    "\<And>i. i < length txs \<Longrightarrow> \<exists>r. execution_results (pr_exec X) ! i = Some r \<and> result_of R V i (ee i) r"
proof -
  have s: "sched (sys_of X) = pr_sched X" "pcs (sys_of X) = pr_pcs X" "finished (sys_of X) = pr_finished X"
    by (simp_all add: sys_of_def mk_sys_def)
  have rs: "reachable (length txs) k (sys_of X)" by (rule pe_reachable_sched[OF r])
  have n: "sc_block_size (pr_sched X) = length txs" and i: "inv_sched (pr_sched X) (pr_pcs X) (pr_finished X)"
    and q: "inv_quiet (pr_sched X) (pr_pcs X)"
    using reachable_inv[OF rs k] live by (simp_all add: sys_inv_def s)
  have x: "exit_condition (pr_sched X)" using reachable_exit[OF rs k(1)] gone live by (simp add: s)
  have all: "\<forall>i < sc_block_size (pr_sched X). is_done (st_of (pr_sched X) i)"
    using q gone by (auto simp: inv_quiet_def is_done_def)
  have v: "stored_codes (vm_db V) K" using V K(2) by (simp add: vm_new_def Let_def)
  show thesis
    by (rule finished_run_validated[OF pe_reachable_inv[OF r live V k(2,1) K] i gone x all v, unfolded n]) (rule that)
qed

lemma finished_run_length:
  assumes V: "V = vm_new R D env txs" and r: "pe_reachable R transact V (pe_init R env txs k E) X"
    and k: "0 < k" "length txs < usize_modulus" and K: "revm_sound R transact K V" "stored_codes D K"
    and live: "\<not> aborted (pr_sched X)"
  shows "length txs \<le> length (execution_results (pr_exec X))"
  using pe_reachable_inv[OF r live V k(2,1) K] reachable_inv[OF pe_reachable_sched[OF r] k]
  by (auto simp: run_inv_def sys_inv_def sys_of_def mk_sys_def)

lemma finished_run_serial:
  assumes V: "V = vm_new R D env txs" and m0: "m0 = build_mv_memory (hash_location R) (ee_beneficiary env) txs"
    and r: "pe_reachable R transact V (pe_init R env txs k E) X" and k: "0 < k" "length txs < usize_modulus"
    and K: "revm_sound R transact K V" "stored_codes D K"
    and L: "\<forall>i < length txs. \<exists>L. uses_locations R transact V i L"
    and gone: "\<forall>t. pr_pcs X t = Exited" and live: "\<not> aborted (pr_sched X)"
  obtains lz where
    "\<And>i. i < length txs \<Longrightarrow> \<exists>r flags. execution_results (pr_exec X) ! i = Some r
       \<and> fst (execute_with R transact V (version_of (pr_sched X) i) (lz i) (serial_mem R transact V (inc_of (pr_sched X)) lz m0 i))
         = Inr \<lparr>vr_execution_result = r, vr_flags = flags\<rparr>"
    "\<And>loc j. j < length txs \<Longrightarrow> entry_at (mv_data (serial_mem R transact V (inc_of (pr_sched X)) lz m0 (length txs))) loc j
       = entry_at (mv_data (pr_mem X)) loc j"
proof -
  obtain lz and ee :: "nat \<Rightarrow> log_entry" where b: "validated_block R transact K V (length txs) (inc_of (pr_sched X)) lz (\<lambda>i. le_out (ee i))
       (\<lambda>i. le_db (ee i)) (\<lambda>i. le_ws (ee i)) (pr_mem X)"
    and res: "\<And>i. i < length txs \<Longrightarrow> \<exists>r. execution_results (pr_exec X) ! i = Some r \<and> result_of R V i (ee i) r"
    by (rule finished_block[OF V r k K gone live]) (rule that)
  have v: "vm_txs V = txs" using V by (simp add: vm_new_def Let_def)
  define ty where "ty i = (case tx_type_try_from R (te_tx_type (txs ! i)) of Inr t \<Rightarrow> t)" for i
  have ty: "\<forall>i < length txs. tx_type_try_from R (te_tx_type (txs ! i)) = Inr (ty i)"
    using res by (fastforce simp: ty_def result_of_def v)
  note S = validated_block_is_serial[OF V m0 b L ty]
  show thesis
  proof (rule that)
    fix i assume i: "i < length txs"
    obtain r where r: "execution_results (pr_exec X) ! i = Some r" "result_of R V i (ee i) r" using res[OF i] by blast
    then have "r = from_raw (ty i) (fst (le_out (ee i))) (snd (le_out (ee i)))"
      using ty i by (auto simp: result_of_def v)
    then show "\<exists>r flags. execution_results (pr_exec X) ! i = Some r
         \<and> fst (execute_with R transact V (version_of (pr_sched X) i) (lz i) (serial_mem R transact V (inc_of (pr_sched X)) lz m0 i))
           = Inr \<lparr>vr_execution_result = r, vr_flags = flags\<rparr>"
      using conjunct1[OF S] i r(1) by (auto simp: version_of_def)
  qed (use S in blast)
qed

lemma event_step_aborted:
  assumes "event_step e s P F = Some (s', P', F')"
  shows "aborted s' = aborted s"
  using assms
  by (cases e)
    (auto simp: sched_simps look_at_claim_def try_execute_def add_dependency_def finish_execution_def settle_execution_def
      try_validation_abort_def mark_validated_def reschedule_aborted_def retake_aborted_def Let_def
      split: pc.splits task.splits prod.splits if_splits bool.splits)

lemma sched_event_aborted:
  assumes "sched_event e X = Some X'"
  shows "aborted (pr_sched X') = aborted (pr_sched X) \<and> pr_exec X' = pr_exec X"
  using assms event_step_aborted by (fastforce simp: sched_event_def)

lemma try_execute_attempt_aborted:
  assumes "try_execute_attempt v r E s = (a, E', s')" "pe_abort_reason E = None" "aborted s'" "\<not> aborted s"
  shows "pe_abort_reason E' \<noteq> None"
  using assms
  by (auto simp: try_execute_attempt_def set_abort_reason_def sched_abort_def add_dependency_def finish_execution_def settle_execution_def
      Let_def sched_simps split: sum.splits vm_execution_error.splits prod.splits if_splits)

text \<open>Only a fatal error aborts the block, and it leaves its reason.\<close>

lemma abort_has_reason:
  assumes "pe_reachable R transact V (pe_init R env txs k E) X" "pe_abort_reason E = None"
  shows "aborted (pr_sched X) \<longleftrightarrow> pe_abort_reason (pr_exec X) \<noteq> None"
  using assms(1)
proof induction
  case pe_start
  show ?case using assms(2) by (simp add: pe_init_def Let_def scheduler_new_def reserve_results_def)
next
  case (pe_next X e X')
  show ?case
  proof (cases "aborted (pr_sched X)")
    case True
    then show ?thesis using pe_next by (auto simp: pe_step_def split: pe_event.splits event.splits)
  next
    case False
    then have l: "live_step R transact V e X = Some X'" and E: "pe_abort_reason (pr_exec X) = None"
      using pe_next by (simp_all add: pe_step_def)
    show ?thesis
      using l E False
      by (cases "(R, transact, V, e, X)" rule: live_step.cases)
        (auto simp: put_job_def put_mem_def Let_def dest!: sched_event_aborted try_execute_attempt_aborted
          split: if_splits pc.splits task.splits job.splits list.splits sum.splits prod.splits vm_execution_error.splits)
  qed
qed

lemma collect_results_present:
  "\<forall>r \<in> set rs. r \<noteq> None \<Longrightarrow> \<exists>xs. collect_results rs g = Some xs \<and> length xs = length rs"
proof (induction rs g rule: collect_results.induct)
  case (3 r rs g)
  then show ?case by (cases "add_cumulative_gas r g") auto
qed auto

section \<open>The theorems\<close>

lemma sample_sound:
  "revm_sound sample_R sample_transact (\<lambda>_. []) sample_V" "stored_codes sample_D (\<lambda>_. [])"
  "\<forall>i < 2. \<exists>L. uses_locations sample_R sample_transact sample_V i L" "length [sample_tx 0, sample_tx 1] = 2"
  "(2::nat) < usize_modulus"
proof -
  have "state_codes sample_R (\<lambda>_. []) (snd (sample_out i))" for i by (simp add: state_codes_def sample_out_def sample_block_simps)
  from this[of 0] this[of 1] show "revm_sound sample_R sample_transact (\<lambda>_. []) sample_V"
    by (auto simp: revm_sound_def sample_transact_def outcome_sound_def sample_out_def)
  show "stored_codes sample_D (\<lambda>_. [])" by (simp add: stored_codes_def sample_D_def)
  show "\<forall>i < 2. \<exists>L. uses_locations sample_R sample_transact sample_V i L" using sample_uses_locations by blast
qed (simp_all add: usize_modulus_def)



text \<open>C16 (finished_run_is_joined). When all threads have left, the executor finds either the reason of an abort, and then
  the scheduler was aborted, or a result for each transaction of the block, so that collecting the
  results does not panic on a missing one and gives one result per transaction.\<close>
theorem finished_run_is_joined:
  assumes "V = vm_new R D env txs" and "pe_abort_reason E = None"
    and "pe_reachable R transact V (pe_init R env txs k E) X" and "0 < k" and "length txs < usize_modulus"
    and "revm_sound R transact K V" and "stored_codes D K"
    and "\<forall>t. pr_pcs X t = Exited"
  shows "(case pe_abort_reason (pr_exec X) of
       Some reason \<Rightarrow> aborted (pr_sched X)
     | None \<Rightarrow> \<not> aborted (pr_sched X) \<and>
         (\<exists>rs. collect_results (take (length txs) (execution_results (pr_exec X))) 0 = Some rs \<and> length rs = length txs))"
proof (cases "aborted (pr_sched X)")
  case True
  then show ?thesis using abort_has_reason[OF assms(3,2)] by auto
next
  case False
  have len: "length txs \<le> length (execution_results (pr_exec X))"
    by (rule finished_run_length[OF assms(1,3-7) False])
  have "execution_results (pr_exec X) ! i \<noteq> None" if "i < length txs" for i
    by (rule finished_block[OF assms(1,3-7,8) False]) (use that in blast)
  then have "\<forall>r \<in> set (take (length txs) (execution_results (pr_exec X))). r \<noteq> None"
    using len by (auto simp: in_set_conv_nth)
  from collect_results_present[OF this, of 0] show ?thesis
    using abort_has_reason[OF assms(3,2)] False len by auto
qed

theorem finished_run_is_joined_witness:
  "\<exists>X. pe_reachable sample_R sample_transact sample_V (pe_init sample_R sample_env [sample_tx 0, sample_tx 1] 2 parallel_executor_default) X
     \<and> (\<exists>rs. collect_results (take 2 (execution_results (pr_exec X))) 0 = Some rs \<and> length rs = 2)"
proof -
  obtain X where X: "pe_reachable sample_R sample_transact sample_V (pe_init sample_R sample_env [sample_tx 0, sample_tx 1] 2 parallel_executor_default) X"
    "\<forall>t. pr_pcs X t = Exited" "pe_abort_reason (pr_exec X) = None"
    by (rule sample_block_run) (rule that)
  have "pe_abort_reason parallel_executor_default = None" by (simp add: parallel_executor_default_def)
  from finished_run_is_joined[OF sample_V_def this X(1), unfolded sample_sound(4), OF _ sample_sound(5,1,2) X(2)] X(1,3)
  show ?thesis by auto
qed

end
