(* ===== verification/Block_Executor.thy ===== *)
theory Block_Executor
  imports Parallel_Serial
begin

text \<open>
  The block executor of the node (\<open>crates/chain/src/provider.rs\<close>) and the adapter through which
  the parallel executor reads the state (\<open>crates/chain/src/state.rs\<close>).

  The state of reth and the hard forks of the chain are parameters: the record \<open>state_db\<close> has the
  methods of \<open>State\<close> the code calls, the record \<open>chain_spec\<close> the conditions and constants of the
  specification, the rewards and the system calls of \<open>alloy_evm\<close>. A method that changes the state
  returns it. The addition of gas and of balances wraps around, as it does without overflow checks.
  \<open>None\<close> is a panic.
\<close>

section \<open>Parameters\<close>

record 's state_db =
  sd_basic :: "address \<Rightarrow> 's \<Rightarrow> (string + account_info option) \<times> 's"
  sd_code_by_hash :: "b256 \<Rightarrow> 's \<Rightarrow> (string + bytecode) \<times> 's"
  sd_storage :: "address \<Rightarrow> u256 \<Rightarrow> 's \<Rightarrow> (string + u256) \<times> 's"
  sd_block_hash :: "u64 \<Rightarrow> 's \<Rightarrow> (string + b256) \<times> 's"
  sd_set_state_clear_flag :: "bool \<Rightarrow> 's \<Rightarrow> 's"
  sd_commit :: "evm_state \<Rightarrow> 's \<Rightarrow> 's"
  sd_drain_balances :: "address list \<Rightarrow> 's \<Rightarrow> (string + u128 list) \<times> 's"
  sd_increment_balances :: "(address, u128) hashmap \<Rightarrow> 's \<Rightarrow> (string + unit) \<times> 's"

record block_env =
  be_number :: u256
  be_timestamp :: u256
  be_beneficiary :: address
  be_basefee :: u64

record cfg_env =
  cfg_spurious_dragon :: bool
  cfg_london :: bool

type_synonym requests = "(u8 \<times> u8 list) list"

record 's chain_spec =
  is_spurious_dragon_active_at_block :: "u64 \<Rightarrow> bool"
  is_prague_active_at_timestamp :: "u64 \<Rightarrow> bool"
  dao_transitions_at_block :: "u64 \<Rightarrow> bool"
  DAO_HARDFORK_ACCOUNTS :: "address list"
  DAO_HARDFORK_BENEFICIARY :: address
  DEPOSIT_REQUEST_TYPE :: u8
  post_block_balance_increments :: "block_env \<Rightarrow> (address, u128) hashmap"
  parse_deposits_from_receipts :: "receipt list \<Rightarrow> string + u8 list"
  eth_pre_execution_changes :: "'s \<Rightarrow> (string + unit) \<times> 's"
  apply_post_execution_changes :: "'s \<Rightarrow> (string + requests) \<times> 's"
  cfg_env_default :: cfg_env

section \<open>Reading the state\<close>

text \<open>
  \<open>StateStorageAdapter\<close>: each read takes the write lock and calls the method of \<open>State\<close>, which may
  load what it reads into its cache.
\<close>

definition adapter_basic_ref :: "'s state_db \<Rightarrow> 's \<Rightarrow> address \<Rightarrow> (string + account_info option) \<times> 's" where
  "adapter_basic_ref St s a = sd_basic St a s"

definition adapter_code_by_hash_ref :: "'s state_db \<Rightarrow> 's \<Rightarrow> b256 \<Rightarrow> (string + bytecode) \<times> 's" where
  "adapter_code_by_hash_ref St s code_hash = sd_code_by_hash St code_hash s"

definition adapter_storage_ref :: "'s state_db \<Rightarrow> 's \<Rightarrow> address \<Rightarrow> u256 \<Rightarrow> (string + u256) \<times> 's" where
  "adapter_storage_ref St s a index = sd_storage St a index s"

definition adapter_block_hash_ref :: "'s state_db \<Rightarrow> 's \<Rightarrow> u64 \<Rightarrow> (string + b256) \<times> 's" where
  "adapter_block_hash_ref St s number = sd_block_hash St number s"

datatype db_read = ReadBasic address | ReadCode b256 | ReadStorage address u256 | ReadBlockHash u64

fun adapter_read :: "'s state_db \<Rightarrow> db_read \<Rightarrow> 's \<Rightarrow> 's" where
  "adapter_read St (ReadBasic a) s = snd (adapter_basic_ref St s a)"
| "adapter_read St (ReadCode h) s = snd (adapter_code_by_hash_ref St s h)"
| "adapter_read St (ReadStorage a i) s = snd (adapter_storage_ref St s a i)"
| "adapter_read St (ReadBlockHash n) s = snd (adapter_block_hash_ref St s n)"

text \<open>The answers of the adapter in a state, as the database of the executor.\<close>

definition adapter_ref :: "'s state_db \<Rightarrow> 's \<Rightarrow> database_ref" where
  "adapter_ref St s =
     \<lparr>basic_ref = (\<lambda>a. fst (adapter_basic_ref St s a)), code_by_hash_ref = (\<lambda>h. fst (adapter_code_by_hash_ref St s h)),
      storage_ref = (\<lambda>a i. fst (adapter_storage_ref St s a i)), block_hash_ref = (\<lambda>n. fst (adapter_block_hash_ref St s n))\<rparr>"

text \<open>Loading into the cache does not change an answer.\<close>

definition cache_transparent :: "'s state_db \<Rightarrow> bool" where
  "cache_transparent St \<longleftrightarrow> (\<forall>r s. adapter_ref St (adapter_read St r s) = adapter_ref St s)"

lemma adapter_snapshot:
  assumes "cache_transparent St"
  shows "adapter_ref St (fold (adapter_read St) loads s) = adapter_ref St s"
  using assms by (induction loads arbitrary: s) (auto simp: cache_transparent_def)

section \<open>Executing a block\<close>

record executable_tx =
  xt_env :: tx_env
  xt_blob_gas_used :: "u64 option"

record 's block_executor =
  bx_state :: 's
  bx_block :: block_env
  bx_cfg :: cfg_env

record block_execution_result =
  br_receipts :: "receipt list"
  br_requests :: requests
  br_gas_used :: u64
  br_blob_gas_used :: u64

datatype block_execution_error =
    BlockInternal parallel_executor_error
  | IncrementBalanceFailed
  | BlockOther string

text \<open>\<open>x.try_into().unwrap_or(u64::MAX)\<close>.\<close>

definition try_into_u64 :: "u256 \<Rightarrow> u64" where
  "try_into_u64 x = (if uint x < 2 ^ 64 then ucast x else - 1)"

definition evm_env_new :: "cfg_env \<Rightarrow> block_env \<Rightarrow> evm_env" where
  "evm_env_new cfg block =
     \<lparr>ee_beneficiary = be_beneficiary block, ee_basefee = be_basefee block,
      ee_spurious_dragon = cfg_spurious_dragon cfg, ee_london = cfg_london cfg\<rparr>"

text \<open>The closure over the results: commit the state, add to the total, keep the receipt.\<close>

fun commit_results ::
    "'s state_db \<Rightarrow> tx_execution_result list \<Rightarrow> 's \<Rightarrow> u64 \<Rightarrow> receipt list \<times> 's \<times> u64" where
  "commit_results St [] s total_gas_used = ([], s, total_gas_used)"
| "commit_results St (r # rs) s total_gas_used =
     (case commit_results St rs (sd_commit St (tr_state r) s)
             (total_gas_used + rc_cumulative_gas_used (tr_receipt r)) of
        (receipts, s', g) \<Rightarrow> (tr_receipt r # receipts, s', g))"

text \<open>
  \<open>execute\<close>. \<open>threads\<close> are the worker threads, \<open>Q\<close> and \<open>cache\<close> belong to the sequential fallback,
  \<open>loads\<close> are the reads the executor made through the adapter, in the order of the lock.
\<close>

definition block_execute ::
    "revm \<Rightarrow> 'c sequential \<Rightarrow> 'c \<Rightarrow> (vm \<Rightarrow> scheduler \<Rightarrow> mv_memory \<Rightarrow> parallel_executor \<Rightarrow> mv_memory \<times> parallel_executor)
      \<Rightarrow> db_read list \<Rightarrow> 's chain_spec \<Rightarrow> 's state_db \<Rightarrow> executable_tx list \<Rightarrow> 's block_executor
      \<Rightarrow> ((block_execution_error + block_execution_result) \<times> 's block_executor) option" where
  "block_execute R Q cache threads loads CS St transactions B =
     (let block = bx_block B;
          state_clear_flag = is_spurious_dragon_active_at_block CS (try_into_u64 (be_number block));
          env = evm_env_new (cfg_env_default CS) block;
          db = sd_set_state_clear_flag St state_clear_flag (bx_state B);
          total_blob_gas_used = sum_list (List.map_filter xt_blob_gas_used transactions)
      in case pe_execute R (adapter_ref St db) Q cache env threads (map xt_env transactions) parallel_executor_default of
           None \<Rightarrow> None
         | Some (results, _) \<Rightarrow>
             (let db' = fold (adapter_read St) loads db in
              case results of
                Inl err \<Rightarrow> Some (Inl (BlockInternal err), B\<lparr>bx_state := db'\<rparr>)
              | Inr rs \<Rightarrow>
                  (case commit_results St rs db' 0 of (receipts, db'', total_gas_used) \<Rightarrow>
                     Some (Inr \<lparr>br_receipts = receipts, br_requests = [], br_gas_used = total_gas_used,
                                br_blob_gas_used = total_blob_gas_used\<rparr>, B\<lparr>bx_state := db''\<rparr>))))"

section \<open>After the transactions\<close>

text \<open>\<open>*balance_increments.entry(a).or_default() += x\<close>.\<close>

definition add_increment :: "address \<Rightarrow> u128 \<Rightarrow> (address, u128) hashmap \<Rightarrow> (address, u128) hashmap" where
  "add_increment a x incs = AList.update a ((case map_of incs a of None \<Rightarrow> 0 | Some y \<Rightarrow> y) + x) incs"

definition increment_all ::
    "'s state_db \<Rightarrow> (address, u128) hashmap \<Rightarrow> 's block_executor \<Rightarrow> (block_execution_error + unit) \<times> 's block_executor" where
  "increment_all St incs B =
     (case sd_increment_balances St incs (bx_state B) of
        (Inl _, s) \<Rightarrow> (Inl IncrementBalanceFailed, B\<lparr>bx_state := s\<rparr>)
      | (Inr _, s) \<Rightarrow> (Inr (), B\<lparr>bx_state := s\<rparr>))"

definition post_execution ::
    "'s chain_spec \<Rightarrow> 's state_db \<Rightarrow> 's block_executor \<Rightarrow> (block_execution_error + unit) \<times> 's block_executor" where
  "post_execution CS St B =
     (let balance_increments = post_block_balance_increments CS (bx_block B) in
      if dao_transitions_at_block CS (try_into_u64 (be_number (bx_block B))) then
        (case sd_drain_balances St (DAO_HARDFORK_ACCOUNTS CS) (bx_state B) of
           (Inl _, s) \<Rightarrow> (Inl IncrementBalanceFailed, B\<lparr>bx_state := s\<rparr>)
         | (Inr drained, s) \<Rightarrow>
             increment_all St (add_increment (DAO_HARDFORK_BENEFICIARY CS) (sum_list drained) balance_increments)
               (B\<lparr>bx_state := s\<rparr>))
      else increment_all St balance_increments B)"

definition calc_requests ::
    "'s chain_spec \<Rightarrow> receipt list \<Rightarrow> 's block_executor \<Rightarrow> (block_execution_error + requests) \<times> 's block_executor" where
  "calc_requests CS receipts B =
     (if is_prague_active_at_timestamp CS (try_into_u64 (be_timestamp (bx_block B))) then
        (case parse_deposits_from_receipts CS receipts of
           Inl err \<Rightarrow> (Inl (BlockOther err), B)
         | Inr deposit_requests \<Rightarrow>
             (let requests = (if deposit_requests \<noteq> [] then [(DEPOSIT_REQUEST_TYPE CS, deposit_requests)] else []) in
              case apply_post_execution_changes CS (bx_state B) of
                (Inl err, s) \<Rightarrow> (Inl (BlockOther err), B\<lparr>bx_state := s\<rparr>)
              | (Inr system_requests, s) \<Rightarrow> (Inr (requests @ system_requests), B\<lparr>bx_state := s\<rparr>)))
      else (Inr [], B))"

definition execute_transactions ::
    "revm \<Rightarrow> 'c sequential \<Rightarrow> 'c \<Rightarrow> (vm \<Rightarrow> scheduler \<Rightarrow> mv_memory \<Rightarrow> parallel_executor \<Rightarrow> mv_memory \<times> parallel_executor)
      \<Rightarrow> db_read list \<Rightarrow> 's chain_spec \<Rightarrow> 's state_db \<Rightarrow> executable_tx list \<Rightarrow> 's block_executor
      \<Rightarrow> ((block_execution_error + block_execution_result) \<times> 's block_executor) option" where
  "execute_transactions R Q cache threads loads CS St transactions B =
     (case block_execute R Q cache threads loads CS St transactions B of
        None \<Rightarrow> None
      | Some (Inl err, B1) \<Rightarrow> Some (Inl err, B1)
      | Some (Inr result, B1) \<Rightarrow>
          Some (case calc_requests CS (br_receipts result) B1 of
             (Inl err, B2) \<Rightarrow> (Inl err, B2)
           | (Inr requests, B2) \<Rightarrow>
               (case post_execution CS St B2 of
                  (Inl err, B3) \<Rightarrow> (Inl err, B3)
                | (Inr _, B3) \<Rightarrow>
                    (Inr \<lparr>br_receipts = br_receipts result, br_requests = requests, br_gas_used = br_gas_used result,
                          br_blob_gas_used = br_blob_gas_used result\<rparr>, B3))))"

definition execute_block ::
    "revm \<Rightarrow> 'c sequential \<Rightarrow> 'c \<Rightarrow> (vm \<Rightarrow> scheduler \<Rightarrow> mv_memory \<Rightarrow> parallel_executor \<Rightarrow> mv_memory \<times> parallel_executor)
      \<Rightarrow> db_read list \<Rightarrow> 's chain_spec \<Rightarrow> 's state_db \<Rightarrow> executable_tx list \<Rightarrow> 's block_executor
      \<Rightarrow> ((block_execution_error + block_execution_result) \<times> 's block_executor) option" where
  "execute_block R Q cache threads loads CS St transactions B =
     (case eth_pre_execution_changes CS (bx_state B) of
        (Inl err, s) \<Rightarrow> Some (Inl (BlockOther err), B\<lparr>bx_state := s\<rparr>)
      | (Inr _, s) \<Rightarrow> execute_transactions R Q cache threads loads CS St transactions (B\<lparr>bx_state := s\<rparr>))"

section \<open>Receipts and gas\<close>

lemma put_evaluated_receipt [simp]: "tr_receipt (put_evaluated R env a h c b n r) = tr_receipt r"
  by (simp add: put_evaluated_def split: option.split)

lemma evaluate_history_receipts:
  "evaluate_history R env txs a h c history b n rs = Some (Inr rs') \<Longrightarrow> map tr_receipt rs' = map tr_receipt rs"
proof (induction history arbitrary: b n rs)
  case (Cons ie history)
  obtain i e where ie: "ie = (i, e)" by force
  obtain b' n' where "evaluate_history R env txs a h c history b' n' (rs[i := put_evaluated R env a h c b' n' (rs ! i)]) = Some (Inr rs')"
    using Cons.prems by (auto simp: ie Let_def split: option.splits sum.splits prod.splits)
  from Cons.IH[OF this] have "map tr_receipt rs' = (map tr_receipt rs)[i := tr_receipt (rs ! i)]"
    by (simp only: map_update put_evaluated_receipt)
  also have "\<dots> = map tr_receipt rs"
    using list_update_id[of "map tr_receipt rs" i] by (cases "i < length rs") (simp_all add: list_update_beyond)
  finally show ?case .
qed simp

lemma evaluate_addresses_receipts:
  "evaluate_addresses R D env txs m as rs = Some (Inr rs') \<Longrightarrow> map tr_receipt rs' = map tr_receipt rs"
proof (induction as arbitrary: rs)
  case (Cons a as)
  then obtain rs1 where "evaluate_address R D env txs m a rs = Some (Inr rs1)"
      "evaluate_addresses R D env txs m as rs1 = Some (Inr rs')"
    by (auto split: option.splits sum.splits)
  moreover from this(1) have "map tr_receipt rs1 = map tr_receipt rs"
    by (auto simp: evaluate_address_def dest!: evaluate_history_receipts split: option.splits prod.splits sum.splits)
  ultimately show ?case using Cons.IH by metis
qed simp

lemma commit_results_parts:
  "commit_results St rs s g =
     (map tr_receipt rs, fold (\<lambda>r. sd_commit St (tr_state r)) rs s, g + (\<Sum>r\<leftarrow>rs. rc_cumulative_gas_used (tr_receipt r)))"
  by (induction rs arbitrary: s g) (simp_all add: add.assoc)

lemma joined_receipts:
  assumes "execute_joined R D Q cache env txs m E = Some (Inr rs, E')" "pe_abort_reason E = None"
    "take (length txs) (execution_results E) = map Some raw"
  shows "length rs = length raw \<and> (\<forall>i < length raw. \<exists>t. tr_receipt (rs ! i) = (tr_receipt (raw ! i))\<lparr>rc_cumulative_gas_used := t\<rparr>
     \<and> unat t = min (\<Sum>j\<le>i. gas_of (raw ! j)) (2 ^ 64 - 1))"
proof -
  obtain rs1 where c: "collect_results (map Some raw) 0 = Some rs1"
      and e: "evaluate_addresses R D env txs m (consume_lazy_addresses m) rs1 = Some (Inr rs)"
    using assms by (auto simp: execute_joined_def Let_def split: option.splits)
  have r: "map tr_receipt rs = map tr_receipt rs1" by (rule evaluate_addresses_receipts[OF e])
  then have l: "length rs = length rs1" using map_eq_imp_length_eq by blast
  have "tr_receipt (rs ! i) = tr_receipt (rs1 ! i)" if "i < length rs1" for i
    using r l that by (metis nth_map)
  then show ?thesis using collect_results_totals[OF c] l by fastforce
qed

lemma block_execute_parts:
  assumes "block_execute R Q cache threads loads CS St transactions B = Some (Inr res, B')"
    and "txs = map xt_env transactions" "txs \<noteq> []" "env = evm_env_new (cfg_env_default CS) (bx_block B)"
    and "D = adapter_ref St (sd_set_state_clear_flag St
          (is_spurious_dragon_active_at_block CS (try_into_u64 (be_number (bx_block B)))) (bx_state B))"
    and "threads (vm_new R D env txs) (scheduler_new (length txs)) (build_mv_memory (hash_location R) (ee_beneficiary env) txs)
          (reserve_results (length txs) parallel_executor_default) = (m, E)"
  obtains rs E' where "execute_joined R D Q cache env txs m E = Some (Inr rs, E')" "br_receipts res = map tr_receipt rs"
    "br_gas_used res = (\<Sum>r\<leftarrow>rs. rc_cumulative_gas_used (tr_receipt r))"
  using assms by (auto simp: block_execute_def Let_def pe_execute_def commit_results_parts split: option.splits sum.splits prod.splits)

lemma sum_prefix_sums:
  "(\<Sum>i<n. \<Sum>j\<le>i. f j) = (\<Sum>i<n. (n - i) * f i)" for f :: "nat \<Rightarrow> nat"
proof (induction n)
  case (Suc n)
  have "(\<Sum>i<Suc n. (Suc n - i) * f i) = (\<Sum>i<n. (n - i) * f i + f i) + f n"
    by (auto intro!: sum.cong simp: Suc_diff_le)
  then show ?case using Suc by (simp add: sum.distrib lessThan_Suc_atMost[symmetric] flip: atMost_Suc)
qed simp

lemma unat_sum_list:
  "(\<Sum>x\<leftarrow>xs. unat x) < 2 ^ 64 \<Longrightarrow> unat (sum_list xs) = (\<Sum>x\<leftarrow>xs. unat x)" for xs :: "u64 list"
proof (induction xs)
  case (Cons x xs)
  then have "unat (sum_list xs) = (\<Sum>x\<leftarrow>xs. unat x)" by simp
  moreover have "unat x + unat (sum_list xs) < 2 ^ 64" using Cons.prems calculation by simp
  ultimately show ?case by (simp add: unat_word_ariths)
qed simp

section \<open>Properties\<close>

text \<open>A node whose state logs the commits, with the block of theory \<open>Parallel_Sample\<close>.\<close>

definition sample_state_db :: "evm_state list state_db" where
  "sample_state_db =
     \<lparr>sd_basic = (\<lambda>a s. (basic_ref sample_D a, s)), sd_code_by_hash = (\<lambda>h s. (code_by_hash_ref sample_D h, s)),
      sd_storage = (\<lambda>a i s. (storage_ref sample_D a i, s)), sd_block_hash = (\<lambda>n s. (block_hash_ref sample_D n, s)),
      sd_set_state_clear_flag = (\<lambda>_ s. s), sd_commit = (\<lambda>st s. s @ [st]),
      sd_drain_balances = (\<lambda>_ s. (Inr [], s)), sd_increment_balances = (\<lambda>_ s. (Inr (), s))\<rparr>"

definition sample_chain_spec :: "evm_state list chain_spec" where
  "sample_chain_spec =
     \<lparr>is_spurious_dragon_active_at_block = (\<lambda>_. True), is_prague_active_at_timestamp = (\<lambda>_. False),
      dao_transitions_at_block = (\<lambda>_. False), DAO_HARDFORK_ACCOUNTS = [], DAO_HARDFORK_BENEFICIARY = 0, DEPOSIT_REQUEST_TYPE = 0,
      post_block_balance_increments = (\<lambda>_. []), parse_deposits_from_receipts = (\<lambda>_. Inr []),
      eth_pre_execution_changes = (\<lambda>s. (Inr (), s)), apply_post_execution_changes = (\<lambda>s. (Inr [], s)),
      cfg_env_default = \<lparr>cfg_spurious_dragon = False, cfg_london = False\<rparr>\<rparr>"

definition sample_transactions :: "executable_tx list" where
  "sample_transactions = [\<lparr>xt_env = sample_tx 0, xt_blob_gas_used = None\<rparr>, \<lparr>xt_env = sample_tx 1, xt_blob_gas_used = None\<rparr>]"

definition sample_block_executor :: "evm_state list block_executor" where
  "sample_block_executor = \<lparr>bx_state = [], bx_block = \<lparr>be_number = 1, be_timestamp = 0, be_beneficiary = 9, be_basefee = 0\<rparr>,
     bx_cfg = \<lparr>cfg_spurious_dragon = False, cfg_london = False\<rparr>\<rparr>"

lemma sample_node:
  "adapter_ref sample_state_db s = sample_D" "map xt_env sample_transactions = [sample_tx 0, sample_tx 1]"
  "sd_set_state_clear_flag sample_state_db b s = s"
  "evm_env_new (cfg_env_default sample_chain_spec) (bx_block sample_block_executor) = sample_env"
  by (simp_all add: adapter_ref_def adapter_basic_ref_def adapter_code_by_hash_ref_def adapter_storage_ref_def
      adapter_block_hash_ref_def sample_state_db_def sample_transactions_def evm_env_new_def sample_chain_spec_def
      sample_block_executor_def sample_env_def)

definition sample_joined :: parallel_executor where
  "sample_joined = \<lparr>execution_results =
     [Some (from_raw 0 (fst (sample_out 0)) (snd (sample_out 0))), Some (from_raw 0 (fst (sample_out 1)) (snd (sample_out 1)))],
     pe_abort_reason = None\<rparr>"

lemma sample_block_executes:
  "\<exists>res B'. block_execute sample_R sample_sequential 0 (\<lambda>_ _ _ _. (sample_final_memory, sample_joined)) [] sample_chain_spec
     sample_state_db sample_transactions sample_block_executor = Some (Inr res, B')
   \<and> br_gas_used res = 9 \<and> map rc_cumulative_gas_used (br_receipts res) = [3, 6]"
  by (simp add: block_execute_def Let_def sample_node pe_execute_def execute_joined_def sample_joined_def
      from_raw_def sample_out_def sample_result_def add_cumulative_gas_def consume_lazy_addresses_def)
    (simp add: saturating_add_def sample_final_memory_def sample_memory_def evaluate_address_def sample_R_def sample_D_def
      initial_account_def first_is_basic_def check_executed_nonce_def sample_tx_def put_evaluated_def)



text \<open>C19 (block_gas_used_counts_prefixes). The gas used the node reports for a block is not the gas its transactions used: the
  receipts hold running totals, and the totals are added up again, so that the gas of transaction
  \<open>i\<close> of \<open>n\<close> is counted \<open>n - i\<close> times.\<close>
theorem block_gas_used_counts_prefixes:
  assumes "block_execute R Q cache threads loads CS St transactions B = Some (Inr res, B')"
    and "txs = map xt_env transactions" "txs \<noteq> []" "env = evm_env_new (cfg_env_default CS) (bx_block B)"
    and "D = adapter_ref St (sd_set_state_clear_flag St
          (is_spurious_dragon_active_at_block CS (try_into_u64 (be_number (bx_block B)))) (bx_state B))"
    and "threads (vm_new R D env txs) (scheduler_new (length txs)) (build_mv_memory (hash_location R) (ee_beneficiary env) txs)
          (reserve_results (length txs) parallel_executor_default) = (m, E)"
    and "pe_abort_reason E = None" "take (length txs) (execution_results E) = map Some raw"
    and "(\<Sum>i<length raw. (length raw - i) * gas_of (raw ! i)) < 2 ^ 64"
  shows "unat (br_gas_used res) = (\<Sum>i<length raw. (length raw - i) * gas_of (raw ! i))"
proof -
  let ?n = "length raw" and ?T = "\<lambda>i. \<Sum>j\<le>i. gas_of (raw ! j)"
  obtain rs E' where j: "execute_joined R D Q cache env txs m E = Some (Inr rs, E')"
      "br_gas_used res = (\<Sum>r\<leftarrow>rs. rc_cumulative_gas_used (tr_receipt r))"
    by (rule block_execute_parts[OF assms(1-6)]) (rule that)
  have total: "(\<Sum>i<?n. ?T i) < 2 ^ 64" using assms(9) unfolding sum_prefix_sums .
  have R: "length rs = ?n" "unat (rc_cumulative_gas_used (tr_receipt (rs ! i))) = ?T i" if "i < ?n" for i
  proof -
    show "length rs = ?n" using joined_receipts[OF j(1) assms(7,8)] by blast
    have "?T i \<le> (\<Sum>i<?n. ?T i)" using that by (intro member_le_sum) auto
    then show "unat (rc_cumulative_gas_used (tr_receipt (rs ! i))) = ?T i"
      using joined_receipts[OF j(1) assms(7,8)] that total by auto
  qed
  have len: "length rs = ?n" using joined_receipts[OF j(1) assms(7,8)] by blast
  have "(\<Sum>x\<leftarrow>map (\<lambda>r. rc_cumulative_gas_used (tr_receipt r)) rs. unat x) = (\<Sum>i<?n. ?T i)"
    using R(2) len by (simp add: sum_list_sum_nth atLeast0LessThan)
  then show ?thesis using unat_sum_list[of "map (\<lambda>r. rc_cumulative_gas_used (tr_receipt r)) rs"] total j(2)
    by (simp add: sum_prefix_sums)
qed

theorem block_gas_used_counts_prefixes_witness:
  "\<exists>res B'. block_execute sample_R sample_sequential 0 (\<lambda>_ _ _ _. (sample_final_memory, sample_joined)) [] sample_chain_spec
       sample_state_db sample_transactions sample_block_executor = Some (Inr res, B')
   \<and> unat (br_gas_used res) = 2 * 3 + 3"
proof -
  obtain res B' where b: "block_execute sample_R sample_sequential 0 (\<lambda>_ _ _ _. (sample_final_memory, sample_joined)) [] sample_chain_spec
       sample_state_db sample_transactions sample_block_executor = Some (Inr res, B')"
    using sample_block_executes by blast
  let ?raw = "[from_raw 0 (fst (sample_out 0)) (snd (sample_out 0)), from_raw 0 (fst (sample_out 1)) (snd (sample_out 1))]"
  have raw: "take 2 (execution_results sample_joined) = map Some ?raw" "pe_abort_reason sample_joined = None"
      "(\<Sum>i<length ?raw. (length ?raw - i) * gas_of (?raw ! i)) = 2 * 3 + 3"
    by (simp_all add: sample_joined_def from_raw_def sample_out_def sample_result_def)
  from block_gas_used_counts_prefixes[OF b sample_node(2)[symmetric] _ sample_node(4)[symmetric] sample_node(1)[symmetric] refl,
      unfolded sample_sound(4), OF _ raw(2,1), unfolded raw(3)]
  show ?thesis using b by simp
qed



end
