(* ===== verification/Op_Vm.thy ===== *)
theory Op_Vm
  imports Serial_Equivalence
begin

text \<open>
  The virtual machine of the Optimism executor (\<open>crates/pe/src/op_vm.rs\<close>). \<open>OpVmDB\<close> is a second
  copy of the database of \<open>vm.rs\<close>, with its own text; it is translated here from its own lines,
  written the way the code nests it, and proved equal to the database of \<open>vm.rs\<close>. The replay of
  validated executions then holds for it as well. What differs is the environment, which
  \<open>build_op_evm\<close> does not take from the block, and the rewards: a deposit pays nobody, any other
  transaction pays the beneficiary, the L1 fee recipient and the base fee vault.

  Parameters. \<open>op_revm\<close> holds what the rewards use of \<open>op_revm\<close>: the transaction type and the
  enveloped bytes of \<open>OpTransaction::new(tx)\<close>, the L1 cost of such bytes, the type number of
  deposits and the two fee addresses. A panic is \<open>None\<close>.
\<close>

record op_revm =
  op_tx_type :: "tx_env \<Rightarrow> u8"
  DEPOSIT_TRANSACTION_TYPE :: u8
  op_enveloped_tx :: "tx_env \<Rightarrow> u8 list option"
  calculate_tx_l1_cost :: "u8 list \<Rightarrow> u256"
  L1_FEE_RECIPIENT :: address
  BASE_FEE_RECIPIENT :: address

type_synonym op_vmdb = vmdb

section \<open>The database\<close>

definition op_hash_basic :: "revm \<Rightarrow> address \<Rightarrow> op_vmdb \<Rightarrow> location_hash" where
  "op_hash_basic R a db =
     (if a = te_caller (db_tx db) then from_hash db
      else if te_kind (db_tx db) = Call a then the (to_hash db)
      else hash_location R (Basic a))"

fun op_push_origin :: "read_origins \<Rightarrow> read_origin \<Rightarrow> read_error + read_origins" where
  "op_push_origin [] orig = Inr [orig]"
| "op_push_origin os orig = (if last os = orig then Inr os else Inl InconsistentRead)"

definition op_get_code_hash ::
    "revm \<Rightarrow> database_ref \<Rightarrow> mv_memory \<Rightarrow> address \<Rightarrow> op_vmdb \<Rightarrow> (read_error + b256 option) \<times> op_vmdb" where
  "op_get_code_hash R D m a db =
     (let loc = hash_location R (CodeHash a);
          os = origins_at db loc;
          db = put_origins loc os db;
          fallback = (case op_push_origin os OriginStorage of
                        Inl e \<Rightarrow> (Inl e, db)
                      | Inr os' \<Rightarrow>
                          ((case basic_ref D a of
                              Inl err \<Rightarrow> Inl (StorageError err)
                            | Inr acc \<Rightarrow> Inr (map_option ai_code_hash acc)), put_origins loc os' db))
      in case closest m loc (db_tx_idx db) of
           Some (i, Data inc val) \<Rightarrow>
             (case val of
                SelfDestructed \<Rightarrow> (Inl SelfDestructedAccount, db)
              | VCodeHash h \<Rightarrow>
                  (case op_push_origin os (OriginMvMemory \<lparr>tv_idx = i, tv_incarnation = inc\<rparr>) of
                     Inl e \<Rightarrow> (Inl e, db)
                   | Inr os' \<Rightarrow> (Inr (Some h), put_origins loc os' db))
              | _ \<Rightarrow> fallback)
         | _ \<Rightarrow> fallback)"

definition op_vmdb_new ::
    "revm \<Rightarrow> database_ref \<Rightarrow> mv_memory \<Rightarrow> mv_memory \<Rightarrow> mv_memory \<Rightarrow> nat \<Rightarrow> tx_env \<Rightarrow> location_hash
      \<Rightarrow> location_hash option \<Rightarrow> read_error + op_vmdb" where
  "op_vmdb_new R D m m_from m_to tx_idx tx from_h to_h =
     (let db = \<lparr>db_tx_idx = tx_idx, db_tx = tx, from_hash = from_h, to_hash = to_h,
                to_code_hash = None, is_lazy = False, db_read_set = [], read_accounts = Map.empty\<rparr>
      in case te_kind tx of
           Create \<Rightarrow> Inr db
         | Call to \<Rightarrow>
             (case op_get_code_hash R D m to db of
                (Inl e, _) \<Rightarrow> Inl e
              | (Inr h, db') \<Rightarrow>
                  Inr (db'\<lparr>to_code_hash := h,
                    is_lazy := (h = None \<and> (mv_data m_from from_h \<noteq> None \<or> mv_data m_to (the to_h) \<noteq> None))\<rparr>)))"

fun op_basic_walk ::
    "read_origins \<Rightarrow> (nat \<times> entry) list \<Rightarrow> read_origins \<Rightarrow> i257 \<Rightarrow> u64
      \<Rightarrow> read_error + (account_info option \<times> read_origins \<times> i257 \<times> u64)" where
  "op_basic_walk prev [] new_origins balance_addition nonce_addition =
     Inr (None, new_origins, balance_addition, nonce_addition)"
| "op_basic_walk prev ((idx, entry) # it) new_origins balance_addition nonce_addition =
     (case entry of
        Estimate \<Rightarrow> Inl (Blocking idx)
      | Data inc val \<Rightarrow>
          (let orig = OriginMvMemory \<lparr>tv_idx = idx, tv_incarnation = inc\<rparr>;
               new_origins' = new_origins @ [orig]
           in if prev \<noteq> [] \<and> length prev = length new_origins then Inl InconsistentRead
              else if prev \<noteq> [] \<and> prev ! length new_origins \<noteq> orig then Inl InconsistentRead
              else case val of
                     VBasic basic \<Rightarrow> Inr (Some basic, new_origins', balance_addition, nonce_addition)
                   | LazyRecipient addition \<Rightarrow>
                       op_basic_walk prev it new_origins' (i257_add balance_addition (i257_from addition))
                         nonce_addition
                   | LazySender subtraction \<Rightarrow>
                       op_basic_walk prev it new_origins' (i257_sub balance_addition (i257_from subtraction))
                         (nonce_addition + 1)
                   | _ \<Rightarrow> Inl InvalidValueType))"

text \<open>The rest of \<open>basic\<close> once an account has been found.\<close>

definition op_basic_account ::
    "revm \<Rightarrow> database_ref \<Rightarrow> mv_memory \<Rightarrow> mv_memory \<Rightarrow> address \<Rightarrow> location_hash \<Rightarrow> i257 \<Rightarrow> u64 \<Rightarrow> account_info
      \<Rightarrow> op_vmdb \<Rightarrow> (read_error + account_info option) \<times> op_vmdb" where
  "op_basic_account R D m_hash m_code a loc balance_addition nonce_addition acc db =
     (let tx = db_tx db; nonce = ai_nonce acc + nonce_addition in
      if loc = from_hash db \<and> te_nonce tx \<noteq> nonce then
        (Inl (if te_nonce tx < nonce then NonceTooLow (te_nonce tx) nonce
              else if db_tx_idx db > 0 then Blocking (db_tx_idx db - 1)
              else NonceTooHigh (te_nonce tx) nonce), db)
      else
        (let balance = abs_value (i257_add balance_addition (i257_from (ai_balance acc))) in
         case (if Some loc = to_hash db then (Inr (to_code_hash db), db) else op_get_code_hash R D m_hash a db) of
           (Inl e, db') \<Rightarrow> (Inl e, db')
         | (Inr None, db') \<Rightarrow>
             (Inr (Some \<lparr>ai_balance = balance, ai_nonce = nonce, ai_code_hash = KECCAK_EMPTY R,
                         ai_code = Some (bytecode_default R)\<rparr>),
              db'\<lparr>read_accounts := (read_accounts db')(loc \<mapsto> EOA (balance, nonce))\<rparr>)
         | (Inr (Some h), db') \<Rightarrow>
             (case (case new_bytecodes m_code h of Some code \<Rightarrow> Inr code | None \<Rightarrow> code_by_hash_ref D h) of
                Inl err \<Rightarrow> (Inl (StorageError err), db')
              | Inr code \<Rightarrow>
                  (Inr (Some \<lparr>ai_balance = balance, ai_nonce = nonce, ai_code_hash = h, ai_code = Some code\<rparr>),
                   db'\<lparr>read_accounts := (read_accounts db')(loc \<mapsto> CA (balance, nonce))\<rparr>))))"

definition op_vmdb_basic ::
    "revm \<Rightarrow> database_ref \<Rightarrow> mv_memory \<Rightarrow> mv_memory \<Rightarrow> mv_memory \<Rightarrow> address \<Rightarrow> op_vmdb
      \<Rightarrow> (read_error + account_info option) \<times> op_vmdb" where
  "op_vmdb_basic R D m m_hash m_code a db =
     (let loc = op_hash_basic R a db in
      if is_lazy db \<and> loc = from_hash db then
        (Inr (Some \<lparr>ai_balance = - 1, ai_nonce = te_nonce (db_tx db), ai_code_hash = KECCAK_EMPTY R,
                    ai_code = Some (bytecode_default R)\<rparr>), db)
      else if is_lazy db \<and> Some loc = to_hash db then (Inr None, db)
      else
        (let prev = origins_at db loc;
             db = put_origins loc prev db;
             register = (\<lambda>os. if prev = [] then put_origins loc os db else db);
             it = (if db_tx_idx db > 0 then bt_below (db_tx_idx db) (entries_of (mv_data m) loc) else [])
         in case op_basic_walk prev it [] i257_NEGATIVE_ZERO 0 of
              Inl e \<Rightarrow> (Inl e, db)
            | Inr (Some acc, new_origins, balance_addition, nonce_addition) \<Rightarrow>
                op_basic_account R D m_hash m_code a loc balance_addition nonce_addition acc (register new_origins)
            | Inr (None, new_origins, balance_addition, nonce_addition) \<Rightarrow>
                (if prev \<noteq> [] \<and> (length prev \<noteq> length new_origins + 1 \<or> last prev \<noteq> OriginStorage)
                 then (Inl InconsistentRead, db)
                 else case basic_ref D a of
                        Inl err \<Rightarrow> (Inl (StorageError err), db)
                      | Inr (Some acc) \<Rightarrow>
                          op_basic_account R D m_hash m_code a loc balance_addition nonce_addition acc
                            (register (new_origins @ [OriginStorage]))
                      | Inr None \<Rightarrow>
                          (if i257_sign balance_addition > 0
                           then op_basic_account R D m_hash m_code a loc balance_addition nonce_addition
                                  (account_info_default R) (register (new_origins @ [OriginStorage]))
                           else (Inr None, register (new_origins @ [OriginStorage]))))))"

definition op_vmdb_code_by_hash :: "database_ref \<Rightarrow> b256 \<Rightarrow> op_vmdb \<Rightarrow> (read_error + bytecode) \<times> op_vmdb" where
  "op_vmdb_code_by_hash D h db =
     ((case code_by_hash_ref D h of Inl err \<Rightarrow> Inl (StorageError err) | Inr code \<Rightarrow> Inr code), db)"

definition op_vmdb_storage ::
    "revm \<Rightarrow> database_ref \<Rightarrow> mv_memory \<Rightarrow> address \<Rightarrow> u256 \<Rightarrow> op_vmdb \<Rightarrow> (read_error + u256) \<times> op_vmdb" where
  "op_vmdb_storage R D m a index db =
     (let loc = hash_location R (Storage a index);
          os = origins_at db loc;
          db = put_origins loc os db
      in case (if db_tx_idx db > 0 then closest m loc (db_tx_idx db) else None) of
           Some (i, Estimate) \<Rightarrow> (Inl (Blocking i), db)
         | Some (i, Data inc val) \<Rightarrow>
             (case val of
                VStorage x \<Rightarrow>
                  (case op_push_origin os (OriginMvMemory \<lparr>tv_idx = i, tv_incarnation = inc\<rparr>) of
                     Inl e \<Rightarrow> (Inl e, db)
                   | Inr os' \<Rightarrow> (Inr x, put_origins loc os' db))
              | _ \<Rightarrow> (Inl InvalidValueType, db))
         | None \<Rightarrow>
             (case op_push_origin os OriginStorage of
                Inl e \<Rightarrow> (Inl e, db)
              | Inr os' \<Rightarrow>
                  ((case storage_ref D a index of Inl err \<Rightarrow> Inl (StorageError err) | Inr x \<Rightarrow> Inr x),
                   put_origins loc os' db)))"

definition op_vmdb_block_hash :: "database_ref \<Rightarrow> u64 \<Rightarrow> op_vmdb \<Rightarrow> (read_error + b256) \<times> op_vmdb" where
  "op_vmdb_block_hash D number db =
     ((case block_hash_ref D number of Inl err \<Rightarrow> Inl (StorageError err) | Inr h \<Rightarrow> Inr h), db)"

primrec op_run_evm ::
    "revm \<Rightarrow> database_ref \<Rightarrow> (((read_error, 't) evm_error + 'r) evm) \<Rightarrow> (nat \<Rightarrow> mv_memory) \<Rightarrow> nat \<Rightarrow> op_vmdb
      \<Rightarrow> ((read_error, 't) evm_error + 'r) \<times> op_vmdb" where
  "op_run_evm R D (Done r) mems k db = (r, db)"
| "op_run_evm R D (GetBasic a c) mems k db =
     answer (op_vmdb_basic R D (mems (3 * k)) (mems (3 * k + 1)) (mems (3 * k + 2)) a db)
        (\<lambda>x. op_run_evm R D (c x) mems (Suc k))"
| "op_run_evm R D (GetCode h c) mems k db =
     answer (op_vmdb_code_by_hash D h db) (\<lambda>x. op_run_evm R D (c x) mems (Suc k))"
| "op_run_evm R D (GetStorage a i c) mems k db =
     answer (op_vmdb_storage R D (mems (3 * k)) a i db) (\<lambda>x. op_run_evm R D (c x) mems (Suc k))"
| "op_run_evm R D (GetBlockHash n c) mems k db =
     answer (op_vmdb_block_hash D n db) (\<lambda>x. op_run_evm R D (c x) mems (Suc k))"

section \<open>Rewards\<close>

record op_vm =
  op_vm_db :: database_ref
  op_vm_evm_env :: evm_env
  op_vm_txs :: "tx_env list"
  op_beneficiary_location_hash :: location_hash
  op_vm_reward_policy :: op_reward_policy_t

definition op_vm_new :: "revm \<Rightarrow> op_revm \<Rightarrow> database_ref \<Rightarrow> evm_env \<Rightarrow> tx_env list \<Rightarrow> op_vm" where
  "op_vm_new R P D env txs =
     \<lparr>op_vm_db = D, op_vm_evm_env = env, op_vm_txs = txs,
      op_beneficiary_location_hash = hash_location R (Basic (ee_beneficiary env)),
      op_vm_reward_policy = op_reward_policy (hash_location R) (L1_FEE_RECIPIENT P) (BASE_FEE_RECIPIENT P)\<rparr>"

text \<open>The rewards of a transaction; \<open>None\<close> is the panic for missing enveloped bytes.\<close>

definition op_rewards_of :: "op_revm \<Rightarrow> op_vm \<Rightarrow> tx_env \<Rightarrow> u256 \<Rightarrow> (location_hash \<times> u256) list option" where
  "op_rewards_of P V tx gas_used =
     (let env = op_vm_evm_env V;
          basefee = ucast (ee_basefee env) :: u128;
          price = (case te_gas_priority_fee tx of
                     Some priority_fee \<Rightarrow> min (te_gas_price tx) (saturating_add priority_fee basefee)
                   | None \<Rightarrow> te_gas_price tx);
          gas_price = (if ee_london env then saturating_sub price basefee else price)
      in if op_tx_type P tx = DEPOSIT_TRANSACTION_TYPE P then Some []
         else case op_enveloped_tx P tx of
                None \<Rightarrow> None
              | Some enveloped_tx \<Rightarrow>
                  Some [(op_beneficiary_location_hash V, saturating_mul (ucast gas_price) gas_used),
                        (l1_fee_recipient_location_hash (op_vm_reward_policy V),
                         calculate_tx_l1_cost P enveloped_tx),
                        (base_fee_vault_location_hash (op_vm_reward_policy V),
                         saturating_mul (ucast (ee_basefee env)) gas_used)])"

fun op_apply_reward_list :: "(location_hash \<times> u256) list \<Rightarrow> write_set \<Rightarrow> vm_execution_error + write_set" where
  "op_apply_reward_list [] ws = Inr ws"
| "op_apply_reward_list ((recipient, amount) # rewards) ws =
     (case map_of ws recipient of
        Some (VBasic basic) \<Rightarrow>
          op_apply_reward_list rewards
            (AList.update recipient (VBasic (basic\<lparr>ai_balance := saturating_add (ai_balance basic) amount\<rparr>)) ws)
      | Some (LazySender subtraction) \<Rightarrow>
          op_apply_reward_list rewards
            (AList.update recipient (LazySender (saturating_sub subtraction amount)) ws)
      | Some (LazyRecipient addition) \<Rightarrow>
          op_apply_reward_list rewards
            (AList.update recipient (LazyRecipient (saturating_add addition amount)) ws)
      | Some _ \<Rightarrow> Inl (vm_error_of_read_error InvalidValueType)
      | None \<Rightarrow> op_apply_reward_list rewards (AList.update recipient (LazyRecipient amount) ws))"

definition op_apply_rewards ::
    "op_revm \<Rightarrow> op_vm \<Rightarrow> tx_env \<Rightarrow> u256 \<Rightarrow> write_set \<Rightarrow> (vm_execution_error + write_set) option" where
  "op_apply_rewards P V tx gas_used ws =
     (case op_rewards_of P V tx gas_used of
        None \<Rightarrow> None
      | Some rewards \<Rightarrow> Some (op_apply_reward_list rewards ws))"

section \<open>Execution\<close>

definition op_write_account ::
    "revm \<Rightarrow> evm_env \<Rightarrow> tx_env \<Rightarrow> op_vmdb \<Rightarrow> address \<times> account \<Rightarrow> write_set \<times> (b256 \<rightharpoonup> bytecode)
      \<Rightarrow> write_set \<times> (b256 \<rightharpoonup> bytecode)" where
  "op_write_account R env tx db a_acc acc_in =
     (let a = fst a_acc; acc = snd a_acc; info = acc_info acc; ws = fst acc_in; codes = snd acc_in;
          code_loc = hash_location R (CodeHash a)
      in if acc_selfdestructed acc then (AList.update code_loc SelfDestructed ws, codes)
         else
           (let loc = hash_location R (Basic a);
                read_account = read_accounts db loc;
                new_code = (\<not> is_empty_code_hash R info
                  \<and> (case read_account of None \<Rightarrow> True | Some (EOA _) \<Rightarrow> True | Some (CA _) \<Rightarrow> False));
                changed = (new_code \<or> loc = from_hash db \<or> read_account = None
                  \<or> read_account \<noteq> Some (CA (ai_balance info, ai_nonce info))
                    \<and> read_account \<noteq> Some (EOA (ai_balance info, ai_nonce info)));
                ws_basic =
                  (if acc_touched acc \<and> changed then
                     (if is_lazy db then
                        (if loc = from_hash db then AList.update loc (LazySender (- 1 - ai_balance info)) ws
                         else if Some loc = to_hash db then AList.update loc (LazyRecipient (te_value tx)) ws
                         else ws)
                      else if \<not> ee_spurious_dragon env \<or> \<not> account_is_empty R acc then
                        AList.update loc
                          (VBasic \<lparr>ai_balance = ai_balance info, ai_nonce = ai_nonce info,
                             ai_code_hash = ai_code_hash info, ai_code = ai_code info\<rparr>) ws
                      else ws)
                   else ws);
                ws_code =
                  (if acc_touched acc \<and> new_code
                   then AList.update code_loc (VCodeHash (ai_code_hash info)) ws_basic else ws_basic);
                codes' =
                  (if acc_touched acc \<and> new_code \<and> codes (ai_code_hash info) = None
                   then codes(ai_code_hash info \<mapsto>
                          (case ai_code info of Some c \<Rightarrow> c | None \<Rightarrow> bytecode_default R))
                   else codes)
            in (fold (\<lambda>(slot, present) ws. AList.update (hash_location R (Storage a slot)) (VStorage present) ws)
                  (changed_storage_slots R acc) ws_code, codes')))"

text \<open>The errors for which an earlier transaction may still provide the funds or the nonce.\<close>

fun op_may_wait :: "execution_error \<Rightarrow> bool" where
  "op_may_wait (ETransaction (LackOfFundForMaxFee _ _)) = True"
| "op_may_wait (ETransaction (InvNonceTooHigh _ _)) = True"
| "op_may_wait _ = False"

definition op_vm_read_phase ::
    "revm \<Rightarrow> (tx_env \<Rightarrow> evm_outcome evm) \<Rightarrow> op_vm \<Rightarrow> nat \<Rightarrow> (nat \<Rightarrow> mv_memory)
      \<Rightarrow> read_error + evm_outcome \<times> op_vmdb" where
  "op_vm_read_phase R transact V tx_idx mems =
     (let tx = op_vm_txs V ! tx_idx;
          from_h = hash_location R (Basic (te_caller tx));
          to_h = (case te_kind tx of Call to \<Rightarrow> Some (hash_location R (Basic to)) | Create \<Rightarrow> None)
      in case op_vmdb_new R (op_vm_db V) (mems 0) (mems 1) (mems 2) tx_idx tx from_h to_h of
           Inl e \<Rightarrow> Inl e
         | Inr db \<Rightarrow> Inr (op_run_evm R (op_vm_db V) (transact tx) mems 1 db))"

definition op_execution_succeeded ::
    "revm \<Rightarrow> op_revm \<Rightarrow> op_vm \<Rightarrow> tx_env \<Rightarrow> tx_version \<Rightarrow> op_vmdb \<Rightarrow> execution_result \<Rightarrow> evm_state \<Rightarrow> mv_memory
      \<Rightarrow> ((vm_execution_error + vm_execution_result) \<times> mv_memory) option" where
  "op_execution_succeeded R P V tx v db result state m =
     (case fold (op_write_account R (op_vm_evm_env V) tx db) state ([], new_bytecodes m) of
        (ws, codes) \<Rightarrow>
          (let m1 = m\<lparr>new_bytecodes := codes\<rparr> in
           case op_apply_rewards P V tx (ucast (er_gas_used result)) ws of
             None \<Rightarrow> None
           | Some (Inl e) \<Rightarrow> Some (Inl e, m1)
           | Some (Inr ws') \<Rightarrow>
               (let m2 = (if is_lazy db then
                            (case te_kind tx of
                               Call to \<Rightarrow> add_lazy_addresses [to] (add_lazy_addresses [te_caller tx] m1)
                             | Create \<Rightarrow> add_lazy_addresses [te_caller tx] m1)
                          else m1);
                    flags = (if tv_idx v > 0 \<and> \<not> is_lazy db then NeedValidation else flags_empty);
                    (wrote_new_location, m3) = mv_record v (db_read_set db) ws' m2;
                    flags' = (if wrote_new_location then flags_or flags WroteNewLocation else flags)
                in case tx_type_try_from R (te_tx_type tx) of
                     Inl err \<Rightarrow> Some (Inl (VmExecutionError (ECustom err)), m3)
                   | Inr ty \<Rightarrow>
                       Some (Inr \<lparr>vr_execution_result = from_raw ty result state, vr_flags = flags'\<rparr>, m3))))"

text \<open>\<open>transact\<close> is not given the block environment: \<open>build_op_evm\<close> is called with a default.\<close>

definition op_vm_execute ::
    "revm \<Rightarrow> op_revm \<Rightarrow> (tx_env \<Rightarrow> evm_outcome evm) \<Rightarrow> op_vm \<Rightarrow> tx_version \<Rightarrow> (nat \<Rightarrow> mv_memory) \<Rightarrow> mv_memory
      \<Rightarrow> ((vm_execution_error + vm_execution_result) \<times> mv_memory) option" where
  "op_vm_execute R P transact V v mems m =
     (let tx = op_vm_txs V ! tv_idx v in
      case op_vm_read_phase R transact V (tv_idx v) mems of
        Inl e \<Rightarrow> Some (Inl (vm_error_of_read_error e), m)
      | Inr (Inl (EDatabase read_error), db) \<Rightarrow> Some (Inl (vm_error_of_read_error read_error), m)
      | Inr (Inl err, db) \<Rightarrow>
          Some (Inl (if tv_idx v > 0 \<and> op_may_wait err then VmBlocking (tv_idx v - 1) else VmExecutionError err), m)
      | Inr (Inr (result, state), db) \<Rightarrow> op_execution_succeeded R P V tx v db result state m)"

section \<open>The database is the one of the Ethereum executor\<close>

lemma op_hash_basic_eq: "op_hash_basic R a db = hash_basic R a db"
  by (auto simp: op_hash_basic_def hash_basic_def split: tx_kind.splits)

lemma op_push_origin_eq: "op_push_origin os orig = push_origin os orig"
  by (cases os) (simp_all add: push_origin_def)

lemma op_get_code_hash_eq: "op_get_code_hash R D m a db = get_code_hash R D m a db"
  unfolding op_get_code_hash_def get_code_hash_def op_push_origin_eq storage_code_hash_def Let_def
  by (auto split: option.split entry.split location_value.split)

lemma op_vmdb_new_eq: "op_vmdb_new R D m m1 m2 i tx f t = vmdb_new R D m m1 m2 i tx f t"
  unfolding op_vmdb_new_def vmdb_new_def op_get_code_hash_eq Let_def by (rule refl)

lemma op_basic_walk_eq: "op_basic_walk prev it new bal non = basic_walk prev it new bal non"
  by (induction prev it new bal non rule: basic_walk.induct) (auto simp: Let_def split: location_value.split)

lemma op_basic_account_eq: "op_basic_account R D m1 m2 a loc bal non acc db = basic_finish R D m1 m2 a loc bal non acc db"
  unfolding op_basic_account_def basic_finish_def op_get_code_hash_eq nonce_check_def lookup_code_def Let_def
  by (auto split: sum.split option.split prod.split)

lemma op_vmdb_basic_eq: "op_vmdb_basic R D m m1 m2 a db = vmdb_basic R D m m1 m2 a db"
proof -
  let ?loc = "hash_basic R a db"
  let ?prev = "origins_at db ?loc"
  let ?w = "basic_walk ?prev (if db_tx_idx (put_origins ?loc ?prev db) > 0
      then bt_below (db_tx_idx (put_origins ?loc ?prev db)) (entries_of (mv_data m) ?loc) else []) [] i257_NEGATIVE_ZERO 0"
  consider e where "?w = Inl e" | acc new bal non where "?w = Inr (Some acc, new, bal, non)"
    | new bal non where "?w = Inr (None, new, bal, non)"
    by (metis obj_sumE option.exhaust prod.exhaust)
  then show ?thesis
    unfolding op_vmdb_basic_def vmdb_basic_def op_hash_basic_eq op_basic_walk_eq op_basic_account_eq
      basic_fallback_def Let_def
    by cases (simp_all only: sum.case option.case prod.case, simp_all split: sum.split option.split)
qed

lemma op_vmdb_storage_eq: "op_vmdb_storage R D m a i db = vmdb_storage R D m a i db"
  unfolding op_vmdb_storage_def vmdb_storage_def op_push_origin_eq lift_storage_def Let_def
  by (auto split: option.split entry.split location_value.split)

lemmas op_database_eqs = op_vmdb_basic_eq op_vmdb_storage_eq

lemma op_run_evm_eq: "op_run_evm R D t mems = run_evm R D t mems"
  by (induction t; intro ext)
    (simp_all add: rangeI op_database_eqs op_vmdb_code_by_hash_def vmdb_code_by_hash_def op_vmdb_block_hash_def
      vmdb_block_hash_def lift_storage_def)

lemma op_apply_reward_list_eq: "op_apply_reward_list rs ws = apply_reward_list rs ws"
  by (induction rs ws rule: apply_reward_list.induct) (auto split: option.split location_value.split)

lemma op_write_account_eq: "op_write_account R env tx db p q = write_account R env tx db p q"
  unfolding op_write_account_def write_account_def write_basic_def is_new_code_def account_changed_def
    insert_bytecode_def write_slots_def is_eoa_def Let_def
  by (auto split: prod.split option.split account_meta.split)

lemma op_may_wait_eq:
  "(case err of EDatabase e \<Rightarrow> vm_error_of_read_error e
    | _ \<Rightarrow> if i > 0 \<and> op_may_wait err then VmBlocking (i - 1) else VmExecutionError err) = execution_failed i err"
  by (auto simp: execution_failed_def split: evm_error.split invalid_transaction.split)

text \<open>The Ethereum machine that reads and writes what the Optimism machine does.\<close>

definition eth_vm :: "op_vm \<Rightarrow> vm" where
  "eth_vm V = \<lparr>vm_db = op_vm_db V, vm_evm_env = op_vm_evm_env V, vm_txs = op_vm_txs V,
     beneficiary_location_hash = op_beneficiary_location_hash V, vm_reward_policy = reward_policy\<rparr>"

lemma op_vm_read_phase_eq: "op_vm_read_phase R transact V i mems = vm_read_phase R (\<lambda>_. transact) (eth_vm V) i mems"
  unfolding op_vm_read_phase_def vm_read_phase_def op_vmdb_new_eq op_run_evm_eq eth_vm_def vm.simps Let_def by (rule refl)

lemma op_execution_succeeded_eq:
  assumes "op_rewards_of P V tx (ucast (er_gas_used result)) = Some rewards"
  shows "op_execution_succeeded R P V tx v db result state m =
    Some (execution_succeeded R (apply_reward_list rewards) (op_vm_evm_env V) tx v db result state m)"
proof -
  have w: "op_write_account R env tx db = write_account R env tx db" for env
    by (intro ext op_write_account_eq)
  show ?thesis
    unfolding op_execution_succeeded_def execution_succeeded_def write_accounts_def w op_apply_rewards_def assms
      option.case op_apply_reward_list_eq Let_def
    by (auto split: prod.split sum.split)
qed

lemma op_vm_execute_eq:
  "op_vm_execute R P transact V v mems m =
     (case vm_read_phase R (\<lambda>_. transact) (eth_vm V) (tv_idx v) mems of
        Inl e \<Rightarrow> Some (Inl (vm_error_of_read_error e), m)
      | Inr (Inl err, db) \<Rightarrow> Some (Inl (execution_failed (tv_idx v) err), m)
      | Inr (Inr (result, state), db) \<Rightarrow> op_execution_succeeded R P V (op_vm_txs V ! tv_idx v) v db result state m)"
  unfolding op_vm_execute_def op_vm_read_phase_eq op_may_wait_eq[symmetric] Let_def
  by (auto split: sum.split prod.split evm_error.split)

lemma op_rewards_of_paid:
  assumes "op_tx_type P tx \<noteq> DEPOSIT_TRANSACTION_TYPE P" "op_enveloped_tx P tx = Some bytes"
  shows "op_rewards_of P V tx (ucast gas) = Some
    [(op_beneficiary_location_hash V, saturating_mul (ucast (effective_gas_price (op_vm_evm_env V) tx)) (ucast gas)),
     (l1_fee_recipient_location_hash (op_vm_reward_policy V), calculate_tx_l1_cost P bytes),
     (base_fee_vault_location_hash (op_vm_reward_policy V), saturating_mul (ucast (ee_basefee (op_vm_evm_env V))) (ucast gas))]"
  using assms unfolding op_rewards_of_def effective_gas_price_def Let_def by simp

lemma basefee_amount_exact:
  "unat (saturating_mul (ucast (basefee :: u64)) (ucast (gas :: u64)) :: u256) = unat basefee * unat gas"
proof -
  have g: "unat (ucast x :: u256) = unat x" for x :: u64 by (rule unat_ucast_up) simp
  have "unat x \<le> 2 ^ 64" for x :: u64 using unsigned_less[of x, where 'a = nat] by simp
  then have "unat basefee * unat gas \<le> 2 ^ 64 * 2 ^ 64" by (intro mult_le_mono)
  then show ?thesis by (simp add: sat_simps g)
qed

section \<open>Properties\<close>

text \<open>C22 (op_database_is_vm_database). The database of the Optimism executor, a separate copy of the code, answers every call as
  the one of the Ethereum executor does and records the same origins: building it, reading an
  account, a storage slot, a code and a block hash, and hence running any virtual machine
  against it.\<close>
theorem op_database_is_vm_database:
  "op_vmdb_new R D m m1 m2 i tx f t = vmdb_new R D m m1 m2 i tx f t
   \<and> op_vmdb_basic R D m m1 m2 a db = vmdb_basic R D m m1 m2 a db
   \<and> op_vmdb_storage R D m a index db = vmdb_storage R D m a index db
   \<and> op_vmdb_code_by_hash D h db = vmdb_code_by_hash D h db
   \<and> op_vmdb_block_hash D number db = vmdb_block_hash D number db
   \<and> op_run_evm R D tree mems k db = run_evm R D tree mems k db"
  by (simp add: op_vmdb_new_eq op_database_eqs op_run_evm_eq op_vmdb_code_by_hash_def vmdb_code_by_hash_def
      op_vmdb_block_hash_def vmdb_block_hash_def lift_storage_def)

text \<open>C24 (op_execute_panics_exactly_without_envelope). An execution on the Optimism machine panics exactly when the virtual machine succeeds for a
  transaction that is not a deposit and has no enveloped bytes. Every other outcome is a result
  or an error value.\<close>
theorem op_execute_panics_exactly_without_envelope:
  "op_vm_execute R P transact V v mems m = None \<longleftrightarrow>
     op_tx_type P (op_vm_txs V ! tv_idx v) \<noteq> DEPOSIT_TRANSACTION_TYPE P
     \<and> op_enveloped_tx P (op_vm_txs V ! tv_idx v) = None
     \<and> (\<exists>out db. op_vm_read_phase R transact V (tv_idx v) mems = Inr (Inr out, db))"
proof -
  let ?tx = "op_vm_txs V ! tv_idx v"
  have s: "op_execution_succeeded R P V ?tx v db result state m = None \<longleftrightarrow>
      op_rewards_of P V ?tx (ucast (er_gas_used result)) = None" for db result state
  proof (cases "op_rewards_of P V ?tx (ucast (er_gas_used result))")
    case None
    then show ?thesis by (simp add: op_execution_succeeded_def op_apply_rewards_def Let_def split: prod.split)
  next
    case (Some rewards)
    then show ?thesis using op_execution_succeeded_eq by simp
  qed
  have "op_rewards_of P V ?tx gas = None \<longleftrightarrow>
      op_tx_type P ?tx \<noteq> DEPOSIT_TRANSACTION_TYPE P \<and> op_enveloped_tx P ?tx = None" for gas
    by (simp add: op_rewards_of_def Let_def split: option.split)
  then show ?thesis
    unfolding op_vm_execute_eq op_vm_read_phase_eq[symmetric] using s by (auto split: sum.split prod.split)
qed


definition sample_op_revm :: op_revm where
  "sample_op_revm = \<lparr>op_tx_type = te_tx_type, DEPOSIT_TRANSACTION_TYPE = 126, op_enveloped_tx = (\<lambda>tx. Some [1, 2]),
     calculate_tx_l1_cost = (\<lambda>bytes. 5), L1_FEE_RECIPIENT = 70, BASE_FEE_RECIPIENT = 71\<rparr>"


end
