(* ===== verification/Op_Executor.thy ===== *)
theory Op_Executor
  imports Executor Op_Vm
begin

text \<open>
  The Optimism executor (\<open>crates/pe/src/op_executor.rs\<close>). The file repeats the code of
  \<open>executor.rs\<close> for \<open>OpVm\<close>; the definitions below translate its own lines, written as the code
  nests them, and the lemmas show that the worker functions and the evaluation after the join
  are those of \<open>executor.rs\<close>. The sequential fallback differs: it ignores the block environment,
  runs the Optimism machine and maps its errors.
\<close>

section \<open>Tasks\<close>

record op_parallel_executor =
  op_execution_results :: "tx_execution_result option list"
  op_abort_reason :: "abort_reason option"

definition op_try_execute_attempt ::
    "tx_version \<Rightarrow> vm_execution_error + vm_execution_result \<Rightarrow> op_parallel_executor \<Rightarrow> scheduler
      \<Rightarrow> attempt \<times> op_parallel_executor \<times> scheduler" where
  "op_try_execute_attempt v r E s =
     (let running = (op_abort_reason E = None);
          abort_with = (\<lambda>reason. if running then E\<lparr>op_abort_reason := Some reason\<rparr> else E)
      in case r of
           Inl VmRetry \<Rightarrow> (if running then Again else Return_task None, E, s)
         | Inl VmFallbackToSequential \<Rightarrow> (Return_task None, abort_with AbortFallbackToSequential, sched_abort s)
         | Inl (VmBlocking blocking_tx_idx) \<Rightarrow>
             (let (added, s') = add_dependency (tv_idx v) blocking_tx_idx s
              in (if added \<or> \<not> running then Return_task None else Again, E, s'))
         | Inl (VmExecutionError err) \<Rightarrow> (Return_task None, abort_with (AbortExecutionError err), sched_abort s)
         | Inr res \<Rightarrow>
             (let E' = E\<lparr>op_execution_results := (op_execution_results E)[tv_idx v := Some (vr_execution_result res)]\<rparr>;
                  (t, s') = finish_execution v (vr_flags res) s
              in (Return_task t, E', s')))"

definition op_try_validate :: "tx_version \<Rightarrow> mv_memory \<Rightarrow> scheduler \<Rightarrow> task option \<times> mv_memory \<times> scheduler" where
  "op_try_validate v m s =
     (if validate_read_locations (tv_idx v) m
      then (let (t, s') = finish_validation v False s in (t, m, s'))
      else
        (let (was_aborted, s') = try_validation_abort v s in
         if was_aborted
         then (let (t, s'') = finish_validation v True s' in (t, convert_writes_to_estimates (tv_idx v) m, s''))
         else (let (t, s'') = finish_validation v False s' in (t, m, s''))))"

section \<open>After the join\<close>

primrec op_collect_results :: "tx_execution_result option list \<Rightarrow> u64 \<Rightarrow> tx_execution_result list option" where
  "op_collect_results [] gas = Some []"
| "op_collect_results (x # rs) gas =
     (case x of
        None \<Rightarrow> None
      | Some r \<Rightarrow>
          (let gas' = saturating_add gas (rc_cumulative_gas_used (tr_receipt r));
               r' = r\<lparr>tr_receipt := (tr_receipt r)\<lparr>rc_cumulative_gas_used := gas'\<rparr>\<rparr>
           in case op_collect_results rs gas' of None \<Rightarrow> None | Some results \<Rightarrow> Some (r' # results)))"

primrec op_evaluate_history ::
    "revm \<Rightarrow> evm_env \<Rightarrow> tx_env list \<Rightarrow> address \<Rightarrow> b256 \<Rightarrow> bytecode \<Rightarrow> (nat \<times> entry) list \<Rightarrow> u256 \<Rightarrow> u64
      \<Rightarrow> tx_execution_result list \<Rightarrow> (parallel_executor_error + tx_execution_result list) option" where
  "op_evaluate_history R env txs a code_hash code [] balance nonce results = Some (Inr results)"
| "op_evaluate_history R env txs a code_hash code (h # history) balance nonce results =
     (let tx_idx = fst h; tx = txs ! tx_idx;
          fee = saturating_add
            (saturating_add (saturating_mul (ucast (te_gas_limit tx)) (ucast (te_gas_price tx))) (te_value tx))
            (saturating_mul (ucast (te_total_blob_gas tx)) (ucast (te_max_fee_per_blob_gas tx)));
          continue = (\<lambda>balance nonce.
            if te_caller tx = a \<and> nonce = 0 then Some (Inl UnreachableError)
            else if te_caller tx = a \<and> te_nonce tx \<noteq> nonce - 1
            then Some (Inl (NonceMismatch tx_idx (te_nonce tx) (nonce - 1)))
            else
              (let r = results ! tx_idx;
                   acc = (case map_of (tr_state r) a of
                       Some acc \<Rightarrow> acc\<lparr>acc_info := (acc_info acc)\<lparr>ai_balance := balance, ai_nonce := nonce\<rparr>\<rparr>
                     | None \<Rightarrow>
                         \<lparr>acc_info = \<lparr>ai_balance = balance, ai_nonce = nonce, ai_code_hash = code_hash,
                            ai_code = Some code\<rparr>,
                          acc_touched = True, acc_selfdestructed = False, acc_storage = []\<rparr>);
                   r' = (if ee_spurious_dragon env \<and> code_hash = KECCAK_EMPTY R \<and> nonce = 0 \<and> balance = 0 then r
                         else r\<lparr>tr_state := AList.update a acc (tr_state r)\<rparr>)
               in op_evaluate_history R env txs a code_hash code history balance nonce (results[tx_idx := r'])))
      in case snd h of
           Data _ (VBasic info) \<Rightarrow> continue (ai_balance info) (ai_nonce info)
         | Data _ (LazyRecipient addition) \<Rightarrow> continue (saturating_add balance addition) nonce
         | Data _ (LazySender subtraction) \<Rightarrow>
             (if balance < fee
              then Some (Inl (PeExecutionError (ETransaction (LackOfFundForMaxFee balance fee))))
              else continue (saturating_sub balance subtraction) (nonce + 1))
         | _ \<Rightarrow> None)"

definition op_evaluate_address ::
    "revm \<Rightarrow> database_ref \<Rightarrow> evm_env \<Rightarrow> tx_env list \<Rightarrow> mv_memory \<Rightarrow> address \<Rightarrow> tx_execution_result list
      \<Rightarrow> (parallel_executor_error + tx_execution_result list) option" where
  "op_evaluate_address R D env txs m a results =
     (case mv_data m (hash_location R (Basic a)) of
        None \<Rightarrow> Some (Inr results)
      | Some history \<Rightarrow>
          (let stored = (if first_is_basic history then None
                         else case basic_ref D a of Inr acc \<Rightarrow> acc | Inl _ \<Rightarrow> None);
               (balance, nonce, code_hash) = (case stored of
                   Some acc \<Rightarrow> (ai_balance acc, ai_nonce acc, ai_code_hash acc)
                 | None \<Rightarrow> (0, 0, KECCAK_EMPTY R))
           in case code_by_hash_ref D code_hash of
                Inl err \<Rightarrow> Some (Inl (PeStorageError err))
              | Inr code \<Rightarrow> op_evaluate_history R env txs a code_hash code history balance nonce results))"

primrec op_evaluate_addresses ::
    "revm \<Rightarrow> database_ref \<Rightarrow> evm_env \<Rightarrow> tx_env list \<Rightarrow> mv_memory \<Rightarrow> address list \<Rightarrow> tx_execution_result list
      \<Rightarrow> (parallel_executor_error + tx_execution_result list) option" where
  "op_evaluate_addresses R D env txs m [] results = Some (Inr results)"
| "op_evaluate_addresses R D env txs m (a # as) results =
     (case op_evaluate_address R D env txs m a results of
        None \<Rightarrow> None
      | Some (Inl e) \<Rightarrow> Some (Inl e)
      | Some (Inr results') \<Rightarrow> op_evaluate_addresses R D env txs m as results')"

section \<open>Sequential execution\<close>

record 'c op_sequential =
  op_seq_transact :: "'c \<Rightarrow> tx_env \<Rightarrow> ((string, op_transaction_error) evm_error + execution_result \<times> evm_state) \<times> 'c"
  op_seq_commit :: "evm_state \<Rightarrow> 'c \<Rightarrow> 'c"

fun op_sequential_loop ::
    "revm \<Rightarrow> 'c op_sequential \<Rightarrow> tx_env list \<Rightarrow> 'c \<Rightarrow> u64 \<Rightarrow> parallel_executor_result" where
  "op_sequential_loop R Q [] db cumulative_gas_used = Inr []"
| "op_sequential_loop R Q (tx # txs) db cumulative_gas_used =
     (case tx_type_try_from R (te_tx_type tx) of
        Inl _ \<Rightarrow> Inl UnreachableError
      | Inr ty \<Rightarrow>
          (case op_seq_transact Q db tx of
             (Inl err, _) \<Rightarrow> Inl (op_evm_err_to_exec_error err)
           | (Inr result_and_state, db') \<Rightarrow>
               (case add_cumulative_gas (from_raw_op ty result_and_state) cumulative_gas_used of
                  (cumulative_gas_used', r) \<Rightarrow>
                    (case op_sequential_loop R Q txs (op_seq_commit Q (snd result_and_state) db') cumulative_gas_used' of
                       Inl e \<Rightarrow> Inl e
                     | Inr rs \<Rightarrow> Inr (r # rs)))))"

definition op_execute_sequential ::
    "revm \<Rightarrow> 'c op_sequential \<Rightarrow> 'c \<Rightarrow> evm_env \<Rightarrow> tx_env list \<Rightarrow> parallel_executor_result" where
  "op_execute_sequential R Q db evm_env txs = op_sequential_loop R Q txs db 0"

section \<open>The whole block\<close>

definition op_execute_joined ::
    "revm \<Rightarrow> database_ref \<Rightarrow> 'c op_sequential \<Rightarrow> 'c \<Rightarrow> evm_env \<Rightarrow> tx_env list \<Rightarrow> mv_memory \<Rightarrow> op_parallel_executor
      \<Rightarrow> (parallel_executor_result \<times> op_parallel_executor) option" where
  "op_execute_joined R D Q cache env txs m E =
     (let n = length txs; E' = E\<lparr>op_abort_reason := None\<rparr> in
      case op_abort_reason E of
        Some AbortFallbackToSequential \<Rightarrow> Some (op_execute_sequential R Q cache env txs, E')
      | Some (AbortExecutionError err) \<Rightarrow> Some (Inl (PeExecutionError err), E')
      | None \<Rightarrow>
          (case op_collect_results (take n (op_execution_results E)) 0 of
             None \<Rightarrow> None
           | Some results \<Rightarrow>
               (case op_evaluate_addresses R D env txs m (consume_lazy_addresses m) results of
                  None \<Rightarrow> None
                | Some r \<Rightarrow>
                    Some (r, E'\<lparr>op_execution_results := replicate n None @ drop n (op_execution_results E)\<rparr>))))"

definition op_reserve_results :: "nat \<Rightarrow> op_parallel_executor \<Rightarrow> op_parallel_executor" where
  "op_reserve_results block_size E =
     E\<lparr>op_execution_results :=
         op_execution_results E @ replicate (block_size - length (op_execution_results E)) None\<rparr>"

text \<open>\<open>hash_address\<close> is the hash of an address that is not wrapped in a location.\<close>

definition op_pe_execute ::
    "revm \<Rightarrow> op_revm \<Rightarrow> (address \<Rightarrow> location_hash) \<Rightarrow> database_ref \<Rightarrow> 'c op_sequential \<Rightarrow> 'c \<Rightarrow> evm_env
      \<Rightarrow> (op_vm \<Rightarrow> scheduler \<Rightarrow> mv_memory \<Rightarrow> op_parallel_executor \<Rightarrow> mv_memory \<times> op_parallel_executor)
      \<Rightarrow> tx_env list \<Rightarrow> op_parallel_executor \<Rightarrow> (parallel_executor_result \<times> op_parallel_executor) option" where
  "op_pe_execute R P hash_address D Q cache env threads txs E =
     (if txs = [] then Some (Inr [], E)
      else
        (case threads (op_vm_new R P D env txs) (scheduler_new (length txs))
                (build_op_mv_memory hash_address (L1_FEE_RECIPIENT P) (BASE_FEE_RECIPIENT P) (ee_beneficiary env) txs)
                (op_reserve_results (length txs) E) of
           (m, E') \<Rightarrow> op_execute_joined R D Q cache env txs m E'))"

section \<open>Agreement with the Ethereum executor\<close>

definition eth_executor :: "op_parallel_executor \<Rightarrow> parallel_executor" where
  "eth_executor E = \<lparr>execution_results = op_execution_results E, pe_abort_reason = op_abort_reason E\<rparr>"

lemma op_try_execute_attempt_eq:
  "(case op_try_execute_attempt v r E s of (a, E', s') \<Rightarrow> (a, eth_executor E', s')) =
     try_execute_attempt v r (eth_executor E) s"
  by (auto simp: op_try_execute_attempt_def try_execute_attempt_def eth_executor_def set_abort_reason_def Let_def
      split: sum.split vm_execution_error.split prod.split option.split)

lemma op_try_validate_eq: "op_try_validate v m s = try_validate v m s"
  by (auto simp: op_try_validate_def try_validate_def Let_def split: prod.split)

lemma op_collect_results_eq: "op_collect_results rs gas = collect_results rs gas"
  by (induction rs gas rule: collect_results.induct)
    (auto simp: add_cumulative_gas_def Let_def split: option.split)

lemma op_evaluate_history_eq:
  "op_evaluate_history R env txs a code_hash code history balance nonce results =
     evaluate_history R env txs a code_hash code history balance nonce results"
proof (induction history arbitrary: balance nonce results)
  case (Cons h history)
  obtain i e where h: "h = (i, e)" by force
  have put: "(if ee_spurious_dragon env \<and> code_hash = KECCAK_EMPTY R \<and> n = 0 \<and> b = 0 then r
       else r\<lparr>tr_state := AList.update a
         (case map_of (tr_state r) a of
            Some acc \<Rightarrow> acc\<lparr>acc_info := (acc_info acc)\<lparr>ai_balance := b, ai_nonce := n\<rparr>\<rparr>
          | None \<Rightarrow>
              \<lparr>acc_info = \<lparr>ai_balance = b, ai_nonce = n, ai_code_hash = code_hash, ai_code = Some code\<rparr>,
               acc_touched = True, acc_selfdestructed = False, acc_storage = []\<rparr>) (tr_state r)\<rparr>)
      = put_evaluated R env a code_hash code b n r" for b n r
    by (auto simp: put_evaluated_def split: option.split)
  show ?case
  proof (cases e)
    case (Data inc val)
    then show ?thesis
      by (cases val)
        (auto simp: h Let_def Cons.IH put max_fee_def check_executed_nonce_def)
  qed (simp add: h Let_def)
qed simp

lemma op_evaluate_address_eq: "op_evaluate_address R D env txs m a results = evaluate_address R D env txs m a results"
  by (auto simp: op_evaluate_address_def evaluate_address_def initial_account_def op_evaluate_history_eq Let_def
      split: option.split sum.split)

lemma op_evaluate_addresses_eq:
  "op_evaluate_addresses R D env txs m as results = evaluate_addresses R D env txs m as results"
  by (induction as arbitrary: results) (auto simp: op_evaluate_address_eq split: option.split sum.split)

section \<open>Properties\<close>

text \<open>C23 (op_executor_is_executor). The Optimism executor does with tasks and results what the Ethereum executor does: the turn of
  the execution loop, the validation task, and everything after the join of the threads, up to
  the sequential fallback, which runs the Optimism machine instead.\<close>
theorem op_executor_is_executor:
  "(case op_try_execute_attempt v r E s of (a, E', s') \<Rightarrow> (a, eth_executor E', s')) =
     try_execute_attempt v r (eth_executor E) s
   \<and> op_try_validate v m s = try_validate v m s
   \<and> map_option (apsnd eth_executor) (op_execute_joined R D Q cache env txs m E) =
       (if op_abort_reason E = Some AbortFallbackToSequential
        then Some (op_execute_sequential R Q cache env txs, eth_executor (E\<lparr>op_abort_reason := None\<rparr>))
        else execute_joined R D Q' cache' env txs m (eth_executor E))"
proof -
  have "map_option (apsnd eth_executor) (op_execute_joined R D Q cache env txs m E) =
       (if op_abort_reason E = Some AbortFallbackToSequential
        then Some (op_execute_sequential R Q cache env txs, eth_executor (E\<lparr>op_abort_reason := None\<rparr>))
        else execute_joined R D Q' cache' env txs m (eth_executor E))"
    by (auto simp: op_execute_joined_def execute_joined_def op_collect_results_eq op_evaluate_addresses_eq
        eth_executor_def Let_def map_option_case split: option.split abort_reason.split)
  then show ?thesis by (simp add: op_try_execute_attempt_eq op_try_validate_eq)
qed

end
