(* ===== verification/Op_Block_Executor.thy ===== *)
theory Op_Block_Executor
  imports Block_Executor Op_Executor
begin

text \<open>
  The block executor of the Optimism node (\<open>crates/chain/src/op_provider.rs\<close>). The state, the
  specification and the environment are those of theory \<open>Block_Executor\<close>; transactions come with
  the bytes of their envelope and the source of a deposit, which the conversion to the base
  transaction drops. \<open>None\<close> is a panic.
\<close>

section \<open>Executing a block\<close>

record op_transaction =
  ot_base :: tx_env
  ot_enveloped :: "u8 list option"
  ot_deposit_source :: "b256 option"

record op_executable_tx =
  oxt_env :: op_transaction
  oxt_blob_gas_used :: "u64 option"

datatype op_receipt =
    OpLegacy receipt
  | OpEip1559 receipt
  | OpEip2930 receipt
  | OpEip7702 receipt

record op_block_execution_result =
  obr_receipts :: "op_receipt list"
  obr_requests :: requests
  obr_gas_used :: u64
  obr_blob_gas_used :: u64

text \<open>The match on \<open>TxType\<close>, whose variants have the numbers 0 (legacy), 1 (EIP-2930), 2 (EIP-1559),
  3 (EIP-4844) and 4 (EIP-7702).\<close>

definition to_op_receipt :: "receipt \<Rightarrow> op_receipt option" where
  "to_op_receipt r =
     (if rc_tx_type r = 0 then Some (OpLegacy r)
      else if rc_tx_type r = 2 then Some (OpEip1559 r)
      else if rc_tx_type r = 1 then Some (OpEip2930 r)
      else if rc_tx_type r = 4 then Some (OpEip7702 r)
      else None)"

fun op_commit_results ::
    "'s state_db \<Rightarrow> tx_execution_result list \<Rightarrow> 's \<Rightarrow> u64 \<Rightarrow> (op_receipt list \<times> 's \<times> u64) option" where
  "op_commit_results St [] s total_gas_used = Some ([], s, total_gas_used)"
| "op_commit_results St (r # rs) s total_gas_used =
     (case to_op_receipt (tr_receipt r) of
        None \<Rightarrow> None
      | Some receipt \<Rightarrow>
          map_option (\<lambda>(receipts, s', g). (receipt # receipts, s', g))
            (op_commit_results St rs (sd_commit St (tr_state r) s)
               (total_gas_used + rc_cumulative_gas_used (tr_receipt r))))"

definition op_executor_default :: op_parallel_executor where
  "op_executor_default = \<lparr>op_execution_results = [], op_abort_reason = None\<rparr>"

definition op_block_execute ::
    "revm \<Rightarrow> op_revm \<Rightarrow> (address \<Rightarrow> location_hash) \<Rightarrow> 'c op_sequential \<Rightarrow> 'c
      \<Rightarrow> (op_vm \<Rightarrow> scheduler \<Rightarrow> mv_memory \<Rightarrow> op_parallel_executor \<Rightarrow> mv_memory \<times> op_parallel_executor)
      \<Rightarrow> db_read list \<Rightarrow> 's chain_spec \<Rightarrow> 's state_db \<Rightarrow> op_executable_tx list \<Rightarrow> 's block_executor
      \<Rightarrow> ((block_execution_error + op_block_execution_result) \<times> 's block_executor) option" where
  "op_block_execute R P hash_address Q cache threads loads CS St transactions B =
     (let block = bx_block B;
          state_clear_flag = is_spurious_dragon_active_at_block CS (try_into_u64 (be_number block));
          env = evm_env_new (cfg_env_default CS) block;
          db = sd_set_state_clear_flag St state_clear_flag (bx_state B);
          total_blob_gas_used = sum_list (List.map_filter oxt_blob_gas_used transactions)
      in case op_pe_execute R P hash_address (adapter_ref St db) Q cache env threads
                (map (\<lambda>tx. ot_base (oxt_env tx)) transactions) op_executor_default of
           None \<Rightarrow> None
         | Some (results, _) \<Rightarrow>
             (let db' = fold (adapter_read St) loads db in
              case results of
                Inl err \<Rightarrow> Some (Inl (BlockInternal err), B\<lparr>bx_state := db'\<rparr>)
              | Inr rs \<Rightarrow>
                  (case op_commit_results St rs db' 0 of
                     None \<Rightarrow> None
                   | Some (receipts, db'', total_gas_used) \<Rightarrow>
                       Some (Inr \<lparr>obr_receipts = receipts, obr_requests = [], obr_gas_used = total_gas_used,
                                  obr_blob_gas_used = total_blob_gas_used\<rparr>, B\<lparr>bx_state := db''\<rparr>))))"

definition op_post_execution ::
    "'s chain_spec \<Rightarrow> 's state_db \<Rightarrow> 's block_executor \<Rightarrow> (block_execution_error + unit) \<times> 's block_executor" where
  "op_post_execution CS St B = increment_all St (post_block_balance_increments CS (bx_block B)) B"

definition op_execute_transactions ::
    "revm \<Rightarrow> op_revm \<Rightarrow> (address \<Rightarrow> location_hash) \<Rightarrow> 'c op_sequential \<Rightarrow> 'c
      \<Rightarrow> (op_vm \<Rightarrow> scheduler \<Rightarrow> mv_memory \<Rightarrow> op_parallel_executor \<Rightarrow> mv_memory \<times> op_parallel_executor)
      \<Rightarrow> db_read list \<Rightarrow> 's chain_spec \<Rightarrow> 's state_db \<Rightarrow> op_executable_tx list \<Rightarrow> 's block_executor
      \<Rightarrow> ((block_execution_error + op_block_execution_result) \<times> 's block_executor) option" where
  "op_execute_transactions R P hash_address Q cache threads loads CS St transactions B =
     (case op_block_execute R P hash_address Q cache threads loads CS St transactions B of
        None \<Rightarrow> None
      | Some (Inl err, B1) \<Rightarrow> Some (Inl err, B1)
      | Some (Inr result, B1) \<Rightarrow>
          Some (case op_post_execution CS St B1 of
             (Inl err, B2) \<Rightarrow> (Inl err, B2)
           | (Inr _, B2) \<Rightarrow> (Inr result, B2)))"

definition op_execute_block ::
    "revm \<Rightarrow> op_revm \<Rightarrow> (address \<Rightarrow> location_hash) \<Rightarrow> 'c op_sequential \<Rightarrow> 'c
      \<Rightarrow> (op_vm \<Rightarrow> scheduler \<Rightarrow> mv_memory \<Rightarrow> op_parallel_executor \<Rightarrow> mv_memory \<times> op_parallel_executor)
      \<Rightarrow> db_read list \<Rightarrow> 's chain_spec \<Rightarrow> 's state_db \<Rightarrow> op_executable_tx list \<Rightarrow> 's block_executor
      \<Rightarrow> ((block_execution_error + op_block_execution_result) \<times> 's block_executor) option" where
  "op_execute_block R P hash_address Q cache threads loads CS St transactions B =
     (case eth_pre_execution_changes CS (bx_state B) of
        (Inl err, s) \<Rightarrow> Some (Inl (BlockOther err), B\<lparr>bx_state := s\<rparr>)
      | (Inr _, s) \<Rightarrow> op_execute_transactions R P hash_address Q cache threads loads CS St transactions (B\<lparr>bx_state := s\<rparr>))"

section \<open>Receipts\<close>

fun op_inner :: "op_receipt \<Rightarrow> receipt" where
  "op_inner (OpLegacy r) = r"
| "op_inner (OpEip1559 r) = r"
| "op_inner (OpEip2930 r) = r"
| "op_inner (OpEip7702 r) = r"

lemma to_op_receipt_None: "to_op_receipt r = None \<longleftrightarrow> rc_tx_type r \<notin> {0, 1, 2, 4}"
  by (auto simp: to_op_receipt_def)

lemma to_op_receipt_inner: "to_op_receipt r = Some x \<Longrightarrow> op_inner x = r"
  by (auto simp: to_op_receipt_def split: if_splits)

text \<open>The conversion of the results is that of the Ethereum node with the receipts wrapped.\<close>

lemma op_commit_results_is_commit:
  "op_commit_results St rs s g =
     (if \<forall>r \<in> set rs. to_op_receipt (tr_receipt r) \<noteq> None
      then (case commit_results St rs s g of (receipts, s', g') \<Rightarrow> Some (map (the \<circ> to_op_receipt) receipts, s', g'))
      else None)"
  by (induction rs arbitrary: s g) (auto split: option.splits prod.splits)


definition sample_blob_threads ::
    "op_vm \<Rightarrow> scheduler \<Rightarrow> mv_memory \<Rightarrow> op_parallel_executor \<Rightarrow> mv_memory \<times> op_parallel_executor" where
  "sample_blob_threads V s m E =
     (\<lparr>mv_data = Map.empty, mv_locations = [], lazy_addresses = [], new_bytecodes = Map.empty\<rparr>,
      \<lparr>op_execution_results = [Some (from_raw 3 sample_result [])], op_abort_reason = None\<rparr>)"


end
