(* ===== verification/In_Memory_DB.thy ===== *)
theory In_Memory_DB
  imports Vm_Replay
begin

text \<open>
  The database in memory (\<open>crates/pe/src/db.rs\<close>): accounts, bytecodes and block hashes. The hash
  function and the text form of a hash are parameters. The executors see an error of the database
  through its text, with the prefix of \<open>DBError\<close>.
\<close>

section \<open>The database\<close>

record in_memory_db =
  imdb_accounts :: "(address, account) hashmap"
  imdb_bytecodes :: "(b256, bytecode) hashmap"
  imdb_block_hashes :: "(u64, b256) hashmap"

definition in_memory_db_new ::
    "(address, account) hashmap \<Rightarrow> (b256, bytecode) hashmap \<Rightarrow> (u64, b256) hashmap \<Rightarrow> in_memory_db" where
  "in_memory_db_new accounts bytecodes block_hashes =
     \<lparr>imdb_accounts = accounts, imdb_bytecodes = bytecodes, imdb_block_hashes = block_hashes\<rparr>"

text \<open>\<open>number.to_string()\<close>.\<close>

fun to_decimal :: "nat \<Rightarrow> string" where
  "to_decimal n = (if n < 10 then [char_of (48 + n)] else to_decimal (n div 10) @ [char_of (48 + n mod 10)])"

declare to_decimal.simps [simp del]

record hashing =
  keccak256 :: "string \<Rightarrow> b256"
  show_b256 :: "b256 \<Rightarrow> string"

definition imdb_basic_ref :: "in_memory_db \<Rightarrow> address \<Rightarrow> db_error + account_info option" where
  "imdb_basic_ref d a = Inr (map_option acc_info (map_of (imdb_accounts d) a))"

definition imdb_code_by_hash_ref :: "revm \<Rightarrow> hashing \<Rightarrow> in_memory_db \<Rightarrow> b256 \<Rightarrow> db_error + bytecode" where
  "imdb_code_by_hash_ref R H d code_hash =
     (if code_hash = KECCAK_EMPTY R then Inr (bytecode_default R)
      else case map_of (imdb_bytecodes d) code_hash of
             Some code \<Rightarrow> Inr code
           | None \<Rightarrow> Inl (StorageNotFound (''code_hash_not_found '' @ show_b256 H code_hash)))"

definition imdb_storage_ref :: "in_memory_db \<Rightarrow> address \<Rightarrow> u256 \<Rightarrow> db_error + u256" where
  "imdb_storage_ref d a index =
     Inr (case map_of (imdb_accounts d) a of
            None \<Rightarrow> 0
          | Some account \<Rightarrow>
              (case map_of (acc_storage account) index of None \<Rightarrow> 0 | Some v \<Rightarrow> slot_present v))"

definition imdb_block_hash_ref :: "hashing \<Rightarrow> in_memory_db \<Rightarrow> u64 \<Rightarrow> db_error + b256" where
  "imdb_block_hash_ref H d number =
     Inr (case map_of (imdb_block_hashes d) number of
            Some h \<Rightarrow> h
          | None \<Rightarrow> keccak256 H (to_decimal (unat number)))"

fun show_db_error :: "db_error \<Rightarrow> string" where
  "show_db_error (StorageNotFound s) = ''Storage error: '' @ s"

definition in_memory_ref :: "revm \<Rightarrow> hashing \<Rightarrow> in_memory_db \<Rightarrow> database_ref" where
  "in_memory_ref R H d =
     \<lparr>basic_ref = (\<lambda>a. map_sum show_db_error id (imdb_basic_ref d a)),
      code_by_hash_ref = (\<lambda>h. map_sum show_db_error id (imdb_code_by_hash_ref R H d h)),
      storage_ref = (\<lambda>a i. map_sum show_db_error id (imdb_storage_ref d a i)),
      block_hash_ref = (\<lambda>n. map_sum show_db_error id (imdb_block_hash_ref H d n))\<rparr>"

section \<open>Well-formed databases\<close>

text \<open>Each account has the empty code hash or one with a bytecode.\<close>

definition imdb_wf :: "revm \<Rightarrow> in_memory_db \<Rightarrow> bool" where
  "imdb_wf R d \<longleftrightarrow> (\<forall>(a, acc) \<in> set (imdb_accounts d).
     ai_code_hash (acc_info acc) = KECCAK_EMPTY R \<or> map_of (imdb_bytecodes d) (ai_code_hash (acc_info acc)) \<noteq> None)"

definition imdb_code :: "revm \<Rightarrow> in_memory_db \<Rightarrow> b256 \<Rightarrow> bytecode" where
  "imdb_code R d h = (if h = KECCAK_EMPTY R then bytecode_default R else the (map_of (imdb_bytecodes d) h))"

text \<open>The text of a number determines it, so that numbers without a stored hash are told apart.\<close>

fun of_decimal :: "nat \<Rightarrow> string \<Rightarrow> nat" where
  "of_decimal n [] = n"
| "of_decimal n (c # cs) = of_decimal (10 * n + (of_char c - 48)) cs"

lemma of_decimal_append: "of_decimal n (xs @ ys) = of_decimal (of_decimal n xs) ys"
  by (induction xs arbitrary: n) simp_all

lemma of_char_digit: "k < 10 \<Longrightarrow> (of_char (char_of (48 + k)) :: nat) = 48 + k" for k :: nat
  by (simp add: of_char_of)

lemma of_to_decimal: "of_decimal 0 (to_decimal n) = n"
proof (induction n rule: to_decimal.induct)
  case (1 n)
  show ?case
  proof (cases "n < 10")
    case True
    then show ?thesis by (subst to_decimal.simps) (simp add: of_char_digit)
  next
    case False
    then have "of_decimal 0 (to_decimal (n div 10)) = n div 10" using 1 by simp
    moreover have "to_decimal n = to_decimal (n div 10) @ [char_of (48 + n mod 10)]"
      using False by (subst to_decimal.simps) simp
    ultimately show ?thesis by (simp add: of_decimal_append of_char_digit)
  qed
qed

lemma to_decimal_inj: "to_decimal n = to_decimal k \<longleftrightarrow> n = k"
  by (metis of_to_decimal)

definition decimals :: "string set" where
  "decimals = range (\<lambda>n :: u64. to_decimal (unat n))"

section \<open>Properties\<close>


definition sample_imdb :: in_memory_db where
  "sample_imdb = in_memory_db_new
     [(5, \<lparr>acc_info = \<lparr>ai_balance = 8, ai_nonce = 0, ai_code_hash = 7, ai_code = None\<rparr>, acc_touched = False,
           acc_selfdestructed = False, acc_storage = []\<rparr>)] [(7, [1, 2])] []"

definition sample_revm_codes :: revm where
  "sample_revm_codes = \<lparr>hash_location = (\<lambda>_. 0), bytecode_default = [], KECCAK_EMPTY = 0,
     account_info_default = \<lparr>ai_balance = 0, ai_nonce = 0, ai_code_hash = 0, ai_code = None\<rparr>,
     is_empty_code_hash = (\<lambda>info. ai_code_hash info = 0), account_is_empty = (\<lambda>_. False),
     changed_storage_slots = (\<lambda>_. []), tx_type_try_from = Inr\<rparr>"


end
