(* ===== verification/Spec_Ids.thy ===== *)
theory Spec_Ids
  imports Prelude
begin

text \<open>
  The hard forks as the tools name them (\<open>crates/tools/src/lib.rs\<close>): the names of the Ethereum test
  suites, their specification identifiers, and the specification of a mainnet block. The datatype
  \<open>spec_id\<close> has the identifiers of revm that the sources use, in the order of their activation, which
  is the order of the type. \<open>None\<close> is a panic.
\<close>

section \<open>Identifiers\<close>

datatype spec_id =
    FRONTIER
  | HOMESTEAD
  | TANGERINE
  | SPURIOUS_DRAGON
  | BYZANTIUM
  | PETERSBURG
  | ISTANBUL
  | BERLIN
  | LONDON
  | MERGE
  | SHANGHAI
  | CANCUN
  | PRAGUE
  | OSAKA

primrec spec_rank :: "spec_id \<Rightarrow> nat" where
  "spec_rank FRONTIER = 0"
| "spec_rank HOMESTEAD = 1"
| "spec_rank TANGERINE = 2"
| "spec_rank SPURIOUS_DRAGON = 3"
| "spec_rank BYZANTIUM = 4"
| "spec_rank PETERSBURG = 5"
| "spec_rank ISTANBUL = 6"
| "spec_rank BERLIN = 7"
| "spec_rank LONDON = 8"
| "spec_rank MERGE = 9"
| "spec_rank SHANGHAI = 10"
| "spec_rank CANCUN = 11"
| "spec_rank PRAGUE = 12"
| "spec_rank OSAKA = 13"

lemma spec_rank_inj: "spec_rank a = spec_rank b \<longleftrightarrow> a = b"
  by (cases a; cases b) simp_all

instantiation spec_id :: linorder
begin

definition less_eq_spec_id :: "spec_id \<Rightarrow> spec_id \<Rightarrow> bool" where
  "less_eq_spec_id a b \<longleftrightarrow> spec_rank a \<le> spec_rank b"

definition less_spec_id :: "spec_id \<Rightarrow> spec_id \<Rightarrow> bool" where
  "less_spec_id a b \<longleftrightarrow> spec_rank a < spec_rank b"

instance
  by standard (auto simp: less_eq_spec_id_def less_spec_id_def spec_rank_inj)

end

section \<open>Names and blocks\<close>

datatype spec_name =
    Frontier
  | FrontierToHomesteadAt5
  | Homestead
  | HomesteadToDaoAt5
  | HomesteadToEIP150At5
  | EIP150
  | EIP158
  | EIP158ToByzantiumAt5
  | Byzantium
  | ByzantiumToConstantinopleAt5
  | ByzantiumToConstantinopleFixAt5
  | Constantinople
  | ConstantinopleFix
  | Istanbul
  | Berlin
  | BerlinToLondonAt5
  | London
  | Paris
  | Merge
  | Shanghai
  | Cancun
  | Prague
  | Osaka
  | Unknown

fun to_spec_id :: "spec_name \<Rightarrow> spec_id option" where
  "to_spec_id Frontier = Some FRONTIER"
| "to_spec_id Homestead = Some HOMESTEAD"
| "to_spec_id FrontierToHomesteadAt5 = Some HOMESTEAD"
| "to_spec_id EIP150 = Some TANGERINE"
| "to_spec_id HomesteadToDaoAt5 = Some TANGERINE"
| "to_spec_id HomesteadToEIP150At5 = Some TANGERINE"
| "to_spec_id EIP158 = Some SPURIOUS_DRAGON"
| "to_spec_id Byzantium = Some BYZANTIUM"
| "to_spec_id EIP158ToByzantiumAt5 = Some BYZANTIUM"
| "to_spec_id ConstantinopleFix = Some PETERSBURG"
| "to_spec_id ByzantiumToConstantinopleFixAt5 = Some PETERSBURG"
| "to_spec_id Istanbul = Some ISTANBUL"
| "to_spec_id Berlin = Some BERLIN"
| "to_spec_id London = Some LONDON"
| "to_spec_id BerlinToLondonAt5 = Some LONDON"
| "to_spec_id Paris = Some MERGE"
| "to_spec_id Merge = Some MERGE"
| "to_spec_id Shanghai = Some SHANGHAI"
| "to_spec_id Cancun = Some CANCUN"
| "to_spec_id Prague = Some PRAGUE"
| "to_spec_id Osaka = Some OSAKA"
| "to_spec_id ByzantiumToConstantinopleAt5 = None"
| "to_spec_id Constantinople = None"
| "to_spec_id Unknown = None"

definition get_block_spec :: "u64 \<Rightarrow> u64 \<Rightarrow> spec_id" where
  "get_block_spec timestamp block_number =
     (if 1710338135 \<le> timestamp then CANCUN
      else if 1681338455 \<le> timestamp then SHANGHAI
      else if 15537394 \<le> block_number then MERGE
      else if 12965000 \<le> block_number then LONDON
      else if 12244000 \<le> block_number then BERLIN
      else if 9069000 \<le> block_number then ISTANBUL
      else if 7280000 \<le> block_number then PETERSBURG
      else if 4370000 \<le> block_number then BYZANTIUM
      else if 2675000 \<le> block_number then SPURIOUS_DRAGON
      else if 2463000 \<le> block_number then TANGERINE
      else if 1150000 \<le> block_number then HOMESTEAD
      else FRONTIER)"

lemma if_chain_mono:
  "(c \<longrightarrow> c') \<Longrightarrow> r \<le> x \<Longrightarrow> r \<le> r' \<Longrightarrow> (if c then x else r) \<le> (if c' then x else r')" for x :: "'a :: order"
  by simp

lemma if_le: "x \<le> y \<Longrightarrow> r \<le> y \<Longrightarrow> (if c then x else r) \<le> y" for x :: "'a :: order"
  by simp

lemma get_block_spec_mono:
  "timestamp \<le> timestamp' \<Longrightarrow> block_number \<le> block_number'
    \<Longrightarrow> get_block_spec timestamp block_number \<le> get_block_spec timestamp' block_number'"
  unfolding get_block_spec_def
  by (intro if_chain_mono if_le order_refl) (simp_all add: less_eq_spec_id_def, (blast intro: order_trans)+)



end
