(* ===== verification/Compile_Worker.thy ===== *)
theory Compile_Worker
  imports Spec_Ids Types
begin

text \<open>
  The compiler of hot bytecode beside the interpreter (\<open>crates/vm/src/compiler.rs\<close>,
  \<open>crates/vm/src/pool.rs\<close>, \<open>crates/vm/src/error.rs\<close>). The names and paths of
  \<open>crates/vm/src/env.rs\<close> are arguments.

  The backend of revmc, the linker and the loader are parameters: from a configuration, a module
  name, a bytecode and a specification they give a function of type \<open>'f\<close> or a library of type \<open>'so\<close>,
  or an error. The files \<open>a.so\<close> under the store path are a map from code hashes. The cache of moka
  is a map; that it may drop an entry at any time is a step of the system. A task of the pool runs
  alone, as it holds the lock of the compiler; the permits of the semaphore only delay it.
\<close>

section \<open>Options and errors\<close>

datatype vm_error =
    BackendInit string
  | IO string
  | Compile string
  | Assembly string
  | Link string
  | LibLoading string
  | GetSymbol string
  | LockPoison string
  | Join string
  | Internal string
  | DisableCompiler

datatype optimization_level = Aggressive | OtherLevel nat

record compile_options =
  co_is_aot :: bool
  co_opt_level :: optimization_level
  co_no_gas :: bool
  co_no_len_checks :: bool

definition compile_options_default :: compile_options where
  "compile_options_default = \<lparr>co_is_aot = False, co_opt_level = Aggressive, co_no_gas = False, co_no_len_checks = False\<rparr>"

record ext_compile_options =
  eo_is_aot :: bool
  eo_threshold :: u64
  eo_pool_size :: nat
  eo_cache_size :: nat

definition ext_compile_options_default :: ext_compile_options where
  "ext_compile_options_default = \<lparr>eo_is_aot = True, eo_threshold = 1, eo_pool_size = 3, eo_cache_size = 128\<rparr>"

text \<open>What the code sets on an \<open>EvmCompiler\<close>.\<close>

record compiler_config =
  cc_aot :: bool
  cc_opt_level :: optimization_level
  cc_gas_metering :: bool
  cc_stack_bound_checks :: bool
  cc_module_name :: string

record ('f, 'so) backend =
  backend_new :: "bool \<Rightarrow> optimization_level \<Rightarrow> string + unit"
  backend_jit :: "compiler_config \<Rightarrow> string \<Rightarrow> bytecode \<Rightarrow> spec_id \<Rightarrow> string + 'f"
  backend_translate :: "compiler_config \<Rightarrow> string \<Rightarrow> bytecode \<Rightarrow> spec_id \<Rightarrow> string + 'so"
  write_object :: "b256 \<Rightarrow> string option"
  link_object :: "b256 \<Rightarrow> string option"
  create_dir :: "b256 \<Rightarrow> string option"
  remove_object :: "b256 \<Rightarrow> string option"
  load_library :: "'so \<Rightarrow> string option"
  library_symbol :: "'so \<Rightarrow> string \<Rightarrow> string + 'f"

section \<open>The compiler\<close>

record compiler =
  cm_opts :: compile_options
  cm_config :: compiler_config

definition compiler_config_of :: "compile_options \<Rightarrow> bool \<Rightarrow> optimization_level \<Rightarrow> string \<Rightarrow> compiler_config" where
  "compiler_config_of opts aot opt name =
     \<lparr>cc_aot = aot, cc_opt_level = opt, cc_gas_metering = co_no_gas opts,
      cc_stack_bound_checks = (\<not> co_no_len_checks opts), cc_module_name = name\<rparr>"

definition compiler_new :: "('f, 'so) backend \<Rightarrow> string \<Rightarrow> compile_options \<Rightarrow> vm_error + compiler" where
  "compiler_new L name opts =
     (case backend_new L (co_is_aot opts) Aggressive of
        Inl err \<Rightarrow> Inl (BackendInit err)
      | Inr _ \<Rightarrow> Inr \<lparr>cm_opts = opts, cm_config = compiler_config_of opts (co_is_aot opts) Aggressive name\<rparr>)"

definition jit_compile :: "('f, 'so) backend \<Rightarrow> string \<Rightarrow> compiler \<Rightarrow> bytecode \<Rightarrow> spec_id \<Rightarrow> vm_error + 'f" where
  "jit_compile L name C code spec =
     (case backend_jit L (cm_config C) name code spec of Inl err \<Rightarrow> Inl (Compile err) | Inr f \<Rightarrow> Inr f)"

text \<open>\<open>aot_compile\<close> writes the library to the store.\<close>

definition aot_compile ::
    "('f, 'so) backend \<Rightarrow> string \<Rightarrow> compiler \<Rightarrow> b256 \<Rightarrow> bytecode \<Rightarrow> spec_id \<Rightarrow> (b256 \<rightharpoonup> 'so)
      \<Rightarrow> (vm_error + unit) \<times> (b256 \<rightharpoonup> 'so)" where
  "aot_compile L name C h code spec store =
     (case backend_new L True (co_opt_level (cm_opts C)) of
        Inl err \<Rightarrow> (Inl (BackendInit err), store)
      | Inr _ \<Rightarrow>
          (case backend_translate L (compiler_config_of (cm_opts C) True (co_opt_level (cm_opts C)) name) name code spec of
             Inl err \<Rightarrow> (Inl (Compile err), store)
           | Inr so \<Rightarrow>
               (case create_dir L h of
                  Some err \<Rightarrow> (Inl (IO err), store)
                | None \<Rightarrow>
                    (case write_object L h of
                       Some err \<Rightarrow> (Inl (Assembly err), store)
                     | None \<Rightarrow>
                         (case link_object L h of
                            Some err \<Rightarrow> (Inl (Link err), store)
                          | None \<Rightarrow>
                              (case remove_object L h of
                                 Some err \<Rightarrow> (Inl (IO err), store(h \<mapsto> so))
                               | None \<Rightarrow> (Inr (), store(h \<mapsto> so))))))))"

section \<open>The cache\<close>

datatype ('f, 'so) compile_cache = JIT "b256 \<rightharpoonup> 'f" | AOT "b256 \<rightharpoonup> 'f \<times> 'so"

fun is_aot :: "('f, 'so) compile_cache \<Rightarrow> bool" where
  "is_aot (AOT m) = True"
| "is_aot (JIT m) = False"

fun cache_get :: "('f, 'so) compile_cache \<Rightarrow> b256 \<Rightarrow> 'f option" where
  "cache_get (JIT m) h = m h"
| "cache_get (AOT m) h = map_option fst (m h)"

fun cache_evict :: "b256 \<Rightarrow> ('f, 'so) compile_cache \<Rightarrow> ('f, 'so) compile_cache" where
  "cache_evict h (JIT m) = JIT (m(h := None))"
| "cache_evict h (AOT m) = AOT (m(h := None))"

fun jit_insert :: "b256 \<Rightarrow> 'f \<Rightarrow> ('f, 'so) compile_cache \<Rightarrow> ('f, 'so) compile_cache" where
  "jit_insert h f (JIT m) = JIT (m(h \<mapsto> f))"
| "jit_insert h f (AOT m) = AOT m"

fun aot_insert :: "b256 \<Rightarrow> 'f \<times> 'so \<Rightarrow> ('f, 'so) compile_cache \<Rightarrow> ('f, 'so) compile_cache" where
  "aot_insert h x (AOT m) = AOT (m(h \<mapsto> x))"
| "aot_insert h x (JIT m) = JIT m"

section \<open>The worker\<close>

record compile_pool =
  cp_threshold :: u64
  cp_max_tasks :: nat
  cp_compiler :: compiler

text \<open>
  The worker: the pool if there is one, the name of the module, the cache and the store, and the
  tasks that were spawned and have not run yet.
\<close>

type_synonym compile_task = "spec_id \<times> b256 \<times> bytecode"

record ('f, 'so) worker =
  ew_pool :: "compile_pool option"
  ew_module_name :: string
  ew_cache :: "('f, 'so) compile_cache"
  ew_store :: "b256 \<rightharpoonup> 'so"
  ew_tasks :: "compile_task list"

definition worker_disable :: "string \<Rightarrow> (b256 \<rightharpoonup> 'so) \<Rightarrow> ('f, 'so) worker" where
  "worker_disable name store =
     \<lparr>ew_pool = None, ew_module_name = name, ew_cache = JIT Map.empty, ew_store = store, ew_tasks = []\<rparr>"

definition pool_new_with_config ::
    "('f, 'so) backend \<Rightarrow> string \<Rightarrow> u64 \<Rightarrow> nat \<Rightarrow> compile_options \<Rightarrow> vm_error + compile_pool \<times> ('f, 'so) compile_cache" where
  "pool_new_with_config L name threshold max_concurrent_tasks opts =
     (case compiler_new L name opts of
        Inl err \<Rightarrow> Inl err
      | Inr C \<Rightarrow>
          Inr (\<lparr>cp_threshold = threshold, cp_max_tasks = max_concurrent_tasks, cp_compiler = C\<rparr>,
               if co_is_aot opts then AOT Map.empty else JIT Map.empty))"

definition pool_new ::
    "('f, 'so) backend \<Rightarrow> string \<Rightarrow> bool \<Rightarrow> u64 \<Rightarrow> nat \<Rightarrow> vm_error + compile_pool \<times> ('f, 'so) compile_cache" where
  "pool_new L name aot threshold max_concurrent_tasks =
     pool_new_with_config L name threshold max_concurrent_tasks (compile_options_default\<lparr>co_is_aot := aot\<rparr>)"

definition worker_new_with_opts ::
    "('f, 'so) backend \<Rightarrow> string \<Rightarrow> (b256 \<rightharpoonup> 'so) \<Rightarrow> ext_compile_options \<Rightarrow> vm_error + ('f, 'so) worker" where
  "worker_new_with_opts L name store opts =
     (case pool_new L name (eo_is_aot opts) (eo_threshold opts) (eo_pool_size opts) of
        Inl err \<Rightarrow> Inl err
      | Inr (pool, cache) \<Rightarrow>
          Inr \<lparr>ew_pool = Some pool, ew_module_name = name, ew_cache = cache, ew_store = store, ew_tasks = []\<rparr>)"

definition worker_aot :: "('f, 'so) backend \<Rightarrow> string \<Rightarrow> (b256 \<rightharpoonup> 'so) \<Rightarrow> vm_error + ('f, 'so) worker" where
  "worker_aot L name store = worker_new_with_opts L name store (ext_compile_options_default\<lparr>eo_is_aot := True\<rparr>)"

definition worker_jit :: "('f, 'so) backend \<Rightarrow> string \<Rightarrow> (b256 \<rightharpoonup> 'so) \<Rightarrow> vm_error + ('f, 'so) worker" where
  "worker_jit L name store = worker_new_with_opts L name store (ext_compile_options_default\<lparr>eo_is_aot := False\<rparr>)"

datatype 'f fetched_fn_result = Found 'f | NotFound

definition get_function ::
    "('f, 'so) backend \<Rightarrow> b256 \<Rightarrow> ('f, 'so) worker \<Rightarrow> (vm_error + 'f fetched_fn_result) \<times> ('f, 'so) worker" where
  "get_function L h W =
     (case ew_pool W of
        None \<Rightarrow> (Inl DisableCompiler, W)
      | Some pool \<Rightarrow>
          if h = 0 then (Inr NotFound, W)
          else
            (case cache_get (ew_cache W) h of
               Some f \<Rightarrow> (Inr (Found f), W)
             | None \<Rightarrow>
                 if is_aot (ew_cache W) then
                   (case ew_store W h of
                      None \<Rightarrow> (Inr NotFound, W)
                    | Some so \<Rightarrow>
                        (case load_library L so of
                           Some err \<Rightarrow> (Inl (LibLoading err), W)
                         | None \<Rightarrow>
                             (case library_symbol L so (ew_module_name W) of
                                Inl err \<Rightarrow> (Inl (LibLoading err), W)
                              | Inr f \<Rightarrow> (Inr (Found f), W\<lparr>ew_cache := aot_insert h (f, so) (ew_cache W)\<rparr>))))
                 else (Inr NotFound, W)))"

text \<open>The body of the task that \<open>CompilePool::spawn\<close> starts.\<close>

definition pool_task ::
    "('f, 'so) backend \<Rightarrow> compile_pool \<Rightarrow> compile_task \<Rightarrow> ('f, 'so) worker \<Rightarrow> (vm_error + unit) \<times> ('f, 'so) worker" where
  "pool_task L pool task W =
     (case task of (spec, h, code) \<Rightarrow>
        if h = 0 then (Inr (), W)
        else if co_is_aot (cm_opts (cp_compiler pool)) then
          (case aot_compile L (ew_module_name W) (cp_compiler pool) h code spec (ew_store W) of
             (r, store) \<Rightarrow> (r, W\<lparr>ew_store := store\<rparr>))
        else
          (case jit_compile L (ew_module_name W) (cp_compiler pool) code spec of
             Inl err \<Rightarrow> (Inl err, W)
           | Inr f \<Rightarrow> (Inr (), W\<lparr>ew_cache := jit_insert h f (ew_cache W)\<rparr>)))"

definition worker_spawn :: "spec_id \<Rightarrow> b256 \<Rightarrow> bytecode \<Rightarrow> ('f, 'so) worker \<Rightarrow> (vm_error + unit) \<times> ('f, 'so) worker" where
  "worker_spawn spec h code W =
     (case ew_pool W of
        None \<Rightarrow> (Inr (), W)
      | Some pool \<Rightarrow> (Inr (), W\<lparr>ew_tasks := ew_tasks W @ [(spec, h, code)]\<rparr>))"

text \<open>\<open>block\<close> awaits the task it spawns and ignores its result.\<close>

definition worker_block ::
    "('f, 'so) backend \<Rightarrow> spec_id \<Rightarrow> b256 \<Rightarrow> bytecode \<Rightarrow> ('f, 'so) worker
      \<Rightarrow> (vm_error + 'f fetched_fn_result) \<times> ('f, 'so) worker" where
  "worker_block L spec h code W =
     (case ew_pool W of
        None \<Rightarrow> (Inl DisableCompiler, W)
      | Some pool \<Rightarrow> get_function L h (snd (pool_task L pool (spec, h, code) W)))"

section \<open>The hook of the interpreter\<close>

text \<open>
  \<open>CompilerHandler::frame_call\<close>: \<open>code\<close> is the bytecode of the frame with its hash if it is known;
  \<open>run_interpreter\<close> and \<open>process_next_action\<close> are those of revm.
\<close>

definition frame_call ::
    "('f, 'so) backend \<Rightarrow> spec_id \<Rightarrow> b256 option \<Rightarrow> bytecode \<Rightarrow> ('e \<Rightarrow> 'a \<times> 'e) \<Rightarrow> ('a \<Rightarrow> 'e \<Rightarrow> 'r \<times> 'e)
      \<Rightarrow> ('f, 'so) worker \<Rightarrow> 'e \<Rightarrow> ('r \<times> 'e) \<times> ('f, 'so) worker" where
  "frame_call L spec code_hash code run_interpreter process_next_action W evm =
     (case (case code_hash of
        Some h \<Rightarrow>
          (case get_function L h W of
             (Inr NotFound, W1) \<Rightarrow> (run_interpreter evm, snd (worker_spawn spec h code W1))
           | (Inr (Found f), W1) \<Rightarrow> (run_interpreter evm, W1)
           | (Inl err, W1) \<Rightarrow> (run_interpreter evm, W1))
      | None \<Rightarrow> (run_interpreter evm, W)) of
        ((next_action, evm'), W') \<Rightarrow> (process_next_action next_action evm', W'))"

section \<open>The cache as a map\<close>

text \<open>What the worker relies on, for either kind of cache: a lookup gives the last insertion that was
  not dropped.\<close>

locale function_cache =
  fixes get :: "'c \<Rightarrow> b256 \<Rightarrow> 'v option"
    and put :: "b256 \<Rightarrow> 'v \<Rightarrow> 'c \<Rightarrow> 'c"
    and evict :: "b256 \<Rightarrow> 'c \<Rightarrow> 'c"
    and kind :: "'c \<Rightarrow> bool"
  assumes get_put: "kind c \<Longrightarrow> get (put h v c) k = (if k = h then Some v else get c k)"
    and get_evict: "kind c \<Longrightarrow> get (evict h c) k = (if k = h then None else get c k)"
    and kind_put: "kind c \<Longrightarrow> kind (put h v c)"
    and kind_evict: "kind c \<Longrightarrow> kind (evict h c)"
begin

lemma put_keeps:
  assumes "kind c" "\<forall>k w. get c k = Some w \<longrightarrow> P k w" "P h v"
  shows "\<forall>k w. get (put h v c) k = Some w \<longrightarrow> P k w"
  using assms by (simp add: get_put)

lemma evict_keeps:
  assumes "kind c" "\<forall>k w. get c k = Some w \<longrightarrow> P k w"
  shows "\<forall>k w. get (evict h c) k = Some w \<longrightarrow> P k w"
  using assms by (simp add: get_evict)

end

fun jit_entry :: "('f, 'so) compile_cache \<Rightarrow> b256 \<Rightarrow> 'f option" where
  "jit_entry (JIT m) h = m h"
| "jit_entry (AOT m) h = None"

fun aot_entry :: "('f, 'so) compile_cache \<Rightarrow> b256 \<Rightarrow> ('f \<times> 'so) option" where
  "aot_entry (AOT m) h = m h"
| "aot_entry (JIT m) h = None"

interpretation jc: function_cache jit_entry jit_insert cache_evict "\<lambda>c. \<not> is_aot c"
proof
  fix c :: "('a, 'b) compile_cache" and h k v
  assume "\<not> is_aot c"
  then obtain m where c: "c = JIT m" by (cases c) simp_all
  show "jit_entry (jit_insert h v c) k = (if k = h then Some v else jit_entry c k)"
    "jit_entry (cache_evict h c) k = (if k = h then None else jit_entry c k)"
    "\<not> is_aot (jit_insert h v c)" "\<not> is_aot (cache_evict h c)"
    by (simp_all add: c)
qed

interpretation ac: function_cache aot_entry aot_insert cache_evict is_aot
proof
  fix c :: "('a, 'b) compile_cache" and h k v
  assume "is_aot c"
  then obtain m where c: "c = AOT m" by (cases c) simp_all
  show "aot_entry (aot_insert h v c) k = (if k = h then Some v else aot_entry c k)"
    "aot_entry (cache_evict h c) k = (if k = h then None else aot_entry c k)"
    "is_aot (aot_insert h v c)" "is_aot (cache_evict h c)"
    by (simp_all add: c)
qed

lemma cache_get_entry: "cache_get c h = (if is_aot c then map_option fst (aot_entry c h) else jit_entry c h)"
  by (cases c) simp_all

section \<open>The worker as a system\<close>

text \<open>What a frame does to the worker; the state of the interpreter plays no part in it.\<close>

definition frame_worker ::
    "('f, 'so) backend \<Rightarrow> spec_id \<Rightarrow> b256 option \<Rightarrow> bytecode \<Rightarrow> ('f, 'so) worker \<Rightarrow> ('f, 'so) worker" where
  "frame_worker L spec code_hash code W =
     (case code_hash of
        None \<Rightarrow> W
      | Some h \<Rightarrow>
          (case get_function L h W of
             (Inr NotFound, W1) \<Rightarrow> snd (worker_spawn spec h code W1)
           | (_, W1) \<Rightarrow> W1))"

lemma frame_call_parts:
  "frame_call L spec code_hash code run_interpreter process_next_action W evm =
     (case run_interpreter evm of (next_action, evm') \<Rightarrow> process_next_action next_action evm',
      frame_worker L spec code_hash code W)"
  by (auto simp: frame_call_def frame_worker_def split: option.split prod.split sum.split fetched_fn_result.split)

text \<open>
  \<open>code_hash\<close> is the hash of a bytecode. Frames are called and functions fetched from any thread,
  spawned tasks run in any order, and the cache drops entries.
\<close>

inductive worker_step ::
    "('f, 'so) backend \<Rightarrow> (bytecode \<Rightarrow> b256) \<Rightarrow> ('f, 'so) worker \<Rightarrow> ('f, 'so) worker \<Rightarrow> bool"
  for L code_hash where
  frame: "worker_step L code_hash W (frame_worker L spec (Some (code_hash code)) code W)"
| fetch: "worker_step L code_hash W (snd (get_function L h W))"
| task: "ew_pool W = Some pool \<Longrightarrow> ew_tasks W = before @ t # after \<Longrightarrow>
    worker_step L code_hash W (snd (pool_task L pool t (W\<lparr>ew_tasks := before @ after\<rparr>)))"
| block: "worker_step L code_hash W (snd (worker_block L spec (code_hash code) code W))"
| evict: "worker_step L code_hash W (W\<lparr>ew_cache := cache_evict h (ew_cache W)\<rparr>)"

inductive worker_reachable ::
    "('f, 'so) backend \<Rightarrow> (bytecode \<Rightarrow> b256) \<Rightarrow> ('f, 'so) worker \<Rightarrow> ('f, 'so) worker \<Rightarrow> bool"
  for L code_hash W0 where
  w_start: "worker_reachable L code_hash W0 W0"
| w_step: "worker_reachable L code_hash W0 W \<Longrightarrow> worker_step L code_hash W W' \<Longrightarrow> worker_reachable L code_hash W0 W'"

definition jit_made ::
    "('f, 'so) backend \<Rightarrow> (bytecode \<Rightarrow> b256) \<Rightarrow> compiler \<Rightarrow> string \<Rightarrow> b256 \<Rightarrow> 'f \<Rightarrow> bool" where
  "jit_made L code_hash C name h f \<longleftrightarrow> h \<noteq> 0 \<and>
     (\<exists>code spec. code_hash code = h \<and> backend_jit L (cm_config C) name code spec = Inr f)"

definition aot_made ::
    "('f, 'so) backend \<Rightarrow> (bytecode \<Rightarrow> b256) \<Rightarrow> compile_options \<Rightarrow> string \<Rightarrow> b256 \<Rightarrow> 'so \<Rightarrow> bool" where
  "aot_made L code_hash opts name h so \<longleftrightarrow>
     (\<exists>code spec. code_hash code = h
        \<and> backend_translate L (compiler_config_of opts True (co_opt_level opts) name) name code spec = Inr so)"

definition worker_ok ::
    "('f, 'so) backend \<Rightarrow> (bytecode \<Rightarrow> b256) \<Rightarrow> compile_pool \<Rightarrow> string \<Rightarrow> ('f, 'so) worker \<Rightarrow> bool" where
  "worker_ok L code_hash pool name W \<longleftrightarrow>
     ew_pool W = Some pool \<and> ew_module_name W = name
   \<and> is_aot (ew_cache W) = co_is_aot (cm_opts (cp_compiler pool))
   \<and> (\<forall>(spec, h, code) \<in> set (ew_tasks W). code_hash code = h)
   \<and> (\<forall>h so. ew_store W h = Some so \<longrightarrow> aot_made L code_hash (cm_opts (cp_compiler pool)) name h so)
   \<and> (\<forall>h f. jit_entry (ew_cache W) h = Some f \<longrightarrow> jit_made L code_hash (cp_compiler pool) name h f)
   \<and> (\<forall>h x. aot_entry (ew_cache W) h = Some x \<longrightarrow>
        aot_made L code_hash (cm_opts (cp_compiler pool)) name h (snd x) \<and> library_symbol L (snd x) name = Inr (fst x))"

lemma worker_okD:
  assumes "worker_ok L code_hash pool name W"
  shows "ew_pool W = Some pool" "ew_module_name W = name"
    and "is_aot (ew_cache W) = co_is_aot (cm_opts (cp_compiler pool))"
    and "(spec, h, code) \<in> set (ew_tasks W) \<Longrightarrow> code_hash code = h"
    and "ew_store W h = Some so \<Longrightarrow> aot_made L code_hash (cm_opts (cp_compiler pool)) name h so"
    and "jit_entry (ew_cache W) h = Some f \<Longrightarrow> jit_made L code_hash (cp_compiler pool) name h f"
    and "aot_entry (ew_cache W) h = Some x \<Longrightarrow>
        aot_made L code_hash (cm_opts (cp_compiler pool)) name h (snd x) \<and> library_symbol L (snd x) name = Inr (fst x)"
  using assms unfolding worker_ok_def by (blast | fastforce)+

lemma get_function_ok:
  assumes ok: "worker_ok L code_hash pool name W" and g: "get_function L h W = (r, W')"
  shows "worker_ok L code_hash pool name W'
    \<and> (r = Inr (Found f) \<longrightarrow> h \<noteq> 0 \<and>
        (if co_is_aot (cm_opts (cp_compiler pool))
         then \<exists>so. aot_made L code_hash (cm_opts (cp_compiler pool)) name h so \<and> library_symbol L so name = Inr f
         else jit_made L code_hash (cp_compiler pool) name h f))"
proof -
  have "worker_ok L code_hash pool name (W\<lparr>ew_cache := aot_insert h (g, so) (ew_cache W)\<rparr>)"
    if a: "is_aot (ew_cache W)" "aot_made L code_hash (cm_opts (cp_compiler pool)) name h so" "library_symbol L so name = Inr g" for so g
  proof -
    have "\<forall>k x. aot_entry (aot_insert h (g, so) (ew_cache W)) k = Some x \<longrightarrow>
        aot_made L code_hash (cm_opts (cp_compiler pool)) name k (snd x) \<and> library_symbol L (snd x) name = Inr (fst x)"
      using ok a by (intro ac.put_keeps) (auto simp: worker_ok_def)
    moreover have "jit_entry (aot_insert h (g, so) (ew_cache W)) k = None" for k
      using a(1) by (cases "ew_cache W") simp_all
    ultimately show ?thesis using ok a by (simp add: worker_ok_def ac.kind_put)
  qed
  note load = this
  note K = worker_okD[OF ok]
  show ?thesis
  proof (cases "h = 0")
    case True
    then show ?thesis using g ok K(1) by (auto simp: get_function_def)
  next
    case nz: False
    show ?thesis
    proof (cases "cache_get (ew_cache W) h")
      case hit: (Some c)
      then have "r = Inr (Found c)" "W' = W" using g nz K(1) by (auto simp: get_function_def)
      then show ?thesis using ok hit nz K(3) K(6)[of h] K(7)[of h] by (auto simp: cache_get_entry split: if_splits)
    next
      case None
      then show ?thesis
        using g nz ok load K(1,2,3) K(5)[of h]
        by (auto simp: get_function_def split: if_splits option.splits sum.splits)
    qed
  qed
qed

lemma pool_task_ok:
  assumes ok: "worker_ok L code_hash pool name W" and h: "code_hash code = h" and t: "pool_task L pool (spec, h, code) W = (r, W')"
  shows "worker_ok L code_hash pool name W'"
proof -
  let ?C = "cp_compiler pool"
  have store: "worker_ok L code_hash pool name (W\<lparr>ew_store := (ew_store W)(h \<mapsto> so)\<rparr>)"
    if "backend_translate L (compiler_config_of (cm_opts ?C) True (co_opt_level (cm_opts ?C)) name) name code spec = Inr so" for so
    using ok h that by (auto simp: worker_ok_def aot_made_def)
  have cache: "worker_ok L code_hash pool name (W\<lparr>ew_cache := jit_insert h f (ew_cache W)\<rparr>)"
    if "\<not> co_is_aot (cm_opts ?C)" "h \<noteq> 0" "backend_jit L (cm_config ?C) name code spec = Inr f" for f
  proof -
    have a: "\<not> is_aot (ew_cache W)" using ok that(1) by (simp add: worker_ok_def)
    have "\<forall>k g. jit_entry (jit_insert h f (ew_cache W)) k = Some g \<longrightarrow> jit_made L code_hash ?C name k g"
      using ok a h that(2,3) by (intro jc.put_keeps) (auto simp: worker_ok_def jit_made_def)
    moreover have "aot_entry (jit_insert h f (ew_cache W)) k = None" for k using a by (cases "ew_cache W") simp_all
    ultimately show ?thesis using ok a by (simp add: worker_ok_def jc.kind_put)
  qed
  have "ew_module_name W = name" using ok by (simp add: worker_ok_def)
  then show ?thesis
    using t ok store cache
    by (auto simp: pool_task_def aot_compile_def jit_compile_def split: if_splits sum.splits option.splits prod.splits)
qed

lemma worker_spawn_ok:
  "worker_ok L code_hash pool name W \<Longrightarrow> code_hash code = h \<Longrightarrow> worker_ok L code_hash pool name (snd (worker_spawn spec h code W))"
  by (simp add: worker_ok_def worker_spawn_def)

lemma frame_worker_ok:
  assumes "worker_ok L code_hash pool name W"
  shows "worker_ok L code_hash pool name (frame_worker L spec (Some (code_hash code)) code W)"
proof -
  obtain r W1 where g: "get_function L (code_hash code) W = (r, W1)" by force
  then have "worker_ok L code_hash pool name W1" using get_function_ok[OF assms] by blast
  then show ?thesis
    by (simp add: frame_worker_def g worker_spawn_ok split: sum.split fetched_fn_result.split)
qed

lemma worker_step_ok:
  assumes "worker_step L code_hash W W'" "worker_ok L code_hash pool name W"
  shows "worker_ok L code_hash pool name W'"
  using assms
proof cases
  case (frame spec code)
  then show ?thesis using frame_worker_ok[OF assms(2)] by simp
next
  case (fetch h)
  then show ?thesis using get_function_ok[OF assms(2) prod.collapse[symmetric]] by simp
next
  case (task p before t after)
  obtain spec h code where t: "t = (spec, h, code)" by (cases t)
  have "worker_ok L code_hash pool name (W\<lparr>ew_tasks := before @ after\<rparr>)" "code_hash code = h" "p = pool"
    using assms(2) task by (auto simp: worker_ok_def t)
  then show ?thesis using pool_task_ok[OF _ _ prod.collapse[symmetric]] task t by blast
next
  case (block spec code)
  have p: "ew_pool W = Some pool" using assms(2) by (simp add: worker_ok_def)
  have "worker_ok L code_hash pool name (snd (pool_task L pool (spec, code_hash code, code) W))"
    by (rule pool_task_ok[OF assms(2) refl prod.collapse[symmetric]])
  from get_function_ok[OF this prod.collapse[symmetric]] show ?thesis using block p by (simp add: worker_block_def)
next
  case (evict h)
  have e: "is_aot (cache_evict h (ew_cache W)) = is_aot (ew_cache W)" by (cases "ew_cache W") simp_all
  have "jit_entry (cache_evict h (ew_cache W)) k = Some g \<Longrightarrow> jit_entry (ew_cache W) k = Some g"
    "aot_entry (cache_evict h (ew_cache W)) k = Some x \<Longrightarrow> aot_entry (ew_cache W) k = Some x" for k g x
    by (cases "ew_cache W", auto split: if_splits)+
  then show ?thesis
    using assms(2) e unfolding evict worker_ok_def by (simp del: split_paired_All) blast
qed

lemma worker_new_ok:
  assumes "worker_new_with_opts L name store opts = Inr W"
    and "\<forall>h so. store h = Some so \<longrightarrow> aot_made L code_hash (compile_options_default\<lparr>co_is_aot := eo_is_aot opts\<rparr>) name h so"
  obtains pool where "worker_ok L code_hash pool name W"
    "cm_opts (cp_compiler pool) = compile_options_default\<lparr>co_is_aot := eo_is_aot opts\<rparr>"
    "cm_config (cp_compiler pool) = compiler_config_of (cm_opts (cp_compiler pool)) (eo_is_aot opts) Aggressive name"
  using assms
  by (auto simp: worker_new_with_opts_def pool_new_def pool_new_with_config_def compiler_new_def worker_ok_def
      compile_options_default_def split: sum.splits prod.splits if_splits)

lemma worker_reachable_ok:
  "worker_reachable L code_hash W0 W \<Longrightarrow> worker_ok L code_hash pool name W0 \<Longrightarrow> worker_ok L code_hash pool name W"
  by (induction rule: worker_reachable.induct) (use worker_step_ok in blast)+

section \<open>Properties\<close>

text \<open>A backend whose functions and libraries are the compiled bytecode with its specification.\<close>

definition sample_backend :: "(bytecode \<times> spec_id, bytecode \<times> spec_id) backend" where
  "sample_backend = \<lparr>backend_new = (\<lambda>_ _. Inr ()), backend_jit = (\<lambda>_ _ code spec. Inr (code, spec)),
     backend_translate = (\<lambda>_ _ code spec. Inr (code, spec)), write_object = (\<lambda>_. None), link_object = (\<lambda>_. None),
     create_dir = (\<lambda>_. None), remove_object = (\<lambda>_. None), load_library = (\<lambda>_. None), library_symbol = (\<lambda>so _. Inr so)\<rparr>"

definition sample_worker :: "bool \<Rightarrow> (bytecode \<times> spec_id, bytecode \<times> spec_id) worker" where
  "sample_worker aot = \<lparr>ew_pool = Some \<lparr>cp_threshold = 1, cp_max_tasks = 3, cp_compiler =
        \<lparr>cm_opts = compile_options_default\<lparr>co_is_aot := aot\<rparr>,
         cm_config = compiler_config_of (compile_options_default\<lparr>co_is_aot := aot\<rparr>) aot Aggressive ''m''\<rparr>\<rparr>,
      ew_module_name = ''m'', ew_cache = (if aot then AOT Map.empty else JIT Map.empty), ew_store = Map.empty, ew_tasks = []\<rparr>"

lemma sample_worker_new:
  "worker_new_with_opts sample_backend ''m'' Map.empty (ext_compile_options_default\<lparr>eo_is_aot := aot\<rparr>) = Inr (sample_worker aot)"
  by (simp add: worker_new_with_opts_def pool_new_def pool_new_with_config_def compiler_new_def sample_backend_def
      sample_worker_def ext_compile_options_default_def compile_options_default_def)





text \<open>The options a worker is created with switch the metering of gas off and the checks of the stack on.\<close>

lemma default_compiler_meters_no_gas:
  assumes "worker_new_with_opts L name store opts = Inr W"
  shows "\<exists>pool. ew_pool W = Some pool \<and> \<not> cc_gas_metering (cm_config (cp_compiler pool))
    \<and> cc_stack_bound_checks (cm_config (cp_compiler pool))"
  using assms
  by (auto simp: worker_new_with_opts_def pool_new_def pool_new_with_config_def compiler_new_def compile_options_default_def
      compiler_config_of_def split: sum.splits)

end
