(* ===== verification/Spec2Isabelle.thy ===== *)
theory Spec2Isabelle
  imports Scheduler_Progress Task_Graph Lazy_Evaluation Op_Block_Executor In_Memory_DB Compile_Worker
begin

text \<open>
  Verification of metis-sdk: the parallel execution of a block of transactions.

  \<^bold>\<open>The program.\<close> \<open>ParallelExecutor::execute\<close> (\<open>crates/pe/src/executor.rs\<close>) executes the transactions of
  a block on several threads. The threads take tasks from a scheduler (\<open>scheduler.rs\<close>): to execute a
  transaction, or to validate an execution. An execution (\<open>vm.rs\<close>) runs the interpreter of revm on a
  database that looks into a multi-version memory (\<open>mv_memory.rs\<close>) before it looks into the storage,
  and records what it read and wrote there. A validation compares the recorded reads with the memory;
  if they differ, the writes become estimates and the transaction is executed again. After the threads
  have left, results are collected, lazy balance updates are evaluated, and the block executor of the
  node (\<open>crates/chain/src/provider.rs\<close>) commits them. The files \<open>op_vm.rs\<close>, \<open>op_executor.rs\<close> and
  \<open>op_provider.rs\<close> do the same for Optimism. Beside the interpreter, a worker compiles bytecode
  (\<open>crates/vm/src\<close>).

  \<^bold>\<open>Theories and sources.\<close>
  \<^item> \<open>Prelude\<close>: machine types, saturating and wrapping arithmetic, sorted maps (locale \<open>version_map\<close>).
  \<^item> \<open>Primitives\<close>: \<open>crates/primitives/src\<close>; \<open>I257\<close> as a clamped integer, saturating conversions, hashers.
  \<^item> \<open>Types\<close>, \<open>Results\<close>: \<open>types.rs\<close>, \<open>lib.rs\<close> and \<open>result.rs\<close> of \<open>crates/pe/src\<close>; the packed status (locale \<open>usize_repr\<close>).
  \<^item> \<open>Scheduler\<close>: every method of \<open>struct Scheduler\<close> as a function on the record \<open>scheduler\<close>.
    \<open>Scheduler_Steps\<close>: the threads as a step relation, one critical section or atomic update per
    step, and its invariant. \<open>Scheduler_Progress\<close>: properties over all interleavings.
  \<^item> \<open>Task_Graph\<close>: the task providers of \<open>scheduler.rs\<close> (locale \<open>task_provider\<close>).
  \<^item> \<open>Mv_Memory\<close>: \<open>mv_memory.rs\<close>. \<open>Mv_Stability\<close>: which changes keep a read valid.
  \<^item> \<open>Vm_Database\<close>, \<open>Vm\<close>: \<open>struct VmDB\<close> and \<open>struct Vm\<close> of \<open>vm.rs\<close>. \<open>Vm_Replay\<close>: a valid execution
    repeats itself without interference. \<open>Vm_Soundness\<close>: what a call of \<open>Vm::execute\<close> can give.
  \<^item> \<open>Serial_Equivalence\<close>: serial execution, and blocks whose reads are all valid.
  \<^item> \<open>Executor\<close>: \<open>try_execute\<close>, \<open>try_validate\<close>, all of \<open>execute\<close> after the threads, the sequential
    fallback. \<open>Lazy_Evaluation\<close>: the two evaluations of lazy updates agree.
  \<^item> \<open>Parallel_Run\<close>: the threads with scheduler, memory and results as one system. \<open>Parallel_Invariant\<close>:
    its invariant. \<open>Parallel_Sample\<close>: a run with a failed validation, for the witnesses.
    \<open>Parallel_Serial\<close>: a finished run is serial.
  \<^item> \<open>Op_Vm\<close>, \<open>Op_Executor\<close>: \<open>op_vm.rs\<close> and \<open>op_executor.rs\<close>, translated from their own lines and
    compared with the Ethereum files.
  \<^item> \<open>In_Memory_DB\<close>: \<open>crates/pe/src/db.rs\<close>.
  \<^item> \<open>Block_Executor\<close>, \<open>Op_Block_Executor\<close>: \<open>provider.rs\<close>, \<open>state.rs\<close> and \<open>op_provider.rs\<close> of
    \<open>crates/chain/src\<close>, from \<open>execute_block\<close> to the committed state.
  \<^item> \<open>Spec_Ids\<close>: the specifications of \<open>crates/tools/src/lib.rs\<close>.
  \<^item> \<open>Compile_Worker\<close>: \<open>compiler.rs\<close>, \<open>pool.rs\<close> and \<open>error.rs\<close> of \<open>crates/vm/src\<close> (locale \<open>function_cache\<close>).

  \<^bold>\<open>What is shown.\<close> The main result is that every run that ends without an abort gives the results
  and the memory of executing the transactions one after the other, whatever the number of threads
  and their interleaving, and that the receipts of the node are those of this serial execution. It
  rests on the invariants of the scheduler (one owner per executing transaction, no transaction lost,
  all validated at the end), on the correctness of recording, validation and estimates in the memory,
  and on the replay of validated executions. Further groups of lemmas treat the evaluation of lazy
  balances and of rewards, error paths and aborts, the sequential fallback, the agreement of the
  Optimism files with the Ethereum ones, the database in memory, and the compile worker. Some theorems
  state what the code does where it differs from what is meant: the gas used of a block adds up
  running totals, a nonce gap is retried for ever, the transaction graph releases nothing.

  \<^bold>\<open>Parameters and hypotheses.\<close> revm, reth, moka, revmc and the hash functions are arguments. revm
  is a tree of database calls (\<open>evm\<close>); \<open>revm_sound\<close> says that it does not make up database errors
  and that the codes it returns have their hashes; \<open>stored_codes\<close> that the storage has the code of
  each account; \<open>uses_locations\<close> that the location hash is injective on what a transaction reads;
  \<open>cache_transparent\<close> that reading the state of reth does not change its answers. The block has fewer
  than \<open>2 ^ 64\<close> transactions, so that the counters of the scheduler do not wrap.

  \<^bold>\<open>Granularity, bounds and fuel.\<close> Steps of the scheduler are its critical sections and atomic
  operations, in a sequentially consistent order. Recording, validating and converting go one
  location per step; the reads of one execution happen at any ascending moments of the history of the
  memory. \<open>try_execute_loop\<close> has fuel because the loop has no bound in the code; the theorem about it
  holds for every fuel. \<open>next_task\<close> has fuel because its loop waits for other threads; one turn of it
  is \<open>next_task_iter\<close>, and enough fuel is one turn when the threads may leave. All other loops end.
  Additions that overflow wrap around, as in a build without overflow checks; \<open>None\<close> is a panic.

  \<^bold>\<open>Not modelled.\<close> The hook EVM (\<open>crates/hook\<close>, \<open>crates/chain/src/hook_provider.rs\<close>) wraps an EVM of
  revm, forwards the methods of its traits and replaces the reward of the beneficiary in a handler whose
  other steps are those of revm. The inference precompile (\<open>crates/vm/src/inference.rs\<close>) asks a language
  model. The configuration of the node forwards to reth. \<open>build_evm\<close> and the handlers only set up
  revm. \<open>dropper.rs\<close> frees memory in the background. \<open>env.rs\<close> and \<open>runtime.rs\<close> read environment
  variables and hold singletons. The binaries under \<open>crates/tools/bins\<close> and \<open>crates/chain/bin\<close> are
  input, output and drivers of test suites; \<open>crates/db\<close> is empty. Weak memory orderings, the poisoning
  of locks and termination of the threads under an unfair schedule are outside the model.
\<close>

end
